(* ===== verification/Prelude.thy ===== *)
theory Prelude
  imports Main "HOL-Library.Word" "HOL-Library.Char_ord" "HOL-Library.List_Lexorder"
    "HOL-Library.Product_Lexorder"
begin

text \<open>
  Shared vocabulary of the development: the machine types of the Rust sources, results
  (\<open>Result<T, E>\<close>) as sums, \<open>for _ in 0..n\<close> loops over a read cursor, little- and big-endian
  integers, UTF-8 strings as their bytes, and decimal and hexadecimal formatting.  The
  collections \<open>cursor_simps\<close> and \<open>result_simps\<close> carry the facts that most component proofs use.
\<close>

named_theorems result_simps \<open>facts about results and the early-return operator\<close>
named_theorems cursor_simps \<open>facts about readers applied to what the writers wrote\<close>

type_synonym u8 = "8 word"
type_synonym u32 = "32 word"
type_synonym u64 = "64 word"
type_synonym i64 = "64 word" \<comment> \<open>read with \<open>sint\<close>\<close>
type_synonym bytes = "u8 list"

section \<open>Results\<close>

text \<open>
  \<open>Result<T, E>\<close> is \<open>'e + 't\<close>, with \<open>Inl\<close> for \<open>Err\<close>.  \<open>and_then r f\<close> is the \<open>?\<close> operator followed
  by the rest of the function body; \<open>map_err\<close> is the method of the same name, \<open>ok_or\<close> turns an
  option into a result.  In a method that takes \<open>&mut self\<close> an early return also returns the
  state reached so far: \<open>try_at s r f\<close>.
\<close>

definition and_then :: "'e + 'a \<Rightarrow> ('a \<Rightarrow> 'e + 'b) \<Rightarrow> 'e + 'b" where
  "and_then r f = (case r of Inl e \<Rightarrow> Inl e | Inr x \<Rightarrow> f x)"

definition map_err :: "('e \<Rightarrow> 'd) \<Rightarrow> 'e + 'a \<Rightarrow> 'd + 'a" where
  "map_err f r = (case r of Inl e \<Rightarrow> Inl (f e) | Inr x \<Rightarrow> Inr x)"

definition ok_or :: "'e \<Rightarrow> 'a option \<Rightarrow> 'e + 'a" where
  "ok_or e x = (case x of None \<Rightarrow> Inl e | Some y \<Rightarrow> Inr y)"

definition try_at :: "'s \<Rightarrow> 'e + 'a \<Rightarrow> ('a \<Rightarrow> ('e + 'b) \<times> 's) \<Rightarrow> ('e + 'b) \<times> 's" where
  "try_at s r f = (case r of Inl e \<Rightarrow> (Inl e, s) | Inr x \<Rightarrow> f x)"

text \<open>The \<open>?\<close> operator after a call that changed the state.\<close>

definition then_at :: "('e + 'a) \<times> 's \<Rightarrow> ('a \<Rightarrow> 's \<Rightarrow> ('e + 'b) \<times> 's) \<Rightarrow> ('e + 'b) \<times> 's" where
  "then_at rs f = (case rs of (Inl e, s) \<Rightarrow> (Inl e, s) | (Inr x, s) \<Rightarrow> f x s)"

text \<open>A loop that collects one result per item and returns early at the first error.\<close>

fun try_map :: "('a \<Rightarrow> 'e + 'b) \<Rightarrow> 'a list \<Rightarrow> 'e + 'b list" where
  "try_map f [] = Inr []"
| "try_map f (x # xs) = and_then (f x) (\<lambda>y. and_then (try_map f xs) (\<lambda>ys. Inr (y # ys)))"

definition is_ok :: "'e + 'a \<Rightarrow> bool" where
  "is_ok r = (case r of Inl _ \<Rightarrow> False | Inr _ \<Rightarrow> True)"

lemma and_then_simps [simp, result_simps]:
  "and_then (Inl e) f = Inl e" "and_then (Inr x) f = f x"
  by (simp_all add: and_then_def)

lemma map_err_simps [simp, result_simps]:
  "map_err f (Inl e) = Inl (f e)" "map_err f (Inr x) = Inr x"
  by (simp_all add: map_err_def)

lemma ok_or_simps [simp, result_simps]:
  "ok_or e None = Inl e" "ok_or e (Some x) = Inr x"
  by (simp_all add: ok_or_def)

lemma try_at_simps [simp, result_simps]:
  "try_at s (Inl e) f = (Inl e, s)" "try_at s (Inr x) f = f x"
  by (simp_all add: try_at_def)

lemma then_at_simps [simp, result_simps]:
  "then_at (Inl e, s) f = (Inl e, s)" "then_at (Inr x, s) f = f x s"
  by (simp_all add: then_at_def)

lemma try_map_Inr: "(\<And>x. x \<in> set xs \<Longrightarrow> f x = Inr (g x)) \<Longrightarrow> try_map f xs = Inr (map g xs)"
  by (induction xs) auto

lemma is_ok_simps [simp, result_simps]:
  "\<not> is_ok (Inl e)" "is_ok (Inr x)"
  by (simp_all add: is_ok_def)

lemma and_then_Inr_iff: "and_then r f = Inr y \<longleftrightarrow> (\<exists>x. r = Inr x \<and> f x = Inr y)"
  by (cases r) auto

lemma and_then_Inl_iff: "and_then r f = Inl e \<longleftrightarrow> r = Inl e \<or> (\<exists>x. r = Inr x \<and> f x = Inl e)"
  by (cases r) auto

lemma map_err_Inr_iff [simp]: "map_err f r = Inr x \<longleftrightarrow> r = Inr x"
  by (cases r) auto

lemma map_err_Inl_iff: "map_err f r = Inl d \<longleftrightarrow> (\<exists>e. r = Inl e \<and> d = f e)"
  by (cases r) auto

lemma ok_or_Inr_iff [simp]: "ok_or e r = Inr x \<longleftrightarrow> r = Some x"
  by (cases r) auto

lemma ok_or_Inl_iff [simp]: "ok_or e r = Inl d \<longleftrightarrow> r = None \<and> d = e"
  by (cases r) auto

lemma is_ok_iff: "is_ok r \<longleftrightarrow> (\<exists>x. r = Inr x)"
  by (cases r) auto

lemma and_then_cong [fundef_cong]:
  "r = r' \<Longrightarrow> (\<And>x. r' = Inr x \<Longrightarrow> f x = g x) \<Longrightarrow> and_then r f = and_then r' g"
  by (cases r') auto

section \<open>Lists\<close>

lemma distinct_map_via:
  assumes "distinct (map f xs)" and "\<And>x y. x \<in> set xs \<Longrightarrow> y \<in> set xs \<Longrightarrow> g x = g y \<Longrightarrow> f x = f y"
  shows "distinct (map g xs)"
  using assms
proof (induction xs)
  case (Cons a xs)
  have "g a \<noteq> g y" if "y \<in> set xs" for y
    using Cons.prems(1) Cons.prems(2) [of a y] that by auto
  with Cons show ?case by auto
qed simp

section \<open>Cursor loops\<close>

text \<open>
  A reader consumes a prefix of its input, \<open>bytes \<Rightarrow> 'e + ('a \<times> bytes)\<close>; the second component is
  the cursor after the read.  \<open>for_n n body acc cur\<close> is the loop \<open>for _ in 0..n\<close> whose body
  updates an accumulator and the cursor and may return early with an error.
\<close>

fun for_n :: "nat \<Rightarrow> ('acc \<Rightarrow> bytes \<Rightarrow> 'e + ('acc \<times> bytes)) \<Rightarrow> 'acc \<Rightarrow> bytes \<Rightarrow> 'e + ('acc \<times> bytes)" where
  "for_n 0 body acc cur = Inr (acc, cur)"
| "for_n (Suc n) body acc cur =
     and_then (body acc cur) (\<lambda>(acc', cur'). for_n n body acc' cur')"

text \<open>A body that never lengthens the cursor gives a loop that never lengthens it.\<close>

lemma for_n_cursor_le:
  assumes "\<And>acc cur acc' cur'. body acc cur = Inr (acc', cur') \<Longrightarrow> length cur' \<le> length cur"
    and "for_n n body acc cur = Inr (acc', cur')"
  shows "length cur' \<le> length cur"
  using assms(2)
proof (induction n arbitrary: acc cur)
  case (Suc n)
  then obtain a c where "body acc cur = Inr (a, c)" "for_n n body a c = Inr (acc', cur')"
    by (auto simp: and_then_Inr_iff)
  with assms(1) Suc.IH show ?case by (meson le_trans)
qed simp

lemma for_n_rule:
  assumes "for_n n body acc cur = Inr (acc', cur')"
    and "P i acc cur"
    and "\<And>j acc cur acc' cur'. P j acc cur \<Longrightarrow> body acc cur = Inr (acc', cur') \<Longrightarrow> P (Suc j) acc' cur'"
  shows "P (i + n) acc' cur'"
  using assms(1,2)
proof (induction n arbitrary: i acc cur)
  case (Suc n)
  then obtain a c where "body acc cur = Inr (a, c)" "for_n n body a c = Inr (acc', cur')"
    by (auto simp: and_then_Inr_iff)
  with assms(3) Suc show ?case by fastforce
qed simp

text \<open>A reader that does not depend on what follows the bytes it consumes.\<close>

definition extends :: "(bytes \<Rightarrow> 'e + ('a \<times> bytes)) \<Rightarrow> bool" where
  "extends rd \<longleftrightarrow> (\<forall>cur x r q. rd cur = Inr (x, r) \<longrightarrow> rd (cur @ q) = Inr (x, r @ q))"

lemma extendsI: "(\<And>cur x r q. rd cur = Inr (x, r) \<Longrightarrow> rd (cur @ q) = Inr (x, r @ q)) \<Longrightarrow> extends rd"
  by (simp add: extends_def)

lemma extendsD: "extends rd \<Longrightarrow> rd cur = Inr (x, r) \<Longrightarrow> rd (cur @ q) = Inr (x, r @ q)"
  by (simp add: extends_def)

lemma extends_and_then:
  assumes "extends rd" and "\<And>x. extends (k x)"
  shows "extends (\<lambda>cur. and_then (rd cur) (\<lambda>(x, cur). k x cur))"
  using assms by (fastforce simp: extends_def and_then_Inr_iff)

lemma extends_for_n: "(\<And>acc. extends (body acc)) \<Longrightarrow> extends (for_n n body acc)"
proof (induction n arbitrary: acc)
  case (Suc n)
  then have "extends (\<lambda>cur. and_then (body acc cur) (\<lambda>(a, c). for_n n body a c))"
    by (intro extends_and_then) auto
  then show ?case by (simp add: extends_def)
qed (simp add: extends_def)

lemma extends_if:
  "(P \<Longrightarrow> extends f) \<Longrightarrow> (\<not> P \<Longrightarrow> extends g) \<Longrightarrow> extends (\<lambda>cur. if P then f cur else g cur)"
  by (cases P) auto

lemma extends_const: "extends (\<lambda>cur. Inr (x, cur))" "extends (\<lambda>cur. Inl e)"
  by (simp_all add: extends_def)

lemmas extends_intros = extends_and_then extends_for_n extends_if extends_const

text \<open>Two bodies that agree on every cursor the loop can reach give the same loop.\<close>

lemma for_n_cong_cursor:
  assumes "\<And>acc c. length c \<le> length cur \<Longrightarrow> body acc c = body' acc c"
    and "\<And>acc c acc' c'. body acc c = Inr (acc', c') \<Longrightarrow> length c' \<le> length c"
  shows "for_n n body acc cur = for_n n body' acc cur"
  using assms(1)
proof (induction n arbitrary: acc cur)
  case (Suc n)
  have eq: "body acc cur = body' acc cur"
    using Suc.prems by simp
  show ?case
  proof (cases "body acc cur")
    case (Inr r)
    obtain a c where r: "r = (a, c)" by fastforce
    have "length c \<le> length cur" using assms(2) Inr r by simp
    then have "for_n n body a c = for_n n body' a c"
      by (intro Suc.IH) (simp add: Suc.prems)
    with Inr r eq show ?thesis by simp
  qed (use eq in simp)
qed simp

text \<open>Reading back what a writer emitted item by item.\<close>

lemma for_n_fold:
  assumes "\<And>acc x rest. x \<in> set xs \<Longrightarrow> body acc (w x @ rest) = Inr (f x acc, rest)"
  shows "for_n (length xs) body acc (concat (map w xs) @ rest) = Inr (fold f xs acc, rest)"
  using assms by (induction xs arbitrary: acc) auto

section \<open>Integers as bytes\<close>

fun le_bytes_of :: "nat \<Rightarrow> nat \<Rightarrow> bytes" where
  "le_bytes_of 0 n = []"
| "le_bytes_of (Suc k) n = word_of_nat (n mod 256) # le_bytes_of k (n div 256)"

fun nat_of_le :: "bytes \<Rightarrow> nat" where
  "nat_of_le [] = 0"
| "nat_of_le (b # bs) = unat b + 256 * nat_of_le bs"

text \<open>\<open>to_le_bytes\<close>, \<open>from_le_bytes\<close> and the big-endian pair at the widths the code uses.\<close>

definition u32_to_le :: "u32 \<Rightarrow> bytes" where
  "u32_to_le w = le_bytes_of 4 (unat w)"

definition u32_from_le :: "bytes \<Rightarrow> u32" where
  "u32_from_le bs = word_of_nat (nat_of_le bs)"

definition u64_to_le :: "u64 \<Rightarrow> bytes" where
  "u64_to_le w = le_bytes_of 8 (unat w)"

definition u64_from_le :: "bytes \<Rightarrow> u64" where
  "u64_from_le bs = word_of_nat (nat_of_le bs)"

definition u64_to_be :: "u64 \<Rightarrow> bytes" where
  "u64_to_be w = rev (le_bytes_of 8 (unat w))"

definition u64_from_be :: "bytes \<Rightarrow> u64" where
  "u64_from_be bs = word_of_nat (nat_of_le (rev bs))"

lemma unat_u8_less [simp]: "unat (b :: u8) < 256"
  using unsigned_less [of b, where 'a = nat] by simp

lemma unat_u32_less [simp]: "unat (w :: u32) < 4294967296"
  using unsigned_less [of w, where 'a = nat] by simp

lemma unat_u64_less [simp]: "unat (w :: u64) < 18446744073709551616"
  using unsigned_less [of w, where 'a = nat] by simp

lemma length_le_bytes_of [simp]: "length (le_bytes_of k n) = k"
  by (induction k arbitrary: n) auto

lemma unat_byte [simp]: "unat (word_of_nat n :: u8) = n mod 256"
  by (simp add: unat_of_nat)

lemma nat_of_le_bytes: "nat_of_le (le_bytes_of k n) = n mod 256 ^ k"
  by (induction k arbitrary: n) (simp_all add: mod_mult2_eq)

lemma le_bytes_of_nat: "length bs = k \<Longrightarrow> le_bytes_of k (nat_of_le bs) = bs"
proof (induction bs arbitrary: k)
  case (Cons b bs)
  have "unat b < 256" by simp
  then show ?case using Cons by auto
qed simp

lemma nat_of_le_less: "nat_of_le bs < 256 ^ length bs"
proof (induction bs)
  case (Cons b bs)
  have "unat b < 256" by simp
  then show ?case using Cons by (simp del: unat_u8_less)
qed simp

lemma length_int_bytes [simp]:
  "length (u32_to_le w) = 4" "length (u64_to_le v) = 8" "length (u64_to_be v) = 8"
  by (simp_all add: u32_to_le_def u64_to_le_def u64_to_be_def)

lemma u32_from_to_le [simp]: "u32_from_le (u32_to_le w) = w"
  by (simp add: u32_from_le_def u32_to_le_def nat_of_le_bytes)

lemma u64_from_to_le [simp]: "u64_from_le (u64_to_le w) = w"
  by (simp add: u64_from_le_def u64_to_le_def nat_of_le_bytes)

lemma u64_from_to_be [simp]: "u64_from_be (u64_to_be w) = w"
  by (simp add: u64_from_be_def u64_to_be_def nat_of_le_bytes)

lemma u64_to_from_be [simp]: "length bs = 8 \<Longrightarrow> u64_to_be (u64_from_be bs) = bs"
proof -
  assume a: "length bs = 8"
  have "nat_of_le (rev bs) < 2 ^ 64" using nat_of_le_less [of "rev bs"] a by simp
  then have "unat (word_of_nat (nat_of_le (rev bs)) :: u64) = nat_of_le (rev bs)"
    by (simp add: unat_of_nat)
  with a show ?thesis by (simp add: u64_to_be_def u64_from_be_def le_bytes_of_nat)
qed

lemma u32_to_le_inject [simp]: "u32_to_le a = u32_to_le b \<longleftrightarrow> a = b"
  by (metis u32_from_to_le)

lemma u64_to_be_inject [simp]: "u64_to_be a = u64_to_be b \<longleftrightarrow> a = b"
  by (metis u64_from_to_be)

text \<open>The length field of a collection: \<open>len as u32\<close>, exact below \<open>2 ^ 32\<close>.\<close>

definition len_u32 :: "'a list \<Rightarrow> u32" where
  "len_u32 xs = word_of_nat (length xs)"

definition len_ok :: "'a list \<Rightarrow> bool" where
  "len_ok xs \<longleftrightarrow> length xs < 2 ^ 32"

lemma unat_len_u32 [simp]: "length xs < 2 ^ 32 \<Longrightarrow> unat (len_u32 xs) = length xs"
  by (simp add: len_u32_def unat_of_nat)

section \<open>Strings\<close>

text \<open>
  A Rust \<open>String\<close> is its UTF-8 bytes; here a \<open>string\<close> whose \<open>char\<close>s are those bytes.  Comparison
  of strings is comparison of the bytes, which is what the order on \<open>string\<close> does.
\<close>

definition byte_of_char :: "char \<Rightarrow> u8" where
  "byte_of_char c = word_of_nat (of_char c)"

definition char_of_byte :: "u8 \<Rightarrow> char" where
  "char_of_byte b = char_of (unat b)"

definition as_bytes :: "string \<Rightarrow> bytes" where
  "as_bytes s = map byte_of_char s"

definition string_of_bytes :: "bytes \<Rightarrow> string" where
  "string_of_bytes bs = map char_of_byte bs"

lemma of_char_less_256: "(of_char c :: nat) < 256"
  by (metis char_of_char of_char_of mod_less_divisor zero_less_numeral)

lemma char_of_byte_of_char [simp]: "char_of_byte (byte_of_char c) = c"
  using of_char_less_256 [of c] by (simp add: char_of_byte_def byte_of_char_def)

lemma byte_of_char_of_byte [simp]: "byte_of_char (char_of_byte b) = b"
proof -
  have "unat b < 256" by simp
  then show ?thesis by (simp add: char_of_byte_def byte_of_char_def)
qed

lemma byte_of_char_inject [simp]: "byte_of_char a = byte_of_char b \<longleftrightarrow> a = b"
  by (metis char_of_byte_of_char)

lemma string_of_as_bytes [simp]: "string_of_bytes (as_bytes s) = s"
  by (simp add: as_bytes_def string_of_bytes_def o_def)

lemma as_bytes_string_of [simp]: "as_bytes (string_of_bytes bs) = bs"
  by (simp add: as_bytes_def string_of_bytes_def o_def)

lemma as_bytes_inject [simp]: "as_bytes s = as_bytes t \<longleftrightarrow> s = t"
  by (metis string_of_as_bytes)

lemma length_as_bytes [simp]: "length (as_bytes s) = length s"
  by (simp add: as_bytes_def)

lemma as_bytes_append [simp]: "as_bytes (s @ t) = as_bytes s @ as_bytes t"
  by (simp add: as_bytes_def)

lemma as_bytes_Nil [simp]: "as_bytes [] = []"
  by (simp add: as_bytes_def)

lemma as_bytes_Cons [simp]: "as_bytes (c # s) = byte_of_char c # as_bytes s"
  by (simp add: as_bytes_def)

text \<open>
  Well-formed UTF-8, as \<open>std::str::from_utf8\<close> checks it: no overlong forms, no surrogates,
  nothing above U+10FFFF.
\<close>

definition is_cont :: "u8 \<Rightarrow> bool" where
  "is_cont b \<longleftrightarrow> 0x80 \<le> b \<and> b \<le> 0xBF"

text \<open>The bytes after the character that starts with \<open>b\<close>, if it is well formed.\<close>

definition utf8_rest :: "u8 \<Rightarrow> bytes \<Rightarrow> bytes option" where
  "utf8_rest b bs =
     (if b < 0x80 then Some bs
      else if 0xC2 \<le> b \<and> b \<le> 0xDF then
        (case bs of c # cs \<Rightarrow> if is_cont c then Some cs else None | _ \<Rightarrow> None)
      else if 0xE0 \<le> b \<and> b \<le> 0xEF then
        (case bs of c # d # cs \<Rightarrow>
           if is_cont c \<and> (b = 0xE0 \<longrightarrow> 0xA0 \<le> c) \<and> (b = 0xED \<longrightarrow> c \<le> 0x9F) \<and> is_cont d
           then Some cs else None
         | _ \<Rightarrow> None)
      else if 0xF0 \<le> b \<and> b \<le> 0xF4 then
        (case bs of c # d # e # cs \<Rightarrow>
           if is_cont c \<and> (b = 0xF0 \<longrightarrow> 0x90 \<le> c) \<and> (b = 0xF4 \<longrightarrow> c \<le> 0x8F)
              \<and> is_cont d \<and> is_cont e
           then Some cs else None
         | _ \<Rightarrow> None)
      else None)"

lemma utf8_rest_le: "utf8_rest b bs = Some r \<Longrightarrow> length r \<le> length bs"
  by (auto simp: utf8_rest_def split: if_splits list.splits)

function valid_utf8 :: "bytes \<Rightarrow> bool" where
  "valid_utf8 [] = True"
| "valid_utf8 (b # bs) = (case utf8_rest b bs of None \<Rightarrow> False | Some r \<Rightarrow> valid_utf8 r)"
  by pat_completeness auto
termination
  by (relation "measure length") (auto dest: utf8_rest_le)

definition from_utf8 :: "bytes \<Rightarrow> string option" where
  "from_utf8 bs = (if valid_utf8 bs then Some (string_of_bytes bs) else None)"

text \<open>The invariant of the type \<open>String\<close>.\<close>

definition utf8_string :: "string \<Rightarrow> bool" where
  "utf8_string s = valid_utf8 (as_bytes s)"

lemma from_utf8_as_bytes [simp]: "utf8_string s \<Longrightarrow> from_utf8 (as_bytes s) = Some s"
  by (simp add: from_utf8_def utf8_string_def)

lemma from_utf8_Some_iff: "from_utf8 bs = Some s \<longleftrightarrow> utf8_string s \<and> bs = as_bytes s"
  by (auto simp: from_utf8_def utf8_string_def)

lemma utf8_string_Nil [simp]: "utf8_string []"
  by (simp add: utf8_string_def)

lemma utf8_string_ascii:
  "list_all (\<lambda>c. (of_char c :: nat) < 128) s \<Longrightarrow> utf8_string s"
proof (induction s)
  case (Cons c s)
  have "byte_of_char c < 0x80"
    using Cons.prems by (simp add: byte_of_char_def word_less_nat_alt)
  with Cons show ?case by (simp add: utf8_string_def utf8_rest_def)
qed simp

lemma utf8_rest_append: "utf8_rest b bs = Some r \<Longrightarrow> utf8_rest b (bs @ q) = Some (r @ q)"
  by (auto simp: utf8_rest_def split: if_splits list.splits)

lemma valid_utf8_append: "valid_utf8 a \<Longrightarrow> valid_utf8 b \<Longrightarrow> valid_utf8 (a @ b)"
  by (induction a rule: valid_utf8.induct) (auto simp: utf8_rest_append split: option.splits)

text \<open>An ASCII byte is never inside a multi-byte character.\<close>

lemma not_cont_ascii: "b < 0x80 \<Longrightarrow> \<not> is_cont b"
  by (simp add: is_cont_def not_le)

lemma utf8_rest_split:
  assumes "utf8_rest x (xs @ b # c) = Some r" and "\<not> is_cont b"
  shows "\<exists>r'. utf8_rest x xs = Some r' \<and> r = r' @ b # c"
proof (cases xs)
  case Nil
  then show ?thesis using assms by (auto simp: utf8_rest_def split: if_splits list.splits)
next
  case (Cons y ys)
  then show ?thesis
    using assms
    by (cases ys; cases "tl ys") (auto simp: utf8_rest_def split: if_splits list.splits)
qed

lemma valid_utf8_split:
  "valid_utf8 (a @ b # c) \<Longrightarrow> b < 0x80 \<Longrightarrow> valid_utf8 a \<and> valid_utf8 c"
proof (induction a rule: valid_utf8.induct)
  case (2 x xs)
  from 2(2) obtain r where r: "utf8_rest x (xs @ b # c) = Some r" "valid_utf8 r"
    by (auto split: option.splits)
  then obtain r' where "utf8_rest x xs = Some r'" "r = r' @ b # c"
    using utf8_rest_split not_cont_ascii 2(3) by metis
  with 2 r show ?case by auto
qed (simp add: utf8_rest_def)

subsection \<open>Number formatting\<close>

definition digit_char :: "nat \<Rightarrow> char" where
  "digit_char d = char_of (if d < 10 then 48 + d else 87 + d)"

fun show_nat_base :: "nat \<Rightarrow> nat \<Rightarrow> string" where
  "show_nat_base b n =
     (if b < 2 \<or> n < b then [digit_char n]
      else show_nat_base b (n div b) @ [digit_char (n mod b)])"

declare show_nat_base.simps [simp del]

definition show_nat :: "nat \<Rightarrow> string" where
  "show_nat n = show_nat_base 10 n"

definition show_int :: "int \<Rightarrow> string" where
  "show_int i = (if i < 0 then CHR ''-'' # show_nat (nat (- i)) else show_nat (nat i))"

text \<open>\<open>{:02x}\<close> on a byte.\<close>

definition show_hex02 :: "u8 \<Rightarrow> string" where
  "show_hex02 b = [digit_char (unat b div 16), digit_char (unat b mod 16)]"

end
