(* ===== verification/BTree_Map.thy ===== *)
theory BTree_Map
  imports Prelude
begin

text \<open>
  \<open>std::collections::BTreeMap\<close> as the sources use it: an association list in strictly ascending
  key order, which is also its iteration order.  \<open>bt_get\<close>, \<open>bt_insert\<close> and \<open>bt_remove\<close> are the
  methods of the same name, \<open>bt_range_from\<close> is \<open>range(key..)\<close>, and \<open>bt_scan\<close> the loop over a
  range that stops at the first key without the prefix.  The locale \<open>ordered_map\<close> states what the
  clients rely on; its lemmas give the uniqueness of the representation and the effect of a
  sequence of updates.
\<close>

type_synonym ('k, 'v) btree = "('k \<times> 'v) list"

abbreviation bt_sorted :: "('k::linorder, 'v) btree \<Rightarrow> bool" where
  "bt_sorted m \<equiv> sorted_wrt (<) (map fst m)"

fun bt_insert :: "'k::linorder \<Rightarrow> 'v \<Rightarrow> ('k, 'v) btree \<Rightarrow> ('k, 'v) btree" where
  "bt_insert k v [] = [(k, v)]"
| "bt_insert k v ((a, b) # m) =
     (if k < a then (k, v) # (a, b) # m
      else if k = a then (k, v) # m
      else (a, b) # bt_insert k v m)"

fun bt_remove :: "'k::linorder \<Rightarrow> ('k, 'v) btree \<Rightarrow> ('k, 'v) btree" where
  "bt_remove k [] = []"
| "bt_remove k ((a, b) # m) = (if k = a then m else (a, b) # bt_remove k m)"

definition bt_get :: "('k, 'v) btree \<Rightarrow> 'k \<Rightarrow> 'v option" where
  "bt_get m k = map_of m k"

definition bt_range_from :: "'k::linorder \<Rightarrow> ('k, 'v) btree \<Rightarrow> ('k, 'v) btree" where
  "bt_range_from lo m = filter (\<lambda>(k, v). lo \<le> k) m"

definition starts_with :: "'a list \<Rightarrow> 'a list \<Rightarrow> bool" where
  "starts_with xs pre \<longleftrightarrow> take (length pre) xs = pre"

definition bt_scan :: "('a::linorder) list \<Rightarrow> ('a list, 'v) btree \<Rightarrow> ('a list, 'v) btree" where
  "bt_scan pre m = takeWhile (\<lambda>(k, v). starts_with k pre) (bt_range_from pre m)"

section \<open>Laws of the operations\<close>

lemma bt_get_Nil [simp]: "bt_get [] k = None"
  by (simp add: bt_get_def)

lemma bt_get_insert: "bt_get (bt_insert k v m) = (bt_get m)(k \<mapsto> v)"
  by (induction m) (auto simp: bt_get_def fun_eq_iff)

lemma keys_bt_insert: "fst ` set (bt_insert k v m) = insert k (fst ` set m)"
  by (induction k v m rule: bt_insert.induct) auto

lemma keys_bt_remove: "fst ` set (bt_remove k m) \<subseteq> fst ` set m"
  by (induction k m rule: bt_remove.induct) auto

lemma length_bt_insert: "length (bt_insert k v m) \<le> Suc (length m)"
  by (induction k v m rule: bt_insert.induct) auto

lemma set_bt_insert: "set (bt_insert k v m) \<subseteq> insert (k, v) (set m)"
  by (induction k v m rule: bt_insert.induct) auto

lemma bt_sorted_insert: "bt_sorted m \<Longrightarrow> bt_sorted (bt_insert k v m)"
proof (induction m)
  case (Cons p m)
  obtain a b where p: "p = (a, b)" by fastforce
  have "\<forall>x \<in> fst ` set (bt_insert k v m). a < x" if "a < k"
    using Cons.prems that p by (auto simp: keys_bt_insert)
  with Cons p show ?case by fastforce
qed simp

lemma bt_sorted_remove: "bt_sorted m \<Longrightarrow> bt_sorted (bt_remove k m)"
proof (induction m)
  case (Cons p m)
  obtain a b where p: "p = (a, b)" by fastforce
  with Cons keys_bt_remove [of k m] show ?case by fastforce
qed simp

lemma bt_get_remove:
  assumes "bt_sorted m"
  shows "bt_get (bt_remove k m) = (bt_get m)(k := None)"
  using assms
proof (induction m)
  case (Cons p m)
  obtain a b where p: "p = (a, b)" by fastforce
  have "map_of m a = None" using Cons.prems p by (auto simp: map_of_eq_None_iff)
  with Cons p show ?case by (auto simp: bt_get_def fun_eq_iff)
qed (simp add: bt_get_def fun_eq_iff)

lemma bt_sorted_distinct: "bt_sorted m \<Longrightarrow> distinct (map fst m)"
  by (simp add: strict_sorted_iff)

lemma bt_get_iff: "bt_sorted m \<Longrightarrow> bt_get m k = Some v \<longleftrightarrow> (k, v) \<in> set m"
  by (simp add: bt_get_def bt_sorted_distinct)

lemma bt_get_None_iff: "bt_get m k = None \<longleftrightarrow> k \<notin> fst ` set m"
  by (simp add: bt_get_def map_of_eq_None_iff)

lemma bt_eqI:
  assumes "bt_sorted m" "bt_sorted m'" "bt_get m = bt_get m'"
  shows "m = m'"
proof (rule map_sorted_distinct_set_unique [of fst])
  have "(k, v) \<in> set m \<longleftrightarrow> (k, v) \<in> set m'" for k v
    using assms bt_get_iff by metis
  then show s: "set m = set m'" by auto
  show "inj_on fst (set m \<union> set m')"
    using bt_sorted_distinct [OF assms(1)] s by (simp add: distinct_map)
qed (use assms in \<open>simp_all add: strict_sorted_iff distinct_map\<close>)

section \<open>The ordered-map interface\<close>

locale ordered_map =
  fixes empty :: "'m"
    and get :: "'m \<Rightarrow> 'k \<Rightarrow> 'v option"
    and ins :: "'k \<Rightarrow> 'v \<Rightarrow> 'm \<Rightarrow> 'm"
    and rem :: "'k \<Rightarrow> 'm \<Rightarrow> 'm"
    and invar :: "'m \<Rightarrow> bool"
  assumes get_empty: "get empty k = None"
    and get_ins: "invar m \<Longrightarrow> get (ins k v m) = (get m)(k \<mapsto> v)"
    and get_rem: "invar m \<Longrightarrow> get (rem k m) = (get m)(k := None)"
    and invar_empty: "invar empty"
    and invar_ins: "invar m \<Longrightarrow> invar (ins k v m)"
    and invar_rem: "invar m \<Longrightarrow> invar (rem k m)"
    and ext_eq: "invar m \<Longrightarrow> invar m' \<Longrightarrow> get m = get m' \<Longrightarrow> m = m'"
begin

lemma ins_same: "invar m \<Longrightarrow> get m k = Some v \<Longrightarrow> ins k v m = m"
  by (rule ext_eq) (auto simp: invar_ins get_ins fun_eq_iff)

lemma ins_twice: "invar m \<Longrightarrow> ins k v (ins k u m) = ins k v m"
  by (rule ext_eq) (auto simp: invar_ins get_ins fun_eq_iff)

lemma ins_commute: "invar m \<Longrightarrow> j \<noteq> k \<Longrightarrow> ins j u (ins k v m) = ins k v (ins j u m)"
  by (rule ext_eq) (auto simp: invar_ins get_ins fun_eq_iff)

lemma rem_absent: "invar m \<Longrightarrow> get m k = None \<Longrightarrow> rem k m = m"
  by (rule ext_eq) (auto simp: invar_rem get_rem fun_eq_iff)

lemma rem_ins: "invar m \<Longrightarrow> rem k (ins k v m) = rem k m"
  by (rule ext_eq) (auto simp: invar_ins invar_rem get_ins get_rem fun_eq_iff)

lemma invar_fold_ins: "invar m \<Longrightarrow> invar (fold (\<lambda>(k, v). ins k v) ps m)"
  by (induction ps arbitrary: m) (auto simp: invar_ins)

lemma get_fold_ins: "invar m \<Longrightarrow> get (fold (\<lambda>(k, v). ins k v) ps m) = get m ++ map_of (rev ps)"
  by (induction ps arbitrary: m) (auto simp: invar_ins get_ins fun_eq_iff map_add_def split: option.splits)

end

interpretation bt: ordered_map "[]" bt_get bt_insert bt_remove bt_sorted
  by unfold_locales
    (auto simp: bt_get_insert bt_get_remove bt_sorted_insert bt_sorted_remove intro: bt_eqI)

lemmas bt_laws = bt_get_insert bt_get_remove bt_sorted_insert bt_sorted_remove

text \<open>Re-inserting the entries of a sorted map in order rebuilds it.\<close>

lemma map_of_rev_distinct: "distinct (map fst ps) \<Longrightarrow> map_of (rev ps) = map_of ps"
  by (metis map_of_inject_set distinct_rev rev_map set_rev)

lemma fold_bt_insert_rebuild:
  assumes "bt_sorted m"
  shows "fold (\<lambda>(k, v). bt_insert k v) m [] = m"
proof (rule bt_eqI)
  show "bt_get (fold (\<lambda>(k, v). bt_insert k v) m []) = bt_get m"
    using bt.get_fold_ins [of "[]" m] map_of_rev_distinct [OF bt_sorted_distinct [OF assms]]
    by (simp add: bt_get_def fun_eq_iff map_add_def split: option.splits)
qed (use assms bt.invar_fold_ins [of "[]" m] in auto)

section \<open>Prefix scans\<close>

lemma starts_with_iff: "starts_with xs pre \<longleftrightarrow> (\<exists>r. xs = pre @ r)"
  by (metis append_eq_conv_conj append_take_drop_id starts_with_def)

lemma starts_with_append [simp]: "starts_with (pre @ r) pre"
  by (simp add: starts_with_def)

lemma prefix_le: "(pre :: 'a::linorder list) \<le> pre @ r"
  by (induction pre) auto

text \<open>Between a prefix and an extension of it there are only extensions of it.\<close>

lemma prefix_convex:
  "(pre :: 'a::linorder list) \<le> k \<Longrightarrow> k \<le> pre @ r \<Longrightarrow> \<exists>r'. k = pre @ r'"
proof (induction pre arbitrary: k)
  case (Cons a pre)
  then obtain b k' where k: "k = b # k'" by (cases k) auto
  with Cons.prems have "a = b" and "pre \<le> k'" "k' \<le> pre @ r" by auto
  with Cons.IH k show ?case by auto
qed simp

lemma takeWhile_eq_filter_sorted:
  assumes "sorted_wrt R xs" and "\<And>x y. R x y \<Longrightarrow> P y \<Longrightarrow> P x"
  shows "takeWhile P xs = filter P xs"
  using assms(1)
proof (induction xs)
  case (Cons x xs)
  show ?case
  proof (cases "P x")
    case False
    with Cons.prems assms(2) have "\<forall>y \<in> set xs. \<not> P y" by auto
    with False show ?thesis by simp
  qed (use Cons in simp)
qed simp

text \<open>The early exit of the scan loop loses nothing: the scan is exactly the rows with the prefix.\<close>

lemma bt_scan_eq_filter:
  assumes "bt_sorted m"
  shows "bt_scan pre m = filter (\<lambda>(k, v). starts_with k pre) m"
proof -
  let ?P = "\<lambda>(k, v). starts_with k pre"
  have s: "sorted_wrt (\<lambda>p q. pre \<le> fst p \<and> fst p < fst q) (bt_range_from pre m)"
    using assms
    by (induction m) (auto simp: bt_range_from_def sorted_wrt_map)
  have "?P p" if "pre \<le> fst p \<and> fst p < fst q" "?P q" for p q
  proof -
    from that obtain r where "fst q = pre @ r" by (auto simp: starts_with_iff case_prod_beta)
    with that show ?thesis
      using prefix_convex [of pre "fst p" r] by (auto simp: starts_with_iff case_prod_beta)
  qed
  then have "bt_scan pre m = filter ?P (bt_range_from pre m)"
    unfolding bt_scan_def using s by (intro takeWhile_eq_filter_sorted) blast+
  also have "\<dots> = filter ?P m"
    unfolding bt_range_from_def filter_filter
    by (rule filter_cong) (auto simp: starts_with_iff prefix_le)
  finally show ?thesis .
qed

end
