(* ===== verification/Values.thy ===== *)
theory Values
  imports BTree_Map
begin

text \<open>
  The value algebra of \<open>crates/alefs-types/src/value.rs\<close>: scalars and nested structures, with the
  constructors of the source (\<open>IntV\<close> is \<open>Int\<close>, a reserved name here).  A \<open>BTreeMap\<close> is a sorted association list.  Floats are their
  IEEE-754 bit pattern, as the code stores them.  The derived order on \<open>Scalar\<close> (variant first,
  then payload; \<open>i64\<close> signed) makes scalars usable as tree keys.
\<close>

type_synonym f64 = u64 \<comment> \<open>the bit pattern of an \<open>f64\<close>: \<open>to_bits\<close> and \<open>from_bits\<close> are the identity\<close>

datatype Scalar =
    Null
  | Bool bool
  | IntV i64
  | Float u64
  | String string
  | Bytes bytes

datatype Value =
    Scalar Scalar
  | Hash "(string \<times> Value) list"
  | Set "Value list"
  | List "Value list"
  | Tree "(Scalar \<times> Value) list"

section \<open>Constructors and observers\<close>

definition from_f64 :: "f64 \<Rightarrow> Scalar" where
  "from_f64 f = Float f"

definition as_f64 :: "Scalar \<Rightarrow> f64 option" where
  "as_f64 s = (case s of Float bits \<Rightarrow> Some bits | _ \<Rightarrow> None)"

definition value_null :: Value where
  "value_null = Scalar Null"

definition value_bool :: "bool \<Rightarrow> Value" where
  "value_bool b = Scalar (Bool b)"

definition value_int :: "i64 \<Rightarrow> Value" where
  "value_int n = Scalar (IntV n)"

definition value_float :: "f64 \<Rightarrow> Value" where
  "value_float f = Scalar (from_f64 f)"

definition value_string :: "string \<Rightarrow> Value" where
  "value_string s = Scalar (String s)"

definition value_bytes :: "bytes \<Rightarrow> Value" where
  "value_bytes b = Scalar (Bytes b)"

lemmas value_ctor_defs =
  value_null_def value_bool_def value_int_def value_float_def value_string_def value_bytes_def
  from_f64_def

fun typename :: "Value \<Rightarrow> string" where
  "typename (Scalar Null) = ''null''"
| "typename (Scalar (Bool _)) = ''bool''"
| "typename (Scalar (IntV _)) = ''int''"
| "typename (Scalar (Float _)) = ''float''"
| "typename (Scalar (String _)) = ''string''"
| "typename (Scalar (Bytes _)) = ''bytes''"
| "typename (Hash _) = ''hash''"
| "typename (Set _) = ''set''"
| "typename (List _) = ''list''"
| "typename (Tree _) = ''tree''"

section \<open>The derived order on scalars\<close>

text \<open>
  \<open>#[derive(Ord)]\<close> compares the variant's position in the declaration, then the payloads:
  booleans \<open>false < true\<close>, \<open>i64\<close> signed, float bits unsigned, strings and byte strings
  lexicographically by byte.
\<close>

fun scalar_rank :: "Scalar \<Rightarrow> nat \<times> int \<times> bytes" where
  "scalar_rank Null = (0, 0, [])"
| "scalar_rank (Bool b) = (1, of_bool b, [])"
| "scalar_rank (IntV n) = (2, sint n, [])"
| "scalar_rank (Float w) = (3, uint w, [])"
| "scalar_rank (String s) = (4, 0, as_bytes s)"
| "scalar_rank (Bytes b) = (5, 0, b)"

lemma scalar_rank_inject: "scalar_rank a = scalar_rank b \<Longrightarrow> a = b"
  by (cases a; cases b) (auto intro: signed_word_eqI unsigned_word_eqI split: if_splits)

instantiation Scalar :: linorder
begin

definition less_eq_Scalar :: "Scalar \<Rightarrow> Scalar \<Rightarrow> bool" where
  "a \<le> b \<longleftrightarrow> scalar_rank a \<le> scalar_rank b"

definition less_Scalar :: "Scalar \<Rightarrow> Scalar \<Rightarrow> bool" where
  "a < b \<longleftrightarrow> scalar_rank a < scalar_rank b"

instance
  by intro_classes (auto simp: less_eq_Scalar_def less_Scalar_def intro: scalar_rank_inject)

end

lemma scalar_order_examples:
  "Null < Bool False" "Bool False < Bool True" "IntV (- 1) < IntV 0" "Float 7 < String []"
  by (simp_all add: less_Scalar_def)

section \<open>Well-formed values\<close>

text \<open>
  What the Rust types guarantee of every value: map keys are unique and in order and strings are
  UTF-8.  The bound on lengths is the range of the codec's \<open>u32\<close> length fields.
\<close>

fun wf_scalar :: "Scalar \<Rightarrow> bool" where
  "wf_scalar (String s) = (utf8_string s \<and> len_ok s)"
| "wf_scalar (Bytes b) = len_ok b"
| "wf_scalar _ = True"

fun wf_value :: "Value \<Rightarrow> bool" where
  "wf_value (Scalar s) = wf_scalar s"
| "wf_value (Hash m) =
     (bt_sorted m \<and> len_ok m \<and> (\<forall>(k, v) \<in> set m. utf8_string k \<and> len_ok k \<and> wf_value v))"
| "wf_value (Set ms) = (len_ok ms \<and> (\<forall>v \<in> set ms. wf_value v))"
| "wf_value (List vs) = (len_ok vs \<and> (\<forall>v \<in> set vs. wf_value v))"
| "wf_value (Tree m) =
     (bt_sorted m \<and> len_ok m \<and> (\<forall>(k, v) \<in> set m. wf_scalar k \<and> wf_value v))"

lemma typename_no_slash [simp]: "CHR ''/'' \<notin> set (typename v)"
  by (cases v rule: typename.cases) auto

lemma typename_not_directory [simp]: "typename v \<noteq> ''directory''"
  by (cases v rule: typename.cases) auto

lemma utf8_typename [simp]: "utf8_string (typename v)"
  by (cases v rule: typename.cases) (auto intro: utf8_string_ascii)

end
