(* ===== verification/Codec.thy ===== *)
theory Codec
  imports Values
begin

text \<open>
  The canonical binary encoding of \<open>crates/alefs-types/src/codec.rs\<close>.  Writers append to an output
  vector; here they return the bytes they append.  Readers take the cursor and return the cursor
  after the read, or the error.  \<open>decode_value\<close> recurses on the input, which every level shortens:
  its fuel is the length of the input, and running out of fuel coincides with running out of
  input, so the fuel never changes a result (\<open>decode_value_unfold\<close>).

  The round-trip theorems use \<open>canon\<close>, the value with every set sorted and deduplicated by
  payload, which is what the doc comment of \<open>Value::Set\<close> promises of stored sets.
\<close>

definition CODEC_VERSION :: u8 where "CODEC_VERSION = 1"

definition TAG_NULL :: u8 where "TAG_NULL = 0x00"
definition TAG_BOOL :: u8 where "TAG_BOOL = 0x01"
definition TAG_INT :: u8 where "TAG_INT = 0x02"
definition TAG_FLOAT :: u8 where "TAG_FLOAT = 0x03"
definition TAG_STRING :: u8 where "TAG_STRING = 0x04"
definition TAG_BYTES :: u8 where "TAG_BYTES = 0x05"
definition TAG_HASH :: u8 where "TAG_HASH = 0x10"
definition TAG_SET :: u8 where "TAG_SET = 0x11"
definition TAG_LIST :: u8 where "TAG_LIST = 0x12"
definition TAG_TREE :: u8 where "TAG_TREE = 0x13"

lemmas tag_defs = TAG_NULL_def TAG_BOOL_def TAG_INT_def TAG_FLOAT_def TAG_STRING_def
  TAG_BYTES_def TAG_HASH_def TAG_SET_def TAG_LIST_def TAG_TREE_def

datatype CodecError =
    EmptyInput
  | UnsupportedVersion u8
  | UnexpectedEof
  | UnknownTag u8
  | InvalidUtf8
  | InvalidBool u8
  | TrailingBytes
  | DuplicateSetMember

fun show_codec_error :: "CodecError \<Rightarrow> string" where
  "show_codec_error EmptyInput = ''empty input''"
| "show_codec_error (UnsupportedVersion v) = ''unsupported codec version '' @ show_nat (unat v)"
| "show_codec_error UnexpectedEof = ''unexpected end of input''"
| "show_codec_error (UnknownTag t) = ''unknown value tag 0x'' @ show_hex02 t"
| "show_codec_error InvalidUtf8 = ''invalid UTF-8 in string''"
| "show_codec_error (InvalidBool b) = ''invalid bool byte '' @ show_nat (unat b)"
| "show_codec_error TrailingBytes = ''trailing bytes after value''"
| "show_codec_error DuplicateSetMember = ''duplicate set member''"

section \<open>Encoding\<close>

definition write_u32 :: "u32 \<Rightarrow> bytes" where
  "write_u32 n = u32_to_le n"

definition write_str :: "string \<Rightarrow> bytes" where
  "write_str s = write_u32 (len_u32 (as_bytes s)) @ as_bytes s"

fun encode_scalar :: "Scalar \<Rightarrow> bytes" where
  "encode_scalar Null = [TAG_NULL]"
| "encode_scalar (Bool b) = [TAG_BOOL, of_bool b]"
| "encode_scalar (IntV n) = TAG_INT # u64_to_le n"
| "encode_scalar (Float bits) = TAG_FLOAT # u64_to_le bits"
| "encode_scalar (String s) = TAG_STRING # write_str s"
| "encode_scalar (Bytes b) = TAG_BYTES # write_u32 (len_u32 b) @ b"

text \<open>\<open>dedup_by\<close> with equality of the first components: keep the first of each run.\<close>

fun dedup_by_fst :: "('k \<times> 'v) list \<Rightarrow> ('k \<times> 'v) list" where
  "dedup_by_fst [] = []"
| "dedup_by_fst [p] = [p]"
| "dedup_by_fst (p # q # ps) =
     (if fst p = fst q then dedup_by_fst (p # ps) else p # dedup_by_fst (q # ps))"

definition sorted_unique :: "(bytes \<times> 'v) list \<Rightarrow> (bytes \<times> 'v) list" where
  "sorted_unique ps = dedup_by_fst (sort_key fst ps)"

fun encode_value :: "Value \<Rightarrow> bytes" where
  "encode_value (Scalar s) = encode_scalar s"
| "encode_value (Hash m) =
     TAG_HASH # write_u32 (len_u32 m) @ concat (map (\<lambda>(k, v). write_str k @ encode_value v) m)"
| "encode_value (Set members) =
     (let encoded = sorted_unique (map (\<lambda>m. (encode_value m, m)) members)
      in TAG_SET # write_u32 (len_u32 encoded) @ concat (map fst encoded))"
| "encode_value (List items) =
     TAG_LIST # write_u32 (len_u32 items) @ concat (map encode_value items)"
| "encode_value (Tree m) =
     TAG_TREE # write_u32 (len_u32 m) @ concat (map (\<lambda>(k, v). encode_scalar k @ encode_value v) m)"

definition encode_payload :: "Value \<Rightarrow> bytes" where
  "encode_payload v = encode_value v"

definition encode :: "Value \<Rightarrow> bytes" where
  "encode v = CODEC_VERSION # encode_value v"

section \<open>Decoding\<close>

definition read_u8 :: "bytes \<Rightarrow> CodecError + (u8 \<times> bytes)" where
  "read_u8 cur = (case cur of [] \<Rightarrow> Inl UnexpectedEof | b # rest \<Rightarrow> Inr (b, rest))"

definition read_slice :: "nat \<Rightarrow> bytes \<Rightarrow> CodecError + (bytes \<times> bytes)" where
  "read_slice len cur =
     (if length cur < len then Inl UnexpectedEof else Inr (take len cur, drop len cur))"

definition read_u32 :: "bytes \<Rightarrow> CodecError + (u32 \<times> bytes)" where
  "read_u32 cur = and_then (read_slice 4 cur) (\<lambda>(a, cur). Inr (u32_from_le a, cur))"

definition read_u64 :: "bytes \<Rightarrow> CodecError + (u64 \<times> bytes)" where
  "read_u64 cur = and_then (read_slice 8 cur) (\<lambda>(a, cur). Inr (u64_from_le a, cur))"

definition read_str :: "bytes \<Rightarrow> CodecError + (string \<times> bytes)" where
  "read_str cur =
     and_then (read_u32 cur) (\<lambda>(len, cur).
     and_then (read_slice (unat len) cur) (\<lambda>(bs, cur).
       case from_utf8 bs of None \<Rightarrow> Inl InvalidUtf8 | Some s \<Rightarrow> Inr (s, cur)))"

text \<open>\<open>decode_scalar_value\<close>, over the value decoder it calls.\<close>

definition decode_scalar_value ::
  "(bytes \<Rightarrow> CodecError + (Value \<times> bytes)) \<Rightarrow> bytes \<Rightarrow> CodecError + (Scalar \<times> bytes)" where
  "decode_scalar_value dec cur =
     and_then (dec cur) (\<lambda>(v, cur). case v of Scalar s \<Rightarrow> Inr (s, cur) | _ \<Rightarrow> Inl (UnknownTag 0xff))"

text \<open>The bodies of the four \<open>for _ in 0..n\<close> loops.\<close>

definition hash_body ::
  "(bytes \<Rightarrow> CodecError + (Value \<times> bytes)) \<Rightarrow> (string, Value) btree \<Rightarrow> bytes
   \<Rightarrow> CodecError + ((string, Value) btree \<times> bytes)" where
  "hash_body dec m cur =
     and_then (read_str cur) (\<lambda>(k, cur).
     and_then (dec cur) (\<lambda>(v, cur). Inr (bt_insert k v m, cur)))"

definition set_body ::
  "(bytes \<Rightarrow> CodecError + (Value \<times> bytes)) \<Rightarrow> bytes option \<times> Value list \<Rightarrow> bytes
   \<Rightarrow> CodecError + ((bytes option \<times> Value list) \<times> bytes)" where
  "set_body dec st cur =
     (case st of (last_payload, members) \<Rightarrow>
        and_then (dec cur) (\<lambda>(v, cur).
          let payload = encode_payload v in
          if (case last_payload of Some prev \<Rightarrow> payload \<le> prev | None \<Rightarrow> False)
          then Inl DuplicateSetMember
          else Inr ((Some payload, members @ [v]), cur)))"

definition list_body ::
  "(bytes \<Rightarrow> CodecError + (Value \<times> bytes)) \<Rightarrow> Value list \<Rightarrow> bytes \<Rightarrow> CodecError + (Value list \<times> bytes)" where
  "list_body dec items cur = and_then (dec cur) (\<lambda>(v, cur). Inr (items @ [v], cur))"

definition tree_body ::
  "(bytes \<Rightarrow> CodecError + (Value \<times> bytes)) \<Rightarrow> (Scalar, Value) btree \<Rightarrow> bytes
   \<Rightarrow> CodecError + ((Scalar, Value) btree \<times> bytes)" where
  "tree_body dec m cur =
     and_then (decode_scalar_value dec cur) (\<lambda>(k, cur).
     and_then (dec cur) (\<lambda>(v, cur). Inr (bt_insert k v m, cur)))"

text \<open>One level of \<open>decode_value\<close>, over the decoder for the nested values.\<close>

definition decode_step ::
  "(bytes \<Rightarrow> CodecError + (Value \<times> bytes)) \<Rightarrow> bytes \<Rightarrow> CodecError + (Value \<times> bytes)" where
  "decode_step dec cur =
     and_then (read_u8 cur) (\<lambda>(tag, cur).
       if tag = TAG_NULL then Inr (Scalar Null, cur)
       else if tag = TAG_BOOL then
         and_then (read_u8 cur) (\<lambda>(b, cur).
           if b = 0 then Inr (value_bool False, cur)
           else if b = 1 then Inr (value_bool True, cur)
           else Inl (InvalidBool b))
       else if tag = TAG_INT then
         and_then (read_u64 cur) (\<lambda>(n, cur). Inr (value_int n, cur))
       else if tag = TAG_FLOAT then
         and_then (read_u64 cur) (\<lambda>(bits, cur). Inr (Scalar (Float bits), cur))
       else if tag = TAG_STRING then
         and_then (read_str cur) (\<lambda>(s, cur). Inr (value_string s, cur))
       else if tag = TAG_BYTES then
         and_then (read_u32 cur) (\<lambda>(len, cur).
         and_then (read_slice (unat len) cur) (\<lambda>(data, cur). Inr (value_bytes data, cur)))
       else if tag = TAG_HASH then
         and_then (read_u32 cur) (\<lambda>(n, cur).
         and_then (for_n (unat n) (hash_body dec) [] cur) (\<lambda>(m, cur). Inr (Hash m, cur)))
       else if tag = TAG_SET then
         and_then (read_u32 cur) (\<lambda>(n, cur).
         and_then (for_n (unat n) (set_body dec) (None, []) cur)
           (\<lambda>((_, members), cur). Inr (Set members, cur)))
       else if tag = TAG_LIST then
         and_then (read_u32 cur) (\<lambda>(n, cur).
         and_then (for_n (unat n) (list_body dec) [] cur) (\<lambda>(items, cur). Inr (List items, cur)))
       else if tag = TAG_TREE then
         and_then (read_u32 cur) (\<lambda>(n, cur).
         and_then (for_n (unat n) (tree_body dec) [] cur) (\<lambda>(m, cur). Inr (Tree m, cur)))
       else Inl (UnknownTag tag))"

fun decode_fuel :: "nat \<Rightarrow> bytes \<Rightarrow> CodecError + (Value \<times> bytes)" where
  "decode_fuel 0 cur = Inl UnexpectedEof"
| "decode_fuel (Suc n) cur = decode_step (decode_fuel n) cur"

definition decode_value :: "bytes \<Rightarrow> CodecError + (Value \<times> bytes)" where
  "decode_value cur = decode_fuel (length cur) cur"

definition decode :: "bytes \<Rightarrow> CodecError + Value" where
  "decode bs =
     (case bs of
        [] \<Rightarrow> Inl EmptyInput
      | version # cur \<Rightarrow>
          if version \<noteq> CODEC_VERSION then Inl (UnsupportedVersion version)
          else and_then (decode_value cur) (\<lambda>(v, cur).
                 if cur \<noteq> [] then Inl TrailingBytes else Inr v))"

section \<open>Readers undo writers\<close>

lemma read_slice_append [simp, cursor_simps]:
  "n = length a \<Longrightarrow> read_slice n (a @ r) = Inr (a, r)"
  by (simp add: read_slice_def)

lemma read_u32_write [simp, cursor_simps]: "read_u32 (write_u32 n @ r) = Inr (n, r)"
  by (simp add: read_u32_def write_u32_def)

lemma read_u64_write [simp, cursor_simps]: "read_u64 (u64_to_le n @ r) = Inr (n, r)"
  by (simp add: read_u64_def)

lemma read_str_write [simp, cursor_simps]:
  "utf8_string s \<Longrightarrow> len_ok s \<Longrightarrow> read_str (write_str s @ r) = Inr (s, r)"
  by (simp add: read_str_def write_str_def len_ok_def)

lemma read_u8_Cons [simp, cursor_simps]: "read_u8 (b # r) = Inr (b, r)" "read_u8 [] = Inl UnexpectedEof"
  by (simp_all add: read_u8_def)

section \<open>Readers shorten the cursor\<close>

lemma read_u8_less: "read_u8 cur = Inr (x, c) \<Longrightarrow> length c < length cur"
  by (auto simp: read_u8_def split: list.splits)

lemma read_slice_le: "read_slice n cur = Inr (x, c) \<Longrightarrow> length c \<le> length cur"
  by (auto simp: read_slice_def split: if_splits)

lemma read_u32_le: "read_u32 cur = Inr (x, c) \<Longrightarrow> length c \<le> length cur"
  by (auto simp: read_u32_def and_then_Inr_iff dest: read_slice_le)

lemma read_u64_le: "read_u64 cur = Inr (x, c) \<Longrightarrow> length c \<le> length cur"
  by (auto simp: read_u64_def and_then_Inr_iff dest: read_slice_le)

lemma read_str_le: "read_str cur = Inr (x, c) \<Longrightarrow> length c \<le> length cur"
  by (fastforce simp: read_str_def and_then_Inr_iff split: option.splits dest: read_u32_le read_slice_le)

lemmas read_le = read_slice_le read_u32_le read_u64_le read_str_le

text \<open>A decoder for nested values that never lengthens the cursor.\<close>

definition shrinking :: "(bytes \<Rightarrow> CodecError + (Value \<times> bytes)) \<Rightarrow> bool" where
  "shrinking dec \<longleftrightarrow> (\<forall>cur v c. dec cur = Inr (v, c) \<longrightarrow> length c \<le> length cur)"

lemma shrinkingD: "shrinking dec \<Longrightarrow> dec cur = Inr (v, c) \<Longrightarrow> length c \<le> length cur"
  by (auto simp: shrinking_def)

lemma decode_scalar_value_le:
  "shrinking dec \<Longrightarrow> decode_scalar_value dec cur = Inr (s, c) \<Longrightarrow> length c \<le> length cur"
  by (auto simp: decode_scalar_value_def and_then_def split: sum.splits prod.splits Value.splits
      dest: shrinkingD)

lemma hash_body_le: "shrinking dec \<Longrightarrow> hash_body dec m cur = Inr (m', c) \<Longrightarrow> length c \<le> length cur"
  by (fastforce simp: hash_body_def and_then_Inr_iff dest: shrinkingD read_str_le)

lemma set_body_le: "shrinking dec \<Longrightarrow> set_body dec st cur = Inr (st', c) \<Longrightarrow> length c \<le> length cur"
  by (auto simp: set_body_def Let_def and_then_Inr_iff split: prod.splits if_splits dest: shrinkingD)

lemma list_body_le: "shrinking dec \<Longrightarrow> list_body dec vs cur = Inr (vs', c) \<Longrightarrow> length c \<le> length cur"
  by (auto simp: list_body_def and_then_Inr_iff dest: shrinkingD)

lemma tree_body_le: "shrinking dec \<Longrightarrow> tree_body dec m cur = Inr (m', c) \<Longrightarrow> length c \<le> length cur"
  by (auto simp: tree_body_def and_then_Inr_iff)
    (meson decode_scalar_value_le shrinkingD le_trans)

lemmas body_le = hash_body_le set_body_le list_body_le tree_body_le

lemma loop_le:
  assumes "shrinking dec"
  shows "for_n n (hash_body dec) m cur = Inr (m', c) \<Longrightarrow> length c \<le> length cur"
    and "for_n n (set_body dec) st cur = Inr (st', c) \<Longrightarrow> length c \<le> length cur"
    and "for_n n (list_body dec) vs cur = Inr (vs', c) \<Longrightarrow> length c \<le> length cur"
    and "for_n n (tree_body dec) t cur = Inr (t', c) \<Longrightarrow> length c \<le> length cur"
  using for_n_cursor_le [of "hash_body dec"] for_n_cursor_le [of "set_body dec"]
    for_n_cursor_le [of "list_body dec"] for_n_cursor_le [of "tree_body dec"] body_le [OF assms]
  by blast+

lemma decode_step_less:
  assumes "shrinking dec" and "decode_step dec cur = Inr (v, c)"
  shows "length c < length cur"
proof -
  from assms(2) obtain tag cur' where t: "cur = tag # cur'"
    by (cases cur) (auto simp: decode_step_def)
  have "length c \<le> length cur'"
    using assms(2) unfolding t decode_step_def
    by (auto simp: and_then_Inr_iff split: if_splits
        dest!: read_u8_less loop_le [OF assms(1)] read_le)
  with t show ?thesis by simp
qed

lemma shrinking_fuel: "shrinking (decode_fuel n)"
proof (induction n)
  case (Suc n)
  then show ?case
    by (auto simp: shrinking_def intro!: less_imp_le dest: decode_step_less [OF Suc])
qed (simp add: shrinking_def)

section \<open>The fuel is enough\<close>

text \<open>One level consults the nested decoder only on shorter cursors.\<close>

lemma decode_step_cong:
  assumes eq: "\<And>c. length c < length cur \<Longrightarrow> dec c = dec' c" and sh: "shrinking dec"
  shows "decode_step dec cur = decode_step dec' cur"
proof (cases cur)
  case (Cons tag cur')
  have e: "dec c = dec' c" if "length c \<le> length cur'" for c
    using eq that Cons by simp
  have scalar: "decode_scalar_value dec c = decode_scalar_value dec' c" if "length c \<le> length cur'" for c
    using e that by (simp add: decode_scalar_value_def)
  have scalar_le: "length b \<le> length cur'"
    if "length c \<le> length cur'" "decode_scalar_value dec' c = Inr (s, b)" for c s b
    using decode_scalar_value_le [OF sh, of c s b] scalar that by simp
  have bodies:
    "hash_body dec m c = hash_body dec' m c" "set_body dec st c = set_body dec' st c"
    "list_body dec vs c = list_body dec' vs c" "tree_body dec t c = tree_body dec' t c"
    if "length c \<le> length cur'" for m st vs t c
    using that e scalar
    by (auto simp: hash_body_def set_body_def list_body_def tree_body_def
        intro!: and_then_cong dest!: read_str_le scalar_le [rotated])
  have loops:
    "for_n n (hash_body dec) m c = for_n n (hash_body dec') m c"
    "for_n n (set_body dec) st c = for_n n (set_body dec') st c"
    "for_n n (list_body dec) vs c = for_n n (list_body dec') vs c"
    "for_n n (tree_body dec) t c = for_n n (tree_body dec') t c"
    if "length c \<le> length cur'" for n m st vs t c
    using that bodies body_le [OF sh]
    by (auto intro!: for_n_cong_cursor)
  show ?thesis
    unfolding Cons decode_step_def
    by (auto simp: loops dest!: read_u32_le intro!: and_then_cong)
qed (simp add: decode_step_def)

lemma decode_fuel_enough: "length cur \<le> m \<Longrightarrow> length cur \<le> n \<Longrightarrow> decode_fuel m cur = decode_fuel n cur"
proof (induction m arbitrary: n cur)
  case 0
  then show ?case by (cases n) (auto simp: decode_step_def)
next
  case (Suc m)
  show ?case
  proof (cases n)
    case 0
    with Suc.prems show ?thesis by (simp add: decode_step_def)
  next
    case (Suc k)
    have "decode_step (decode_fuel m) cur = decode_step (decode_fuel k) cur"
      using Suc.prems Suc by (intro decode_step_cong shrinking_fuel Suc.IH) auto
    with Suc show ?thesis by simp
  qed
qed

lemma decode_value_step: "decode_value cur = decode_step decode_value cur"
proof (cases cur)
  case (Cons b cur')
  have "decode_step (decode_fuel (length cur')) cur = decode_step decode_value cur"
    using Cons by (intro decode_step_cong shrinking_fuel)
      (auto simp: decode_value_def intro: decode_fuel_enough)
  with Cons show ?thesis by (simp add: decode_value_def)
qed (simp add: decode_value_def decode_step_def)

lemma shrinking_decode_value: "shrinking decode_value"
  using shrinking_fuel by (auto simp: shrinking_def decode_value_def)

lemma decode_value_less: "decode_value cur = Inr (v, c) \<Longrightarrow> length c < length cur"
  using decode_step_less [OF shrinking_decode_value] decode_value_step by metis

section \<open>Sorting and deduplicating by payload\<close>

lemma map_fst_dedup_by_fst: "map fst (dedup_by_fst ps) = remdups_adj (map fst ps)"
proof (induction ps rule: dedup_by_fst.induct)
  case (3 p q ps)
  then show ?case by (cases "fst p = fst q") auto
qed auto

lemma set_dedup_by_fst: "set (dedup_by_fst ps) \<subseteq> set ps"
  by (induction ps rule: dedup_by_fst.induct) auto

lemma dedup_by_fst_id: "sorted_wrt (<) (map fst ps :: 'k::linorder list) \<Longrightarrow> dedup_by_fst ps = ps"
  by (induction ps rule: dedup_by_fst.induct) auto

lemma map_fst_insort: "map fst (insort_key fst p ps) = insort (fst p) (map fst ps)"
  by (induction ps) auto

lemma map_fst_sort_key: "map fst (sort_key fst ps) = sort (map fst ps)"
  by (induction ps) (auto simp: map_fst_insort)

lemma strict_sorted_remdups_adj: "sorted xs \<Longrightarrow> sorted_wrt (<) (remdups_adj (xs :: 'k::linorder list))"
  by (induction xs rule: remdups_adj.induct) auto

lemma map_fst_sorted_unique: "map fst (sorted_unique ps) = remdups_adj (sort (map fst ps))"
  by (simp add: sorted_unique_def map_fst_dedup_by_fst map_fst_sort_key)

lemma sorted_unique_strict: "sorted_wrt (<) (map fst (sorted_unique ps))"
  by (simp add: map_fst_sorted_unique strict_sorted_remdups_adj)

lemma sorted_unique_subset: "set (sorted_unique ps) \<subseteq> set ps"
  using set_dedup_by_fst [of "sort_key fst ps"] by (simp add: sorted_unique_def)

lemma sorted_unique_keys: "fst ` set (sorted_unique ps) = fst ` set ps"
proof -
  have "set (map fst (sorted_unique ps)) = set (map fst ps)"
    by (simp only: map_fst_sorted_unique remdups_adj_set set_sort)
  then show ?thesis by simp
qed

lemma sort_key_id: "sorted (map fst ps) \<Longrightarrow> sort_key fst ps = ps"
  by (simp add: sort_key_id_if_sorted)

lemma sorted_unique_id: "sorted_wrt (<) (map fst ps) \<Longrightarrow> sorted_unique ps = ps"
  by (simp add: sorted_unique_def dedup_by_fst_id sort_key_id strict_sorted_imp_sorted)

lemma length_sorted_unique: "length (sorted_unique ps) \<le> length ps"
proof -
  have "length (sorted_unique ps) = length (remdups_adj (sort (map fst ps)))"
    using arg_cong [OF map_fst_sorted_unique, of length ps] by simp
  then show ?thesis using remdups_adj_length [of "sort (map fst ps)"] by simp
qed

section \<open>Canonical values\<close>

fun canon :: "Value \<Rightarrow> Value" where
  "canon (Scalar s) = Scalar s"
| "canon (Hash m) = Hash (map (\<lambda>(k, v). (k, canon v)) m)"
| "canon (Set ms) = Set (map snd (sorted_unique (map (\<lambda>m. (encode_value m, canon m)) ms)))"
| "canon (List vs) = List (map canon vs)"
| "canon (Tree m) = Tree (map (\<lambda>(k, v). (k, canon v)) m)"

fun canonical :: "Value \<Rightarrow> bool" where
  "canonical (Scalar s) = True"
| "canonical (Hash m) = (\<forall>(k, v) \<in> set m. canonical v)"
| "canonical (Set ms) = (sorted_wrt (<) (map encode_value ms) \<and> (\<forall>v \<in> set ms. canonical v))"
| "canonical (List vs) = (\<forall>v \<in> set vs. canonical v)"
| "canonical (Tree m) = (\<forall>(k, v) \<in> set m. canonical v)"

text \<open>Pairing each member of a set with its payload before or after a map on the members.\<close>

lemma sorted_unique_pairs:
  assumes "\<And>m. m \<in> set ms \<Longrightarrow> f (g m) = f m"
  shows "map (\<lambda>c. (f c, c)) (map snd (sorted_unique (map (\<lambda>m. (f m, g m)) ms)))
         = sorted_unique (map (\<lambda>m. (f m, g m)) ms)" (is "?L = ?S")
proof -
  have "\<forall>p \<in> set ?S. (f (snd p), snd p) = p"
    using sorted_unique_subset [of "map (\<lambda>m. (f m, g m)) ms"] assms by fastforce
  then show ?thesis by (simp add: map_idI)
qed

lemma encode_canon: "encode_value (canon v) = encode_value v"
proof (induction v rule: canon.induct)
  case (3 ms)
  let ?S = "sorted_unique (map (\<lambda>m. (encode_value m, canon m)) ms)"
  have pairs: "map (\<lambda>c. (encode_value c, c)) (map snd ?S) = ?S"
    using 3 by (intro sorted_unique_pairs) auto
  have S: "sorted_unique (map (\<lambda>c. (encode_value c, c)) (map snd ?S)) = ?S"
    by (simp only: pairs sorted_unique_id sorted_unique_strict)
  have fsts: "map fst ?S = map fst (sorted_unique (map (\<lambda>m. (encode_value m, m)) ms))"
    by (simp add: map_fst_sorted_unique o_def)
  have len: "length ?S = length (sorted_unique (map (\<lambda>m. (encode_value m, m)) ms))"
    using arg_cong [OF fsts, of length] by simp
  show ?case
    by (simp only: canon.simps encode_value.simps Let_def S fsts len_u32_def len)
qed (auto simp: len_u32_def o_def case_prod_beta intro!: arg_cong [of _ _ concat])

lemma canonical_canon: "canonical (canon v)"
proof (induction v rule: canon.induct)
  case (3 ms)
  let ?S = "sorted_unique (map (\<lambda>m. (encode_value m, canon m)) ms)"
  have "map encode_value (map snd ?S) = map fst ?S"
    using sorted_unique_subset [of "map (\<lambda>m. (encode_value m, canon m)) ms"]
    by (auto simp: encode_canon)
  moreover have "\<forall>v \<in> snd ` set ?S. canonical v"
    using 3 sorted_unique_subset [of "map (\<lambda>m. (encode_value m, canon m)) ms"] by fastforce
  ultimately show ?case
    using sorted_unique_strict by (simp only: canon.simps canonical.simps set_map) blast
qed auto

lemma canon_id: "canonical v \<Longrightarrow> canon v = v"
proof (induction v rule: canon.induct)
  case (3 ms)
  then have "map (\<lambda>m. (encode_value m, canon m)) ms = map (\<lambda>m. (encode_value m, m)) ms"
    by simp
  moreover have "sorted_unique (map (\<lambda>m. (encode_value m, m)) ms) = map (\<lambda>m. (encode_value m, m)) ms"
    using 3(2) by (intro sorted_unique_id) (simp add: o_def)
  ultimately have "sorted_unique (map (\<lambda>m. (encode_value m, canon m)) ms)
      = map (\<lambda>m. (encode_value m, m)) ms"
    by (simp only:)
  then show ?case by (simp add: o_def)
qed (auto intro!: map_idI)

lemma wf_canon: "wf_value v \<Longrightarrow> wf_value (canon v)"
proof (induction v rule: canon.induct)
  case (3 ms)
  let ?S = "sorted_unique (map (\<lambda>m. (encode_value m, canon m)) ms)"
  have "length ?S \<le> length ms"
    using length_sorted_unique [of "map (\<lambda>m. (encode_value m, canon m)) ms"] by simp
  moreover have "\<forall>v \<in> snd ` set ?S. wf_value v"
    using 3 sorted_unique_subset [of "map (\<lambda>m. (encode_value m, canon m)) ms"] by fastforce
  ultimately show ?case using 3(2) by (simp add: len_ok_def)
qed (auto simp: len_ok_def o_def case_prod_beta)

lemma typename_canon [simp]: "typename (canon v) = typename v"
proof (cases v)
  case (Scalar s)
  then show ?thesis by (cases s) auto
qed auto

section \<open>Round trip\<close>

lemma decode_scalar_step [cursor_simps]:
  "wf_scalar s \<Longrightarrow> decode_step dec (encode_scalar s @ r) = Inr (Scalar s, r)"
  by (cases s) (simp_all add: decode_step_def tag_defs value_ctor_defs len_ok_def)

lemma decode_value_scalar [cursor_simps]:
  "wf_scalar s \<Longrightarrow> decode_value (encode_scalar s @ r) = Inr (Scalar s, r)"
  using decode_value_step decode_scalar_step by metis

lemma set_loop:
  assumes "sorted_wrt (<) (map fst S)"
    and "\<And>p c r. (p, c) \<in> set S \<Longrightarrow> encode_value c = p \<and> decode_value (p @ r) = Inr (c, r)"
    and "\<And>q p. lp = Some q \<Longrightarrow> p \<in> fst ` set S \<Longrightarrow> q < p"
  shows "\<exists>lp'. for_n (length S) (set_body decode_value) (lp, ms) (concat (map fst S) @ r)
               = Inr ((lp', ms @ map snd S), r)"
  using assms
proof (induction S arbitrary: lp ms)
  case (Cons pc S)
  obtain p c where pc: "pc = (p, c)" by fastforce
  have c: "encode_payload c = p" "decode_value (p @ concat (map fst S) @ r) = Inr (c, concat (map fst S) @ r)"
    using Cons.prems(2) [of p c "concat (map fst S) @ r"] pc by (auto simp: encode_payload_def)
  have "\<not> (case lp of Some prev \<Rightarrow> p \<le> prev | None \<Rightarrow> False)"
    using Cons.prems(3) [of _ p] pc by (auto split: option.splits simp: not_le)
  then have step: "set_body decode_value (lp, ms) (p @ concat (map fst S) @ r)
      = Inr ((Some p, ms @ [c]), concat (map fst S) @ r)"
    using c by (auto simp: set_body_def Let_def split: option.splits)
  obtain lp' where "for_n (length S) (set_body decode_value) (Some p, ms @ [c]) (concat (map fst S) @ r)
      = Inr ((lp', (ms @ [c]) @ map snd S), r)"
    using Cons.IH [of "Some p" "ms @ [c]"] Cons.prems(1,2) pc by fastforce
  with step pc show ?case by simp
qed auto

lemma decode_encode_value: "wf_value v \<Longrightarrow> decode_value (encode_value v @ r) = Inr (canon v, r)"
proof (induction v arbitrary: r rule: canon.induct)
  case (1 s)
  then show ?case by (simp add: cursor_simps)
next
  case (2 m)
  let ?m = "map (\<lambda>(k, v). (k, canon v)) m"
  have "for_n (length m) (hash_body decode_value) []
          (concat (map (\<lambda>(k, v). write_str k @ encode_value v) m) @ r)
        = Inr (fold (\<lambda>(k, v). bt_insert k (canon v)) m [], r)"
    using 2 by (intro for_n_fold) (auto simp: hash_body_def)
  also have "fold (\<lambda>(k, v). bt_insert k (canon v)) m [] = fold (\<lambda>(k, v). bt_insert k v) ?m []"
    by (simp add: fold_map o_def case_prod_unfold)
  also have "\<dots> = ?m"
    using 2(2) by (intro fold_bt_insert_rebuild) (simp add: o_def case_prod_beta)
  finally show ?case
    using 2(2) by (subst decode_value_step) (simp add: decode_step_def tag_defs len_ok_def)
next
  case (3 ms)
  let ?S = "sorted_unique (map (\<lambda>m. (encode_value m, canon m)) ms)"
  let ?E = "sorted_unique (map (\<lambda>m. (encode_value m, m)) ms)"
  have fsts: "map fst ?E = map fst ?S"
    by (simp add: map_fst_sorted_unique o_def)
  have len: "length ?E = length ?S"
    using arg_cong [OF fsts, of length] by simp
  have S: "\<exists>m \<in> set ms. p = encode_value m \<and> c = canon m" if "(p, c) \<in> set ?S" for p c
    using that sorted_unique_subset [of "map (\<lambda>m. (encode_value m, canon m)) ms"] by auto
  obtain lp' where "for_n (length ?S) (set_body decode_value) (None, []) (concat (map fst ?S) @ r)
      = Inr ((lp', map snd ?S), r)"
    using set_loop [of ?S None "[]" r] sorted_unique_strict S 3 encode_canon by fastforce
  moreover have "length ?S < 2 ^ 32"
    using 3(2) length_sorted_unique [of "map (\<lambda>m. (encode_value m, canon m)) ms"]
    by (simp add: len_ok_def)
  ultimately show ?case
    using fsts len
    by (subst decode_value_step) (simp add: decode_step_def tag_defs Let_def len_u32_def unat_of_nat)
next
  case (4 vs)
  have "for_n (length vs) (list_body decode_value) [] (concat (map encode_value vs) @ r)
        = Inr (fold (\<lambda>v vs. vs @ [canon v]) vs [], r)"
    using 4 by (intro for_n_fold) (auto simp: list_body_def)
  also have "fold (\<lambda>v vs. vs @ [canon v]) vs [] = map canon vs"
    by (induction vs rule: rev_induct) auto
  finally show ?case
    using 4(2) by (subst decode_value_step) (simp add: decode_step_def tag_defs len_ok_def)
next
  case (5 m)
  let ?m = "map (\<lambda>(k, v). (k, canon v)) m"
  have "for_n (length m) (tree_body decode_value) []
          (concat (map (\<lambda>(k, v). encode_scalar k @ encode_value v) m) @ r)
        = Inr (fold (\<lambda>(k, v). bt_insert k (canon v)) m [], r)"
    using 5 by (intro for_n_fold) (auto simp: tree_body_def decode_scalar_value_def decode_value_scalar)
  also have "fold (\<lambda>(k, v). bt_insert k (canon v)) m [] = fold (\<lambda>(k, v). bt_insert k v) ?m []"
    by (simp add: fold_map o_def case_prod_unfold)
  also have "\<dots> = ?m"
    using 5(2) by (intro fold_bt_insert_rebuild) (simp add: o_def case_prod_beta)
  finally show ?case
    using 5(2) by (subst decode_value_step) (simp add: decode_step_def tag_defs len_ok_def)
qed

lemma decode_encode_canon: "wf_value v \<Longrightarrow> decode (encode v) = Inr (canon v)"
  using decode_encode_value [of v "[]"] by (simp add: decode_def encode_def)

section \<open>Decoding produces canonical, well-formed values\<close>

lemma read_u32_bound: "read_u32 cur = Inr (n, c) \<Longrightarrow> unat n < 2 ^ 32"
  using unat_u32_less [of n] by simp

lemma read_slice_len: "read_slice n cur = Inr (x, c) \<Longrightarrow> length x = n"
  by (auto simp: read_slice_def split: if_splits)

lemma read_str_wf:
  assumes "read_str cur = Inr (s, c)"
  shows "utf8_string s \<and> len_ok s"
proof -
  from assms obtain n c1 bs where
    "read_u32 cur = Inr (n, c1)" "read_slice (unat n) c1 = Inr (bs, c)" "from_utf8 bs = Some s"
    by (auto simp: read_str_def and_then_Inr_iff split: option.splits)
  then show ?thesis
    using read_u32_bound read_slice_len by (fastforce simp: from_utf8_Some_iff len_ok_def)
qed

abbreviation good_value :: "Value \<Rightarrow> bool" where
  "good_value v \<equiv> wf_value v \<and> canonical v"

text \<open>
  The four loops, over a nested decoder that yields good values on cursors of at most \<open>b\<close> bytes.
\<close>

definition good_upto :: "nat \<Rightarrow> (bytes \<Rightarrow> CodecError + (Value \<times> bytes)) \<Rightarrow> bool" where
  "good_upto b dec \<longleftrightarrow>
     shrinking dec \<and> (\<forall>c v c'. length c \<le> b \<longrightarrow> dec c = Inr (v, c') \<longrightarrow> good_value v)"

lemma good_uptoD: "good_upto b dec \<Longrightarrow> dec c = Inr (v, c') \<Longrightarrow> length c \<le> b \<Longrightarrow> good_value v"
  by (auto simp: good_upto_def)

lemma good_upto_shrinking: "good_upto b dec \<Longrightarrow> shrinking dec"
  by (simp add: good_upto_def)

lemma decode_scalar_value_good:
  "good_upto b dec \<Longrightarrow> decode_scalar_value dec c = Inr (s, c') \<Longrightarrow> length c \<le> b \<Longrightarrow> wf_scalar s"
  by (fastforce simp: decode_scalar_value_def and_then_def split: sum.splits prod.splits Value.splits
      dest: good_uptoD)

lemma len_ok_u32: "length xs \<le> unat (n :: u32) \<Longrightarrow> len_ok xs"
  using unat_u32_less [of n] by (simp add: len_ok_def del: unat_u32_less)

lemma hash_loop_good:
  assumes dec: "good_upto b dec"
    and loop: "for_n (unat (n :: u32)) (hash_body dec) [] d = Inr (m, d')" and d: "length d \<le> b"
  shows "good_value (Hash m)"
proof -
  let ?P = "\<lambda>i m c. length c \<le> b \<and> length m \<le> i \<and> bt_sorted m \<and>
    (\<forall>(k, v) \<in> set m. utf8_string k \<and> len_ok k \<and> good_value v)"
  have step: "?P (Suc j) a' c'" if P: "?P j a c" and body: "hash_body dec a c = Inr (a', c')" for j a c a' c'
  proof -
    from body obtain k c1 v where k: "read_str c = Inr (k, c1)" "dec c1 = Inr (v, c')"
      "a' = bt_insert k v a" by (auto simp: hash_body_def and_then_Inr_iff)
    have "good_value v" using good_uptoD [OF dec k(2)] read_str_le [OF k(1)] P by simp
    then show ?thesis
      using P k(3) read_str_wf [OF k(1)] hash_body_le [OF good_upto_shrinking [OF dec] body]
        length_bt_insert [of k v a] set_bt_insert [of k v a] bt_sorted_insert [of a k v]
      by fastforce
  qed
  have "?P (0 + unat n) m d'"
    by (rule for_n_rule [where P = ?P, OF loop _ step]) (use d in auto)
  then show ?thesis by (auto intro: len_ok_u32)
qed

lemma tree_loop_good:
  assumes dec: "good_upto b dec"
    and loop: "for_n (unat (n :: u32)) (tree_body dec) [] d = Inr (m, d')" and d: "length d \<le> b"
  shows "good_value (Tree m)"
proof -
  let ?P = "\<lambda>i m c. length c \<le> b \<and> length m \<le> i \<and> bt_sorted m \<and>
    (\<forall>(k, v) \<in> set m. wf_scalar k \<and> good_value v)"
  have step: "?P (Suc j) a' c'" if P: "?P j a c" and body: "tree_body dec a c = Inr (a', c')" for j a c a' c'
  proof -
    from body obtain k c1 v where k: "decode_scalar_value dec c = Inr (k, c1)" "dec c1 = Inr (v, c')"
      "a' = bt_insert k v a" by (auto simp: tree_body_def and_then_Inr_iff)
    have "good_value v"
      using good_uptoD [OF dec k(2)] decode_scalar_value_le [OF good_upto_shrinking [OF dec] k(1)] P by simp
    then show ?thesis
      using P k(3) decode_scalar_value_good [OF dec k(1)] tree_body_le [OF good_upto_shrinking [OF dec] body]
        length_bt_insert [of k v a] set_bt_insert [of k v a] bt_sorted_insert [of a k v]
      by fastforce
  qed
  have "?P (0 + unat n) m d'"
    by (rule for_n_rule [where P = ?P, OF loop _ step]) (use d in auto)
  then show ?thesis by (auto intro: len_ok_u32)
qed

lemma list_loop_good:
  assumes dec: "good_upto b dec"
    and loop: "for_n (unat (n :: u32)) (list_body dec) [] d = Inr (vs, d')" and d: "length d \<le> b"
  shows "good_value (List vs)"
proof -
  let ?P = "\<lambda>i vs c. length c \<le> b \<and> length vs = i \<and> (\<forall>v \<in> set vs. good_value v)"
  have step: "?P (Suc j) a' c'" if "?P j a c" "list_body dec a c = Inr (a', c')" for j a c a' c'
    using that good_uptoD [OF dec] list_body_le [OF good_upto_shrinking [OF dec] that(2)]
    by (fastforce simp: list_body_def and_then_Inr_iff)
  have "?P (0 + unat n) vs d'"
    by (rule for_n_rule [where P = ?P, OF loop _ step]) (use d in auto)
  then show ?thesis by (auto intro: len_ok_u32)
qed

lemma set_loop_good:
  assumes dec: "good_upto b dec"
    and loop: "for_n (unat (n :: u32)) (set_body dec) (None, []) d = Inr ((lp, vs), d')"
    and d: "length d \<le> b"
  shows "good_value (Set vs)"
proof -
  let ?Q = "\<lambda>i lp vs c. length c \<le> b \<and> length vs = i \<and> (\<forall>v \<in> set vs. good_value v) \<and>
    sorted_wrt (<) (map encode_value vs) \<and>
    (case lp of None \<Rightarrow> vs = [] | Some q \<Rightarrow> \<forall>v \<in> set vs. encode_value v \<le> q)"
  let ?P = "\<lambda>i st c. ?Q i (fst st) (snd st) c"
  have step: "?P (Suc j) a' c'" if P: "?P j a c" and body: "set_body dec a c = Inr (a', c')" for j a c a' c'
  proof -
    obtain lp vs where a: "a = (lp, vs)" by fastforce
    from body a obtain v where v: "dec c = Inr (v, c')" "a' = (Some (encode_value v), vs @ [v])"
      "\<not> (case lp of Some prev \<Rightarrow> encode_value v \<le> prev | None \<Rightarrow> False)"
      by (auto simp: set_body_def and_then_Inr_iff Let_def encode_payload_def split: if_splits)
    have "\<forall>w \<in> set vs. encode_value w < encode_value v"
      using P a v(3) by (auto split: option.splits simp: not_le)
    then show ?thesis
      using P a v(2) good_uptoD [OF dec v(1)] set_body_le [OF good_upto_shrinking [OF dec] body]
      by (auto simp: sorted_wrt_append intro: less_imp_le)
  qed
  have "?P (0 + unat n) (lp, vs) d'"
    by (rule for_n_rule [where P = ?P, OF loop _ step]) (use d in auto)
  then show ?thesis by (auto intro: len_ok_u32)
qed

lemmas loop_good = hash_loop_good set_loop_good list_loop_good tree_loop_good

lemma decode_step_good:
  assumes dec: "good_upto b dec" and cur: "length cur \<le> Suc b"
    and ret: "decode_step dec cur = Inr (v, c)"
  shows "good_value v"
proof -
  obtain tag rest where t: "cur = tag # rest"
    using ret by (cases cur) (auto simp: decode_step_def)
  with cur have b: "length d \<le> b" if "read_u32 rest = Inr (n, d)" for n d
    using read_u32_le [OF that] by simp
  show ?thesis
    using ret unfolding t decode_step_def
    by (auto simp: and_then_Inr_iff value_ctor_defs split: if_splits
        dest!: read_str_wf loop_good [OF dec] dest: b intro: read_slice_len [THEN eq_refl, THEN len_ok_u32])
qed

lemma good_fuel: "good_upto n (decode_fuel n)"
proof (induction n)
  case 0
  then show ?case by (simp add: good_upto_def shrinking_def)
next
  case (Suc n)
  then have "good_value v" if "length c \<le> Suc n" "decode_fuel (Suc n) c = Inr (v, c')" for c v c'
    using decode_step_good [OF Suc] that by simp
  with shrinking_fuel [of "Suc n"] show ?case unfolding good_upto_def by blast
qed

lemma decode_value_good: "decode_value cur = Inr (v, c) \<Longrightarrow> good_value v"
  using good_uptoD [OF good_fuel] by (simp add: decode_value_def)

lemma decode_good: "decode bs = Inr v \<Longrightarrow> good_value v"
  by (auto simp: decode_def and_then_Inr_iff split: list.splits if_splits dest: decode_value_good)

section \<open>Encodings are self-delimiting\<close>

lemma extends_readers:
  "extends read_u8" "extends (read_slice n)" "extends read_u32" "extends read_u64" "extends read_str"
proof -
  show u8: "extends read_u8"
    by (auto simp: extends_def read_u8_def split: list.splits)
  show slice: "extends (read_slice n)" for n
    by (auto simp: extends_def read_slice_def split: if_splits)
  show u32: "extends read_u32"
    unfolding read_u32_def by (intro extends_intros slice)
  show "extends read_u64"
    unfolding read_u64_def by (intro extends_intros slice)
  have "extends (\<lambda>cur. case from_utf8 bs of None \<Rightarrow> Inl InvalidUtf8 | Some s \<Rightarrow> Inr (s, cur))" for bs
    by (cases "from_utf8 bs") (auto simp: extends_const)
  then show "extends read_str"
    unfolding read_str_def by (intro extends_intros slice u32)
qed

lemma extends_bodies:
  assumes "extends dec"
  shows "extends (hash_body dec m)" "extends (set_body dec st)" "extends (list_body dec vs)"
    "extends (tree_body dec t)"
proof -
  have scalar: "extends (decode_scalar_value dec)"
    using assms by (fastforce simp: extends_def decode_scalar_value_def and_then_def
        split: sum.splits prod.splits Value.splits)
  show "extends (hash_body dec m)"
    unfolding hash_body_def by (intro extends_intros extends_readers assms)
  show "extends (list_body dec vs)"
    unfolding list_body_def by (intro extends_intros assms)
  show "extends (tree_body dec t)"
    unfolding tree_body_def by (intro extends_intros scalar assms)
  show "extends (set_body dec st)"
    unfolding set_body_def Let_def case_prod_beta [of _ st] by (intro extends_intros assms)
qed

lemma extends_decode_step: "extends dec \<Longrightarrow> extends (decode_step dec)"
  unfolding decode_step_def
  by (intro extends_intros extends_readers) (auto intro!: extends_intros extends_bodies simp: case_prod_unfold)

lemma extends_fuel: "extends (decode_fuel n)"
proof (induction n)
  case (Suc n)
  then have "extends (decode_step (decode_fuel n))" by (rule extends_decode_step)
  then show ?case by (simp add: extends_def)
qed (simp add: extends_def)

lemma extends_decode_value: "extends decode_value"
proof (rule extendsI)
  fix cur v r q
  assume "decode_value cur = Inr (v, r)"
  then have "decode_fuel (length (cur @ q)) cur = Inr (v, r)"
    using decode_fuel_enough [of cur "length (cur @ q)" "length cur"] by (simp add: decode_value_def)
  then show "decode_value (cur @ q) = Inr (v, r @ q)"
    unfolding decode_value_def by (rule extendsD [OF extends_fuel])
qed

section \<open>Properties\<close>

lemmas string_eval = utf8_string_def as_bytes_def byte_of_char_def

text \<open>
  C1. encoding then decoding a well-formed value returns it with its sets sorted and deduplicated by
  payload; that canonical form has the same encoding.
\<close>

theorem decode_encode_roundtrip:
  assumes "wf_value v"
  shows "decode (encode v) = Inr (canon v) \<and> canonical (canon v) \<and> encode (canon v) = encode v"
  using decode_encode_canon [OF assms] canonical_canon encode_canon by (simp add: encode_def)

theorem decode_encode_roundtrip_witness:
  "decode (encode (Set [value_int 2, value_int 1, value_int 2]))
     = Inr (canon (Set [value_int 2, value_int 1, value_int 2]))
   \<and> canon (Set [value_int 2, value_int 1, value_int 2]) = Set [value_int 1, value_int 2]"
proof -
  have "wf_value (Set [value_int 2, value_int 1, value_int 2])"
    by (simp add: value_ctor_defs len_ok_def)
  moreover have "canon (Set [value_int 2, value_int 1, value_int 2]) = Set [value_int 1, value_int 2]"
    by code_simp
  ultimately show ?thesis using decode_encode_roundtrip by blast
qed

text \<open>
  byte equality of encodings is equality of canonical values, so set membership and index
  keys that compare encodings compare values.
\<close>

theorem encode_equality:
  assumes "wf_value v" and "wf_value w"
  shows "encode v = encode w \<longleftrightarrow> canon v = canon w"
  using decode_encode_canon [OF assms(1)] decode_encode_canon [OF assms(2)] encode_canon
  by (metis encode_def sum.inject(2))

theorem encode_equality_witness:
  "encode (Set [value_bool True, value_null]) = encode (Set [value_null, value_bool True])"
proof -
  have "wf_value (Set [value_bool True, value_null])" "wf_value (Set [value_null, value_bool True])"
    by (simp_all add: value_ctor_defs len_ok_def)
  moreover have "canon (Set [value_bool True, value_null]) = canon (Set [value_null, value_bool True])"
    by code_simp
  ultimately show ?thesis using encode_equality by blast
qed

text \<open>
  C30. whatever bytes are decoded, a decoded value is well formed (map keys in order, strings
  UTF-8, lengths within the \<open>u32\<close> range) and canonical, and survives re-encoding unchanged.
\<close>

theorem decode_yields_canonical:
  assumes "decode bs = Inr v"
  shows "wf_value v \<and> canonical v \<and> decode (encode v) = Inr v"
  using decode_good [OF assms] decode_encode_canon canon_id by simp

theorem decode_yields_canonical_witness:
  "decode [1, 0x12, 1, 0, 0, 0, 1, 1] = Inr (List [value_bool True])
   \<and> canonical (List [value_bool True])"
proof -
  have "decode [1, 0x12, 1, 0, 0, 0, 1, 1] = Inr (List [value_bool True])"
    by code_simp
  with decode_yields_canonical [OF this] show ?thesis by blast
qed

text \<open>
  encodings are self-delimiting: every proper prefix of an encoding is rejected, so a
  truncated record never decodes to some other value.
\<close>

theorem decode_rejects_truncation:
  assumes "wf_value v" and "k < length (encode v)"
  shows "\<exists>e. decode (take k (encode v)) = Inl e"
proof (cases k)
  case 0
  then show ?thesis by (simp add: decode_def)
next
  case (Suc j)
  let ?p = "take j (encode_value v)"
  let ?q = "drop j (encode_value v)"
  have "?q \<noteq> []" using assms(2) Suc by (simp add: encode_def)
  have "\<not> (\<exists>w. decode_value ?p = Inr (w, []))"
  proof
    assume "\<exists>w. decode_value ?p = Inr (w, [])"
    then obtain w where "decode_value ?p = Inr (w, [])" by blast
    then have "decode_value (?p @ ?q) = Inr (w, [] @ ?q)"
      by (rule extendsD [OF extends_decode_value])
    with decode_encode_value [OF assms(1), of "[]"] \<open>?q \<noteq> []\<close> show False by simp
  qed
  with Suc show ?thesis
    by (cases "decode_value ?p") (auto simp: decode_def encode_def)
qed

theorem decode_rejects_truncation_witness:
  "\<exists>e. decode (take 4 (encode (value_int 7))) = Inl e"
proof -
  have "wf_value (value_int 7)" "4 < length (encode (value_int 7))"
    by (simp_all add: value_ctor_defs encode_def)
  then show ?thesis by (rule decode_rejects_truncation)
qed

text \<open>
  the recursion of \<open>decode_value\<close> is the source's: it satisfies the recursion equation
  without fuel, consumes at least one byte when it returns, and any fuel of at least the input's
  length gives the same result.
\<close>

theorem decode_value_unfold:
  "decode_value cur = decode_step decode_value cur
   \<and> (\<forall>v c. decode_value cur = Inr (v, c) \<longrightarrow> length c < length cur)
   \<and> (\<forall>n \<ge> length cur. decode_fuel n cur = decode_value cur)"
proof (intro conjI allI impI)
  show "decode_value cur = decode_step decode_value cur" by (rule decode_value_step)
  show "length c < length cur" if "decode_value cur = Inr (v, c)" for v c
    using that by (rule decode_value_less)
  show "decode_fuel n cur = decode_value cur" if "length cur \<le> n" for n
    unfolding decode_value_def using that by (intro decode_fuel_enough) auto
qed

theorem decode_value_unfold_witness:
  "decode_fuel 9 [0, 5] = Inr (value_null, [5]) \<and> length [5 :: u8] < length [0, 5 :: u8]"
proof -
  have d: "decode_value [0, 5] = Inr (value_null, [5])"
    by code_simp
  have "decode_fuel 9 [0, 5] = decode_value [0, 5]"
    using decode_value_unfold [of "[0, 5]"] by simp
  with d show ?thesis by simp
qed

end
