(* ===== verification/Db_Path.thy ===== *)
theory Db_Path
  imports BTree_Map
begin

text \<open>
  Absolute database paths of \<open>crates/alefs-types/src/path.rs\<close>: parsing with its early returns,
  joining, parents and the canonical string form, with the string functions of the standard
  library that they call.  \<open>wf_path\<close> is what \<open>DbPath::parse\<close> establishes of its result.
\<close>

datatype DbPath = DbPath (segments: "string list")

datatype PathError =
    PathEmpty
  | NotAbsolute
  | EmptySegment
  | ForbiddenSegment string
  | PathInvalidUtf8

fun show_path_error :: "PathError \<Rightarrow> string" where
  "show_path_error PathEmpty = ''empty path''"
| "show_path_error NotAbsolute = ''path must be absolute (start with /)''"
| "show_path_error EmptySegment = ''path contains an empty segment''"
| "show_path_error (ForbiddenSegment s) =
     ''path segment '' @ [CHR 0x27] @ s @ [CHR 0x27] @ '' is forbidden (. and .. are not stored)''"
| "show_path_error PathInvalidUtf8 = ''path is not valid UTF-8''"

section \<open>String functions\<close>

text \<open>\<open>str::trim_end_matches\<close> and \<open>str::split\<close> for a single character, and \<open>[String]::join\<close>.\<close>

definition trim_end_matches :: "char \<Rightarrow> string \<Rightarrow> string" where
  "trim_end_matches c s = rev (dropWhile (\<lambda>x. x = c) (rev s))"

fun split_on :: "char \<Rightarrow> string \<Rightarrow> string list" where
  "split_on c [] = [[]]"
| "split_on c (x # xs) =
     (if x = c then [] # split_on c xs
      else (case split_on c xs of [] \<Rightarrow> [[x]] | s # ss \<Rightarrow> (x # s) # ss))"

fun join_with :: "string \<Rightarrow> string list \<Rightarrow> string" where
  "join_with sep [] = []"
| "join_with sep [s] = s"
| "join_with sep (s # t # ss) = s @ sep @ join_with sep (t # ss)"

abbreviation slash :: char where "slash \<equiv> CHR ''/''"

section \<open>Operations\<close>

fun parse_segments :: "string list \<Rightarrow> string list \<Rightarrow> PathError + string list" where
  "parse_segments acc [] = Inr acc"
| "parse_segments acc (seg # rest) =
     (if seg = [] then Inl EmptySegment
      else if seg = ''.'' \<or> seg = ''..'' then Inl (ForbiddenSegment seg)
      else if 0 \<in> set (as_bytes seg) then Inl PathInvalidUtf8
      else parse_segments (acc @ [seg]) rest)"

definition path_parse :: "string \<Rightarrow> PathError + DbPath" where
  "path_parse input =
     (if input = [] then Inl PathEmpty
      else if hd input \<noteq> slash then Inl NotAbsolute
      else if input = ''/'' then Inr (DbPath [])
      else let trimmed = trim_end_matches slash input in
        if trimmed = [] then Inr (DbPath [])
        else and_then (parse_segments [] (split_on slash (drop 1 trimmed)))
               (\<lambda>segs. Inr (DbPath segs)))"

definition path_root :: DbPath where
  "path_root = DbPath []"

definition is_root :: "DbPath \<Rightarrow> bool" where
  "is_root p \<longleftrightarrow> segments p = []"

definition path_join :: "DbPath \<Rightarrow> string \<Rightarrow> PathError + DbPath" where
  "path_join p segment =
     (if segment = [] then Inl EmptySegment
      else if segment = ''.'' \<or> segment = ''..'' \<or> slash \<in> set segment
        then Inl (ForbiddenSegment segment)
      else Inr (DbPath (segments p @ [segment])))"

definition path_parent :: "DbPath \<Rightarrow> DbPath option" where
  "path_parent p = (if segments p = [] then None else Some (DbPath (butlast (segments p))))"

definition as_str :: "DbPath \<Rightarrow> string" where
  "as_str p = (if segments p = [] then ''/'' else ''/'' @ join_with ''/'' (segments p))"

section \<open>Splitting and joining\<close>

lemma split_on_not_Nil [simp]: "split_on c s \<noteq> []"
  by (induction s) (auto split: list.splits)

lemma split_on_free: "c \<notin> set s \<Longrightarrow> split_on c s = [s]"
  by (induction s) auto

lemma split_on_append: "c \<notin> set s \<Longrightarrow> split_on c (s @ c # t) = s # split_on c t"
  by (induction s) auto

lemma split_join:
  "ss \<noteq> [] \<Longrightarrow> (\<forall>s \<in> set ss. c \<notin> set s) \<Longrightarrow> split_on c (join_with [c] ss) = ss"
  by (induction "[c]" ss rule: join_with.induct) (auto simp: split_on_free split_on_append)

lemma join_with_Cons: "ss \<noteq> [] \<Longrightarrow> join_with sep (s # ss) = s @ sep @ join_with sep ss"
  by (cases ss) auto

lemma join_split: "join_with [c] (split_on c s) = s"
proof (induction s)
  case (Cons x s)
  then show ?case
    by (cases "split_on c s"; cases "tl (split_on c s)") (auto simp: join_with_Cons)
qed simp

lemma split_on_no_sep: "\<forall>s' \<in> set (split_on c s). c \<notin> set s'"
  by (induction s) (auto split: list.splits)

lemma join_with_snoc: "ss \<noteq> [] \<Longrightarrow> join_with sep (ss @ [s]) = join_with sep ss @ sep @ s"
  by (induction sep ss rule: join_with.induct) auto

lemma join_with_eq_Nil: "ss \<noteq> [] \<Longrightarrow> (\<forall>s \<in> set ss. s \<noteq> []) \<Longrightarrow> join_with sep ss \<noteq> []"
  by (induction sep ss rule: join_with.induct) auto

lemma last_join_with:
  "ss \<noteq> [] \<Longrightarrow> last ss \<noteq> [] \<Longrightarrow> last (join_with sep ss) = last (last ss)"
proof (induction sep ss rule: join_with.induct)
  case (3 sep s t ss)
  have "join_with sep (t # ss) \<noteq> []"
    using 3(3) by (induction sep "t # ss" arbitrary: t ss rule: join_with.induct) auto
  with 3 show ?case by simp
qed auto

section \<open>Well-formed paths\<close>

definition wf_segment :: "string \<Rightarrow> bool" where
  "wf_segment s \<longleftrightarrow> s \<noteq> [] \<and> s \<noteq> ''.'' \<and> s \<noteq> ''..'' \<and> slash \<notin> set s \<and> CHR 0x00 \<notin> set s"

definition wf_path :: "DbPath \<Rightarrow> bool" where
  "wf_path p \<longleftrightarrow> (\<forall>s \<in> set (segments p). wf_segment s)"

lemma zero_in_as_bytes: "0 \<in> set (as_bytes s) \<longleftrightarrow> CHR 0x00 \<in> set s"
proof -
  have z: "(0 :: u8) = byte_of_char (CHR 0x00)" by (simp add: byte_of_char_def)
  show ?thesis unfolding z as_bytes_def set_map by (rule inj_image_mem_iff) (simp add: inj_def)
qed

lemma parse_segments_Inr:
  "(\<forall>s \<in> set ss. slash \<notin> set s) \<Longrightarrow>
   parse_segments acc ss = Inr r \<longleftrightarrow> r = acc @ ss \<and> (\<forall>s \<in> set ss. wf_segment s)"
  by (induction ss arbitrary: acc) (auto simp: wf_segment_def zero_in_as_bytes)

lemma trim_end_id: "s \<noteq> [] \<Longrightarrow> last s \<noteq> c \<Longrightarrow> trim_end_matches c s = s"
  by (cases s rule: rev_cases) (auto simp: trim_end_matches_def)

lemma trim_end_decomp: "\<exists>n. s = trim_end_matches c s @ replicate n c"
proof -
  have "rev s = takeWhile (\<lambda>x. x = c) (rev s) @ dropWhile (\<lambda>x. x = c) (rev s)" by simp
  then have "s = trim_end_matches c s @ rev (takeWhile (\<lambda>x. x = c) (rev s))"
    unfolding trim_end_matches_def by (metis rev_append rev_rev_ident)
  moreover have "takeWhile (\<lambda>x. x = c) (rev s) = replicate (length (takeWhile (\<lambda>x. x = c) (rev s))) c"
    by (rule replicate_length_same [symmetric]) (auto dest: set_takeWhileD)
  ultimately show ?thesis by (metis rev_replicate)
qed

lemma trim_end_replicate [simp]: "trim_end_matches c (s @ replicate n c) = trim_end_matches c s"
  by (induction n arbitrary: s) (auto simp: trim_end_matches_def dropWhile_append)

section \<open>Parsing and printing\<close>

lemma as_str_absolute: "as_str p = slash # drop 1 (as_str p)"
  by (simp add: as_str_def)

lemma parse_as_str:
  assumes "wf_path p"
  shows "path_parse (as_str p) = Inr p"
proof (cases "segments p = []")
  case True
  then show ?thesis by (cases p) (simp add: path_parse_def as_str_def)
next
  case False
  let ?j = "join_with ''/'' (segments p)"
  have wf: "\<forall>s \<in> set (segments p). wf_segment s" using assms by (simp add: wf_path_def)
  have "wf_segment (last (segments p))"
    using wf last_in_set [OF False] by blast
  then have "last (segments p) \<noteq> []" and "last (last (segments p)) \<noteq> slash"
    unfolding wf_segment_def by (blast, metis last_in_set)
  then have l: "?j \<noteq> []" "last ?j \<noteq> slash"
    using False last_join_with [OF False, of "''/''"] join_with_eq_Nil [OF False] wf
    by (auto simp: wf_segment_def)
  then have "trim_end_matches slash (''/'' @ ?j) = ''/'' @ ?j"
    by (intro trim_end_id) auto
  moreover have "split_on slash ?j = segments p"
    using False wf by (intro split_join) (auto simp: wf_segment_def)
  moreover have "parse_segments [] (segments p) = Inr (segments p)"
    using wf by (subst parse_segments_Inr) (auto simp: wf_segment_def)
  ultimately show ?thesis
    using False l by (cases p) (simp add: path_parse_def as_str_def)
qed

lemma as_str_inject: "wf_path p \<Longrightarrow> wf_path q \<Longrightarrow> as_str p = as_str q \<longleftrightarrow> p = q"
  using parse_as_str by (metis sum.inject(2))

lemma parse_Inr:
  assumes "path_parse s = Inr p"
  shows "wf_path p \<and> (\<exists>n. s = as_str p @ replicate n slash)"
proof -
  let ?t = "trim_end_matches slash s"
  obtain n where n: "s = ?t @ replicate n slash" using trim_end_decomp by blast
  have s: "s \<noteq> []" "hd s = slash"
    using assms by (auto simp: path_parse_def split: if_splits)
  show ?thesis
  proof (cases "?t = []")
    case True
    then have p: "p = DbPath []"
      using assms s by (auto simp: path_parse_def Let_def split: if_splits)
    from n True s obtain k where "s = slash # replicate k slash" by (cases n) auto
    with p show ?thesis by (auto simp: wf_path_def as_str_def)
  next
    case False
    then have ne: "s \<noteq> ''/''" by (auto simp: trim_end_matches_def)
    have "hd ?t = slash" using n s False by (metis hd_append2)
    then have t: "?t = slash # drop 1 ?t" using False by (cases ?t) auto
    let ?ss = "split_on slash (drop 1 ?t)"
    from assms s ne False have ps: "parse_segments [] ?ss = Inr (segments p)"
      by (cases p) (auto simp: path_parse_def Let_def and_then_Inr_iff)
    then have segs: "segments p = ?ss" "wf_path p"
      using parse_segments_Inr [of ?ss "[]" "segments p"] split_on_no_sep [of slash "drop 1 ?t"]
      by (auto simp: wf_path_def)
    then have "as_str p = ?t"
      using t join_split [of slash "drop 1 ?t"] by (simp add: as_str_def)
    with segs n show ?thesis by metis
  qed
qed

lemma parse_via_trim:
  assumes "s \<noteq> []" and "hd s = slash"
  shows "path_parse s = (let t = trim_end_matches slash s in
     if t = [] then Inr (DbPath [])
     else and_then (parse_segments [] (split_on slash (drop 1 t))) (\<lambda>segs. Inr (DbPath segs)))"
  using assms by (auto simp: path_parse_def Let_def trim_end_matches_def)

lemma parse_trailing_slash:
  assumes "s \<noteq> []" and "hd s = slash"
  shows "path_parse (s @ replicate n slash) = path_parse s"
  using parse_via_trim [of s] parse_via_trim [of "s @ replicate n slash"] assms by simp

section \<open>Strings stay UTF-8\<close>

lemma utf8_split_on:
  assumes "utf8_string s"
  shows "\<forall>t \<in> set (split_on slash s). utf8_string t"
  using assms
proof (induction s rule: length_induct)
  case (1 s)
  show ?case
  proof (cases "slash \<in> set s")
    case True
    then obtain a c where s: "s = a @ slash # c" "slash \<notin> set a" by (meson split_list_first)
    have "byte_of_char slash < 0x80" by (simp add: byte_of_char_def)
    with 1 s have "utf8_string a" "utf8_string c"
      using valid_utf8_split [of "as_bytes a" "byte_of_char slash" "as_bytes c"]
      by (simp_all add: utf8_string_def)
    moreover have "length c < length s" using s(1) by simp
    ultimately have "\<forall>t \<in> set (split_on slash c). utf8_string t"
      using 1(1) by blast
    with \<open>utf8_string a\<close> show ?thesis using s by (simp add: split_on_append)
  qed (use 1 in \<open>simp add: split_on_free\<close>)
qed

definition utf8_path :: "DbPath \<Rightarrow> bool" where
  "utf8_path p \<longleftrightarrow> (\<forall>s \<in> set (segments p). utf8_string s)"

lemma utf8_append: "utf8_string a \<Longrightarrow> utf8_string b \<Longrightarrow> utf8_string (a @ b)"
  by (simp add: utf8_string_def valid_utf8_append)

lemma utf8_join: "utf8_string sep \<Longrightarrow> \<forall>s \<in> set ss. utf8_string s \<Longrightarrow> utf8_string (join_with sep ss)"
  by (induction sep ss rule: join_with.induct) (auto intro: utf8_append)

lemma utf8_as_str: "utf8_path p \<Longrightarrow> utf8_string (as_str p)"
proof -
  assume a: "utf8_path p"
  have sl: "utf8_string ''/''" by (rule utf8_string_ascii) simp
  then show ?thesis
    using a utf8_join [OF sl, of "segments p"] utf8_append [OF sl] by (simp add: as_str_def utf8_path_def)
qed

lemma parse_utf8:
  assumes "path_parse s = Inr p" and "utf8_string s"
  shows "utf8_path p"
proof -
  have s: "s \<noteq> []" "hd s = slash"
    using assms by (auto simp: path_parse_def split: if_splits)
  let ?t = "trim_end_matches slash s"
  show ?thesis
  proof (cases "?t = []")
    case True
    then show ?thesis using assms(1) parse_via_trim [OF s] by (auto simp: utf8_path_def)
  next
    case False
    obtain n where n: "s = ?t @ replicate n slash" using trim_end_decomp by blast
    then have t: "?t = slash # drop 1 ?t" using s False by (cases ?t) (auto simp: hd_append)
    have sl: "byte_of_char slash < 0x80" by (simp add: byte_of_char_def)
    have "utf8_string ?t"
    proof (cases n)
      case (Suc k)
      then have "as_bytes s = as_bytes ?t @ byte_of_char slash # as_bytes (replicate k slash)"
        by (subst n) simp
      with assms(2) sl show ?thesis by (metis utf8_string_def valid_utf8_split)
    qed (use n assms(2) in simp)
    then have "utf8_string (drop 1 ?t)"
      using valid_utf8_split [of "[]" "byte_of_char slash" "as_bytes (drop 1 ?t)"] sl t
      by (metis append_Nil as_bytes_Cons utf8_string_def)
    moreover have "segments p = split_on slash (drop 1 ?t)"
      using assms(1) parse_via_trim [OF s] False split_on_no_sep [of slash "drop 1 ?t"]
      by (auto simp: Let_def and_then_Inr_iff parse_segments_Inr)
    ultimately show ?thesis by (simp add: utf8_path_def utf8_split_on)
  qed
qed

section \<open>Properties\<close>

text \<open>
  C31. \<open>DbPath::parse\<close> accepts exactly the canonical strings of well-formed paths, with any number
  of trailing slashes, and returns the path printed; so printing and parsing are inverse and
  distinct well-formed paths have distinct strings.
\<close>

theorem path_parse_exact:
  "path_parse s = Inr p \<longleftrightarrow> wf_path p \<and> (\<exists>n. s = as_str p @ replicate n slash)"
proof
  assume "wf_path p \<and> (\<exists>n. s = as_str p @ replicate n slash)"
  then obtain n where "wf_path p" "s = as_str p @ replicate n slash" by blast
  moreover have "as_str p \<noteq> []" "hd (as_str p) = slash"
    using as_str_absolute [of p] by (metis list.distinct(1), metis list.sel(1))
  ultimately show "path_parse s = Inr p"
    using parse_trailing_slash parse_as_str by metis
qed (rule parse_Inr)

lemma parse_segments_bad:
  assumes "\<forall>s \<in> set ss. wf_segment s" and "x \<noteq> []" "x \<noteq> ''.''" "x \<noteq> ''..''" "CHR 0x00 \<in> set x"
  shows "parse_segments acc (ss @ [x]) = Inl PathInvalidUtf8"
  using assms by (induction ss arbitrary: acc) (auto simp: wf_segment_def zero_in_as_bytes)

text \<open>
  \<open>join\<close> accepts a segment with a NUL byte, which \<open>parse\<close> rejects: the joined path prints to a
  string that does not parse back.
\<close>

theorem path_join_nul_not_reparsed:
  assumes "wf_path p" and "path_join p (name @ [CHR 0x00]) = Inr q"
  shows "path_parse (as_str q) = Inl PathInvalidUtf8"
proof -
  let ?x = "name @ [CHR 0x00]"
  have q: "q = DbPath (segments p @ [?x])" and x: "?x \<noteq> ''.''" "?x \<noteq> ''..''" "slash \<notin> set ?x"
    using assms(2) by (auto simp: path_join_def split: if_splits)
  have wf: "\<forall>s \<in> set (segments p). wf_segment s" using assms(1) by (simp add: wf_path_def)
  let ?ss = "segments p @ [?x]"
  have l: "last (join_with ''/'' ?ss) = CHR 0x00"
    using last_join_with [of ?ss "''/''"] by simp
  have ne: "join_with ''/'' ?ss \<noteq> []"
    by (cases "segments p = []") (auto simp: join_with_snoc)
  have "trim_end_matches slash (slash # join_with ''/'' ?ss) = slash # join_with ''/'' ?ss"
    using l ne by (intro trim_end_id) auto
  moreover have "split_on slash (join_with ''/'' ?ss) = ?ss"
    using wf x by (intro split_join) (auto simp: wf_segment_def)
  moreover have "parse_segments [] ?ss = Inl PathInvalidUtf8"
    using wf x by (intro parse_segments_bad) auto
  ultimately show ?thesis
    using q parse_via_trim [of "as_str q"] by (simp add: as_str_def)
qed

theorem path_join_nul_not_reparsed_witness:
  "path_parse (as_str (DbPath [''a'', ''b'' @ [CHR 0x00]])) = Inl PathInvalidUtf8"
proof (rule path_join_nul_not_reparsed)
  show "wf_path (DbPath [''a''])" by (simp add: wf_path_def wf_segment_def)
  show "path_join (DbPath [''a'']) (''b'' @ [CHR 0x00]) = Inr (DbPath [''a'', ''b'' @ [CHR 0x00]])"
    by (simp add: path_join_def)
qed

end
