(* ===== verification/Storage.thy ===== *)
theory Storage
  imports BTree_Map
begin

text \<open>
  The storage layer's vocabulary (\<open>crates/alefs-storage/src/{batch,error,lib,memory}.rs\<close>): write
  batches, errors, the \<open>Storage\<close> trait and the in-memory backend.  A trait implementation is a
  record of its methods, which the clients take as an argument.  The locale \<open>storage\<close> states what
  the namespace layer relies on: the store behaves like one ordered map, a successful commit
  applies the whole batch, and a failed one applies the whole batch or nothing.
\<close>

datatype BatchOp = Put bytes bytes | Delete bytes

type_synonym WriteBatch = "BatchOp list"
type_synonym kv = "(bytes, bytes) btree"
type_synonym ScanRows = "(bytes \<times> bytes) list"

definition batch_new :: WriteBatch where
  "batch_new = []"

definition batch_put :: "bytes \<Rightarrow> bytes \<Rightarrow> WriteBatch \<Rightarrow> WriteBatch" where
  "batch_put key val b = b @ [Put key val]"

definition batch_delete :: "bytes \<Rightarrow> WriteBatch \<Rightarrow> WriteBatch" where
  "batch_delete key b = b @ [Delete key]"

datatype StorageError = Io string | Corrupt string | Internal string

fun show_storage_error :: "StorageError \<Rightarrow> string" where
  "show_storage_error (Io m) = ''storage i/o: '' @ m"
| "show_storage_error (Corrupt m) = ''storage corrupt: '' @ m"
| "show_storage_error (Internal m) = ''storage internal: '' @ m"

section \<open>Applying a batch\<close>

fun apply_op :: "BatchOp \<Rightarrow> kv \<Rightarrow> kv" where
  "apply_op (Put key val) m = bt_insert key val m"
| "apply_op (Delete key) m = bt_remove key m"

definition apply_ops :: "kv \<Rightarrow> WriteBatch \<Rightarrow> kv" where
  "apply_ops m ops = fold apply_op ops m"

text \<open>What a batch does to one key: the last operation on it decides.\<close>

fun op_effect :: "BatchOp \<Rightarrow> (bytes \<Rightarrow> bytes option) \<Rightarrow> bytes \<Rightarrow> bytes option" where
  "op_effect (Put key val) f = f(key \<mapsto> val)"
| "op_effect (Delete key) f = f(key := None)"

fun op_key :: "BatchOp \<Rightarrow> bytes" where
  "op_key (Put key val) = key"
| "op_key (Delete key) = key"

fun op_result :: "BatchOp \<Rightarrow> bytes option" where
  "op_result (Put key val) = Some val"
| "op_result (Delete key) = None"

lemma op_effect_eq: "op_effect op f = f(op_key op := op_result op)"
  by (cases op) auto

lemma apply_ops_simps [simp]:
  "apply_ops m [] = m" "apply_ops m (op # ops) = apply_ops (apply_op op m) ops"
  "apply_ops m (ops @ ops') = apply_ops (apply_ops m ops) ops'"
  by (simp_all add: apply_ops_def)

lemma bt_sorted_apply_op: "bt_sorted m \<Longrightarrow> bt_sorted (apply_op op m)"
  by (cases op) (auto simp: bt_laws)

lemma bt_sorted_apply_ops [simp]: "bt_sorted m \<Longrightarrow> bt_sorted (apply_ops m ops)"
  by (induction ops arbitrary: m) (auto simp: bt_sorted_apply_op)

lemma bt_get_apply_op: "bt_sorted m \<Longrightarrow> bt_get (apply_op op m) = (bt_get m)(op_key op := op_result op)"
  by (cases op) (auto simp: bt_laws)

definition batch_effect :: "WriteBatch \<Rightarrow> bytes \<Rightarrow> bytes option option" where
  "batch_effect ops = map_of (rev (map (\<lambda>op. (op_key op, op_result op)) ops))"

lemma bt_get_apply_ops:
  "bt_sorted m \<Longrightarrow>
   bt_get (apply_ops m ops) k = (case batch_effect ops k of None \<Rightarrow> bt_get m k | Some r \<Rightarrow> r)"
proof (induction ops arbitrary: m)
  case (Cons op ops)
  then show ?case
    by (auto simp: batch_effect_def map_add_def bt_get_apply_op bt_sorted_apply_op split: option.splits)
qed (simp add: batch_effect_def)

text \<open>Replaying operations that are already part of the state changes nothing.\<close>

lemma apply_ops_idem:
  assumes "bt_sorted m"
  shows "apply_ops (apply_ops m ops) ops = apply_ops m ops"
  using assms by (intro bt_eqI) (auto simp: bt_get_apply_ops fun_eq_iff split: option.splits)

section \<open>The trait\<close>

record 's Storage =
  st_get :: "'s \<Rightarrow> bytes \<Rightarrow> StorageError + bytes option"
  st_commit :: "WriteBatch \<Rightarrow> 's \<Rightarrow> (StorageError + unit) \<times> 's"
  st_scan_prefix :: "'s \<Rightarrow> bytes \<Rightarrow> StorageError + ScanRows"

locale storage =
  fixes S :: "'s Storage"
    and view :: "'s \<Rightarrow> kv"
    and invar :: "'s \<Rightarrow> bool"
  assumes view_sorted: "invar s \<Longrightarrow> bt_sorted (view s)"
    and get_view: "invar s \<Longrightarrow> st_get S s k = Inr (bt_get (view s) k)"
    and scan_view: "invar s \<Longrightarrow> st_scan_prefix S s pre = Inr (bt_scan pre (view s))"
    and commit_ok: "invar s \<Longrightarrow> st_commit S b s = (Inr (), s') \<Longrightarrow> view s' = apply_ops (view s) b"
    and commit_err: "invar s \<Longrightarrow> st_commit S b s = (Inl e, s') \<Longrightarrow>
          view s' = view s \<or> view s' = apply_ops (view s) b"
    and commit_invar: "invar s \<Longrightarrow> st_commit S b s = (r, s') \<Longrightarrow> invar s'"
begin

text \<open>Two commits in a row, both acknowledged, are one commit of the joined batch.\<close>

lemma commit_seq:
  assumes "invar s" "st_commit S b s = (Inr (), s1)" "st_commit S c s1 = (Inr (), s2)"
  shows "view s2 = apply_ops (view s) (b @ c)"
  using assms commit_ok commit_invar by (metis apply_ops_simps(3))

text \<open>A key the batch does not mention keeps its value, whatever the outcome.\<close>

lemma commit_frame:
  assumes "invar s" "st_commit S b s = (r, s')" "k \<notin> op_key ` set b"
  shows "st_get S s' k = st_get S s k"
proof -
  have "batch_effect b k = None"
    using assms(3) by (auto simp: batch_effect_def map_of_eq_None_iff)
  then have "bt_get (apply_ops (view s) b) k = bt_get (view s) k"
    using view_sorted [OF assms(1)] by (simp add: bt_get_apply_ops)
  moreover have "view s' = view s \<or> view s' = apply_ops (view s) b"
    using assms(1,2) commit_ok commit_err by (cases r) auto
  ultimately show ?thesis
    using get_view commit_invar assms(1,2) by auto
qed

text \<open>After an acknowledged commit a put key reads back and the scan is the rows with the prefix.\<close>

lemma get_after_commit:
  assumes "invar s" "st_commit S b s = (Inr (), s')" "batch_effect b k = Some r"
  shows "st_get S s' k = Inr r"
proof -
  have "bt_get (apply_ops (view s) b) k = r"
    using view_sorted [OF assms(1)] assms(3) by (simp add: bt_get_apply_ops)
  then show ?thesis using get_view commit_invar [OF assms(1,2)] commit_ok [OF assms(1,2)] by simp
qed

lemma scan_exact:
  "invar s \<Longrightarrow> st_scan_prefix S s pre = Inr (filter (\<lambda>(k, v). starts_with k pre) (view s))"
  by (simp add: scan_view bt_scan_eq_filter view_sorted)

end

section \<open>The in-memory backend\<close>

record MemoryStorage =
  mem_map :: kv

definition memory_new :: MemoryStorage where
  "memory_new = \<lparr>mem_map = []\<rparr>"

definition memory_get :: "MemoryStorage \<Rightarrow> bytes \<Rightarrow> StorageError + bytes option" where
  "memory_get s key = Inr (bt_get (mem_map s) key)"

definition memory_commit :: "WriteBatch \<Rightarrow> MemoryStorage \<Rightarrow> (StorageError + unit) \<times> MemoryStorage" where
  "memory_commit batch s = (Inr (), s\<lparr>mem_map := apply_ops (mem_map s) batch\<rparr>)"

definition memory_scan_prefix :: "MemoryStorage \<Rightarrow> bytes \<Rightarrow> StorageError + ScanRows" where
  "memory_scan_prefix s pre = Inr (bt_scan pre (mem_map s))"

definition memory_storage :: "MemoryStorage Storage" where
  "memory_storage =
     \<lparr>st_get = memory_get, st_commit = memory_commit, st_scan_prefix = memory_scan_prefix\<rparr>"

definition memory_inv :: "MemoryStorage \<Rightarrow> bool" where
  "memory_inv s = bt_sorted (mem_map s)"

lemma memory_storage_sel [simp]:
  "st_get memory_storage s k = Inr (bt_get (mem_map s) k)"
  "st_commit memory_storage b s = (Inr (), s\<lparr>mem_map := apply_ops (mem_map s) b\<rparr>)"
  "st_scan_prefix memory_storage s pre = Inr (bt_scan pre (mem_map s))"
  by (simp_all add: memory_storage_def memory_get_def memory_commit_def memory_scan_prefix_def)

interpretation mem: storage memory_storage mem_map memory_inv
  by unfold_locales (auto simp: memory_inv_def)

lemma memory_new_inv: "memory_inv memory_new"
  by (simp add: memory_inv_def memory_new_def)

end
