(* ===== verification/Ns_Keys.thy ===== *)
theory Ns_Keys
  imports Codec Db_Path Storage
begin

text \<open>
  The key layout of the namespace (\<open>crates/alefs-namespace/src/keys.rs\<close>) and its error type
  (\<open>error.rs\<close>).  The lemmas show that the key families never collide and that each key
  constructor is injective, so that an update of one key leaves all others alone.
\<close>

definition ROOT_ID :: u64 where "ROOT_ID = 1"

definition meta_next_id :: bytes where
  "meta_next_id = as_bytes ''meta/next_id''"

definition node_key :: "u64 \<Rightarrow> bytes" where
  "node_key i = as_bytes ''node/'' @ u64_to_be i"

definition child_key :: "u64 \<Rightarrow> string \<Rightarrow> bytes" where
  "child_key parent name = as_bytes ''child/'' @ u64_to_be parent @ [byte_of_char slash] @ as_bytes name"

definition child_prefix :: "u64 \<Rightarrow> bytes" where
  "child_prefix parent = as_bytes ''child/'' @ u64_to_be parent @ [byte_of_char slash]"

definition encode_id :: "u64 \<Rightarrow> bytes" where
  "encode_id i = u64_to_be i"

definition decode_id :: "bytes \<Rightarrow> u64 option" where
  "decode_id bs = (if length bs \<noteq> 8 then None else Some (u64_from_be bs))"

datatype NodeRecord = NodeDir | NodeValue bytes

definition encode_dir_node :: bytes where
  "encode_dir_node = [0]"

definition encode_value_node :: "bytes \<Rightarrow> bytes" where
  "encode_value_node enc = 1 # enc"

definition parse_node :: "bytes \<Rightarrow> string + NodeRecord" where
  "parse_node bs =
     (case bs of
        [] \<Rightarrow> Inl ''empty node''
      | t # rest \<Rightarrow>
          if t = 0 then Inr NodeDir
          else if t = 1 then Inr (NodeValue rest)
          else Inl (''unknown node tag '' @ show_nat (unat t)))"

definition type_index_key :: "string \<Rightarrow> u64 \<Rightarrow> bytes" where
  "type_index_key type_name i =
     as_bytes ''idx/t/'' @ as_bytes type_name @ [byte_of_char slash] @ u64_to_be i"

definition type_index_prefix :: "string \<Rightarrow> bytes" where
  "type_index_prefix type_name = as_bytes ''idx/t/'' @ as_bytes type_name @ [byte_of_char slash]"

definition idx_prefix :: bytes where
  "idx_prefix = as_bytes ''idx/t/''"

section \<open>Errors\<close>

datatype NsError =
    NsPath PathError
  | NsCodec string
  | NsStorage string
  | NotFound string
  | AlreadyExists string
  | NotDirectory string
  | IsDirectory string
  | ParentMissing string
  | TypeMismatch string
  | Invalid string

fun show_ns_error :: "NsError \<Rightarrow> string" where
  "show_ns_error (NsPath e) = show_path_error e"
| "show_ns_error (NsCodec e) = ''codec: '' @ e"
| "show_ns_error (NsStorage e) = ''storage: '' @ e"
| "show_ns_error (NotFound p) = ''not found: '' @ p"
| "show_ns_error (AlreadyExists p) = ''already exists: '' @ p"
| "show_ns_error (NotDirectory p) = ''not a directory: '' @ p"
| "show_ns_error (IsDirectory p) = ''is a directory: '' @ p"
| "show_ns_error (ParentMissing p) = ''parent missing: '' @ p"
| "show_ns_error (TypeMismatch m) = ''type mismatch: '' @ m"
| "show_ns_error (Invalid m) = ''invalid: '' @ m"

definition from_codec_error :: "CodecError \<Rightarrow> NsError" where
  "from_codec_error e = NsCodec (show_codec_error e)"

definition from_storage_error :: "StorageError \<Rightarrow> NsError" where
  "from_storage_error e = NsStorage (show_storage_error e)"

section \<open>Keys do not collide\<close>

lemma decode_encode_id [simp]: "decode_id (encode_id i) = Some i"
  by (simp add: decode_id_def encode_id_def)

lemma encode_id_inject [simp]: "encode_id i = encode_id j \<longleftrightarrow> i = j"
  by (simp add: encode_id_def)

lemma parse_dir_node [simp]: "parse_node encode_dir_node = Inr NodeDir"
  by (simp add: parse_node_def encode_dir_node_def)

lemma parse_value_node [simp]: "parse_node (encode_value_node enc) = Inr (NodeValue enc)"
  by (simp add: parse_node_def encode_value_node_def)

lemma node_key_inject [simp]: "node_key i = node_key j \<longleftrightarrow> i = j"
  by (simp add: node_key_def)

lemma child_key_inject [simp]: "child_key p x = child_key q y \<longleftrightarrow> p = q \<and> x = y"
  by (auto simp: child_key_def append_eq_append_conv)

lemma type_index_key_inject [simp]: "type_index_key t i = type_index_key u j \<longleftrightarrow> t = u \<and> i = j"
proof -
  have "as_bytes t @ byte_of_char slash # u64_to_be i = as_bytes u @ byte_of_char slash # u64_to_be j
        \<Longrightarrow> t = u \<and> i = j"
    using append_eq_append_conv [of "byte_of_char slash # u64_to_be i" "byte_of_char slash # u64_to_be j"
        "as_bytes t" "as_bytes u"]
    by (simp add: append_eq_append_conv)
  then show ?thesis by (auto simp: type_index_key_def)
qed

lemma key_families_distinct [simp]:
  "meta_next_id \<noteq> node_key i" "meta_next_id \<noteq> child_key p x" "meta_next_id \<noteq> type_index_key t i"
  "node_key i \<noteq> meta_next_id" "node_key i \<noteq> child_key p x" "node_key i \<noteq> type_index_key t j"
  "child_key p x \<noteq> meta_next_id" "child_key p x \<noteq> node_key i" "child_key p x \<noteq> type_index_key t i"
  "type_index_key t i \<noteq> meta_next_id" "type_index_key t i \<noteq> node_key j" "type_index_key t i \<noteq> child_key p x"
  by (simp_all add: meta_next_id_def node_key_def child_key_def type_index_key_def)

lemma starts_with_idx [simp]:
  "\<not> starts_with meta_next_id idx_prefix" "\<not> starts_with (node_key i) idx_prefix"
  "\<not> starts_with (child_key i x) idx_prefix" "starts_with (type_index_key t i) idx_prefix"
  by (simp_all add: starts_with_def idx_prefix_def meta_next_id_def node_key_def child_key_def
      type_index_key_def)

text \<open>A prefix scan below a directory's prefix meets exactly the keys of its children.\<close>

lemma child_key_prefix: "child_key p x = child_prefix p @ as_bytes x"
  by (simp add: child_key_def child_prefix_def)

lemma starts_with_child_prefix: "starts_with k (child_prefix p) \<longleftrightarrow> (\<exists>x. k = child_key p x)"
  by (metis as_bytes_string_of child_key_prefix starts_with_iff)

lemma drop_child_prefix [simp]: "drop (length (child_prefix p)) (child_key p x) = as_bytes x"
  by (simp add: child_key_prefix)

lemma type_index_key_prefix: "type_index_key t i = type_index_prefix t @ u64_to_be i"
  by (simp add: type_index_key_def type_index_prefix_def)

text \<open>Below a type name's prefix there are, of the index keys, only those of this type.\<close>

lemma slash_split_unique:
  "a @ c # b = a' @ c # b' \<Longrightarrow> c \<notin> set a \<Longrightarrow> c \<notin> set a' \<Longrightarrow> a = a'"
  by (induction a arbitrary: a') (auto simp: Cons_eq_append_conv append_eq_Cons_conv)

lemma type_index_key_starts:
  assumes "slash \<notin> set t" "slash \<notin> set u"
  shows "starts_with (type_index_key u i) (type_index_prefix t) \<longleftrightarrow> t = u"
proof
  assume "starts_with (type_index_key u i) (type_index_prefix t)"
  then obtain r where "type_index_key u i = type_index_prefix t @ r" by (auto simp: starts_with_iff)
  then have "as_bytes u @ byte_of_char slash # u64_to_be i = as_bytes t @ byte_of_char slash # r"
    by (simp add: type_index_key_def type_index_prefix_def)
  then have "as_bytes u = as_bytes t"
    by (rule slash_split_unique) (use assms in \<open>auto simp: as_bytes_def\<close>)
  then show "t = u" by simp
qed (simp add: type_index_key_prefix)

end
