(* ===== verification/Namespace.thy ===== *)
theory Namespace
  imports Ns_Keys
begin

text \<open>
  \<open>Database<S: Storage>\<close> of \<open>crates/alefs-namespace/src/db.rs\<close>.  The database is its store: every
  operation takes the trait implementation \<open>S\<close> and the store \<open>s\<close>; operations that write return the
  store afterwards.  A mutation computes one batch from reads and commits it; \<open>mkdir_batch\<close>,
  \<open>set_batch\<close> and \<open>delete_batch\<close> are the parts before the commit.  Recursions over the stored graph
  (\<open>walk_rec\<close>, the loop of \<open>rebuild_type_index\<close>) take fuel, because a corrupt store can be cyclic.
\<close>

datatype EntryKind = Directory | EntryValue

record Entry =
  e_path :: DbPath
  e_kind :: EntryKind
  e_value :: "Value option"

definition ns_decode :: "bytes \<Rightarrow> NsError + Value" where
  "ns_decode enc = map_err from_codec_error (decode enc)"

definition node_type_name :: "NodeRecord \<Rightarrow> NsError + string" where
  "node_type_name rec =
     (case rec of
        NodeDir \<Rightarrow> Inr ''directory''
      | NodeValue enc \<Rightarrow> and_then (ns_decode enc) (\<lambda>v. Inr (typename v)))"

section \<open>Store access with converted errors\<close>

definition store_get :: "'s Storage \<Rightarrow> 's \<Rightarrow> bytes \<Rightarrow> NsError + bytes option" where
  "store_get S s key = map_err from_storage_error (st_get S s key)"

definition store_scan_prefix :: "'s Storage \<Rightarrow> 's \<Rightarrow> bytes \<Rightarrow> NsError + ScanRows" where
  "store_scan_prefix S s pre = map_err from_storage_error (st_scan_prefix S s pre)"

definition store_commit :: "'s Storage \<Rightarrow> WriteBatch \<Rightarrow> 's \<Rightarrow> (NsError + unit) \<times> 's" where
  "store_commit S batch s =
     (case st_commit S batch s of (r, s') \<Rightarrow> (map_err from_storage_error r, s'))"

section \<open>Resolving paths\<close>

definition id_of :: "bytes \<Rightarrow> NsError + u64" where
  "id_of raw = ok_or (Invalid ''bad child id'') (decode_id raw)"

fun resolve_segments :: "(bytes \<Rightarrow> NsError + bytes option) \<Rightarrow> string \<Rightarrow> u64 \<Rightarrow> string list \<Rightarrow> NsError + u64" where
  "resolve_segments get whole i [] = Inr i"
| "resolve_segments get whole i (seg # segs) =
     and_then (get (child_key i seg)) (\<lambda>child.
     and_then (ok_or (NotFound whole) child) (\<lambda>raw.
     and_then (id_of raw) (\<lambda>j. resolve_segments get whole j segs)))"

text \<open>The body that \<open>Database::resolve\<close> and \<open>resolve_ov\<close> share, over the read function.\<close>

definition resolve_with :: "(bytes \<Rightarrow> NsError + bytes option) \<Rightarrow> DbPath \<Rightarrow> NsError + (u64 \<times> NodeRecord)" where
  "resolve_with get path =
     (if is_root path then
        and_then (get (node_key ROOT_ID)) (\<lambda>b.
        and_then (ok_or (NotFound ''/'') b) (\<lambda>bs.
        and_then (map_err Invalid (parse_node bs)) (\<lambda>rec. Inr (ROOT_ID, rec))))
      else
        and_then (resolve_segments get (as_str path) ROOT_ID (segments path)) (\<lambda>i.
        and_then (get (node_key i)) (\<lambda>b.
        and_then (ok_or (NotFound (as_str path)) b) (\<lambda>bs.
        and_then (map_err Invalid (parse_node bs)) (\<lambda>rec. Inr (i, rec))))))"

definition resolve :: "'s Storage \<Rightarrow> 's \<Rightarrow> DbPath \<Rightarrow> NsError + (u64 \<times> NodeRecord)" where
  "resolve S s path = resolve_with (store_get S s) path"

definition db_exists :: "'s Storage \<Rightarrow> 's \<Rightarrow> DbPath \<Rightarrow> NsError + bool" where
  "db_exists S s path =
     (case resolve S s path of
        Inr _ \<Rightarrow> Inr True
      | Inl e \<Rightarrow> (case e of NotFound _ \<Rightarrow> Inr False | _ \<Rightarrow> Inl e))"

definition db_get :: "'s Storage \<Rightarrow> 's \<Rightarrow> DbPath \<Rightarrow> NsError + Entry" where
  "db_get S s path =
     and_then (resolve S s path) (\<lambda>(i, rec).
       case rec of
         NodeDir \<Rightarrow> Inr \<lparr>e_path = path, e_kind = Directory, e_value = None\<rparr>
       | NodeValue enc \<Rightarrow>
           and_then (ns_decode enc) (\<lambda>value.
             Inr \<lparr>e_path = path, e_kind = EntryValue, e_value = Some value\<rparr>))"

section \<open>Identifiers\<close>

definition next_id :: "'s Storage \<Rightarrow> 's \<Rightarrow> NsError + u64" where
  "next_id S s =
     and_then (store_get S s meta_next_id) (\<lambda>r.
     and_then (ok_or (Invalid ''missing next_id'') r) (\<lambda>raw.
       ok_or (Invalid ''bad next_id'') (decode_id raw)))"

definition alloc_id :: "'s Storage \<Rightarrow> 's \<Rightarrow> WriteBatch \<Rightarrow> NsError + (u64 \<times> WriteBatch)" where
  "alloc_id S s batch =
     and_then (next_id S s) (\<lambda>i. Inr (i, batch_put meta_next_id (encode_id (i + 1)) batch))"

section \<open>Mutations\<close>

definition path_name :: "DbPath \<Rightarrow> string option" where
  "path_name path = (if segments path = [] then None else Some (last (segments path)))"

definition missing_parent :: "DbPath \<Rightarrow> NsError \<Rightarrow> NsError" where
  "missing_parent parent e =
     (case e of NotFound _ \<Rightarrow> ParentMissing (as_str parent) | other \<Rightarrow> other)"

text \<open>The identifier of a parent that must be a directory, from the result of resolving it.\<close>

definition parent_dir :: "DbPath \<Rightarrow> NsError + (u64 \<times> NodeRecord) \<Rightarrow> NsError + u64" where
  "parent_dir parent resolved =
     and_then (map_err (missing_parent parent) resolved) (\<lambda>(parent_id, parent_rec).
       if parent_rec \<noteq> NodeDir then Inl (NotDirectory (as_str parent)) else Inr parent_id)"

definition mkdir_batch :: "'s Storage \<Rightarrow> 's \<Rightarrow> DbPath \<Rightarrow> NsError + WriteBatch" where
  "mkdir_batch S s path =
     and_then (db_exists S s path) (\<lambda>ex.
     if ex then Inl (AlreadyExists (as_str path))
     else
     and_then (ok_or (Invalid ''no parent'') (path_parent path)) (\<lambda>parent.
     and_then (ok_or (Invalid ''no name'') (path_name path)) (\<lambda>name.
     and_then (parent_dir parent (resolve S s parent)) (\<lambda>parent_id.
     and_then (alloc_id S s batch_new) (\<lambda>(i, batch).
     let batch = batch_put (node_key i) encode_dir_node batch;
         batch = batch_put (child_key parent_id name) (encode_id i) batch;
         batch = batch_put (type_index_key ''directory'' i) (as_bytes (as_str path)) batch
     in Inr batch)))))"

definition mkdir :: "'s Storage \<Rightarrow> DbPath \<Rightarrow> 's \<Rightarrow> (NsError + unit) \<times> 's" where
  "mkdir S path s =
     (if is_root path then (Inr (), s)
      else try_at s (mkdir_batch S s path) (\<lambda>batch. store_commit S batch s))"

definition set_batch :: "'s Storage \<Rightarrow> 's \<Rightarrow> DbPath \<Rightarrow> Value \<Rightarrow> NsError + WriteBatch" where
  "set_batch S s path val =
     (if is_root path then Inl (Invalid ''cannot set value at root'')
      else
     and_then (ok_or (Invalid ''no parent'') (path_parent path)) (\<lambda>parent.
     and_then (ok_or (Invalid ''no name'') (path_name path)) (\<lambda>name.
     and_then (parent_dir parent (resolve S s parent)) (\<lambda>parent_id.
     let enc = encode val; batch = batch_new in
     and_then (store_get S s (child_key parent_id name)) (\<lambda>child.
     case child of
       Some raw \<Rightarrow>
         and_then (id_of raw) (\<lambda>i.
         and_then (store_get S s (node_key i)) (\<lambda>b.
         and_then (ok_or (Invalid ''missing node'') b) (\<lambda>existing.
         and_then (map_err Invalid (parse_node existing)) (\<lambda>rec.
         case rec of
           NodeDir \<Rightarrow> Inl (IsDirectory (as_str path))
         | NodeValue old_enc \<Rightarrow>
             and_then (ns_decode old_enc) (\<lambda>old.
             let old_ty = typename old;
                 new_ty = typename val;
                 batch = (if old_ty \<noteq> new_ty then batch_delete (type_index_key old_ty i) batch else batch);
                 batch = batch_put (node_key i) (encode_value_node enc) batch;
                 batch = batch_put (type_index_key new_ty i) (as_bytes (as_str path)) batch
             in Inr batch)))))
     | None \<Rightarrow>
         and_then (alloc_id S s batch) (\<lambda>(i, batch).
         let batch = batch_put (node_key i) (encode_value_node enc) batch;
             batch = batch_put (child_key parent_id name) (encode_id i) batch;
             batch = batch_put (type_index_key (typename val) i) (as_bytes (as_str path)) batch
         in Inr batch))))))"

definition db_set :: "'s Storage \<Rightarrow> DbPath \<Rightarrow> Value \<Rightarrow> 's \<Rightarrow> (NsError + unit) \<times> 's" where
  "db_set S path val s = try_at s (set_batch S s path val) (\<lambda>batch. store_commit S batch s)"

definition delete_batch :: "'s Storage \<Rightarrow> 's \<Rightarrow> DbPath \<Rightarrow> NsError + WriteBatch" where
  "delete_batch S s path =
     (if is_root path then Inl (Invalid ''cannot delete root'')
      else
     and_then (resolve S s path) (\<lambda>(i, rec).
     and_then
       (if rec = NodeDir then
          and_then (store_scan_prefix S s (child_prefix i)) (\<lambda>children.
            if children \<noteq> [] then Inl (Invalid (''directory not empty: '' @ as_str path)) else Inr ())
        else Inr ()) (\<lambda>_.
     let parent = DbPath (butlast (segments path)); name = last (segments path) in
     and_then (resolve S s parent) (\<lambda>(parent_id, _).
     and_then (node_type_name rec) (\<lambda>ty.
     let batch = batch_delete (type_index_key ty i) batch_new;
         batch = batch_delete (child_key parent_id name) batch;
         batch = batch_delete (node_key i) batch
     in Inr batch)))))"

definition db_delete :: "'s Storage \<Rightarrow> DbPath \<Rightarrow> 's \<Rightarrow> (NsError + unit) \<times> 's" where
  "db_delete S path s = try_at s (delete_batch S s path) (\<lambda>batch. store_commit S batch s)"

section \<open>Queries\<close>

definition ns_parse :: "string \<Rightarrow> NsError + DbPath" where
  "ns_parse p = map_err NsPath (path_parse p)"

definition paths_with_type :: "'s Storage \<Rightarrow> 's \<Rightarrow> string \<Rightarrow> NsError + DbPath list" where
  "paths_with_type S s type_name =
     and_then (store_scan_prefix S s (type_index_prefix type_name)) (\<lambda>rows.
     and_then (try_map (\<lambda>(k, v).
         and_then (ok_or (Invalid ''idx path utf8'') (from_utf8 v)) ns_parse) rows) (\<lambda>out.
       Inr (sort_key as_str out)))"

definition list_row :: "'s Storage \<Rightarrow> 's \<Rightarrow> bytes \<Rightarrow> bytes \<times> bytes \<Rightarrow> NsError + (string \<times> EntryKind)" where
  "list_row S s pre row =
     (case row of (k, v) \<Rightarrow>
       and_then (ok_or (Invalid ''child name not utf8'') (from_utf8 (drop (length pre) k))) (\<lambda>name.
       and_then (id_of v) (\<lambda>child_id.
       and_then (store_get S s (node_key child_id)) (\<lambda>b.
       and_then (ok_or (Invalid ''missing child node'') b) (\<lambda>bs.
       and_then (map_err Invalid (parse_node bs)) (\<lambda>rec.
         Inr (name, case rec of NodeDir \<Rightarrow> Directory | NodeValue _ \<Rightarrow> EntryValue)))))))"

definition db_list :: "'s Storage \<Rightarrow> 's \<Rightarrow> DbPath \<Rightarrow> NsError + (string \<times> EntryKind) list" where
  "db_list S s path =
     and_then (resolve S s path) (\<lambda>(i, rec).
     if rec \<noteq> NodeDir then Inl (NotDirectory (as_str path))
     else
     let pre = child_prefix i in
     and_then (store_scan_prefix S s pre) (\<lambda>rows.
     and_then (try_map (list_row S s pre) rows) (\<lambda>out.
       Inr (sort_key fst out))))"

text \<open>The loop over the children in \<open>walk_rec\<close>; \<open>visit\<close> is the recursive call.\<close>

fun walk_children ::
  "(DbPath \<Rightarrow> 'o \<Rightarrow> (NsError + 'o) option) \<Rightarrow> DbPath \<Rightarrow> (string \<times> EntryKind) list \<Rightarrow> 'o \<Rightarrow> (NsError + 'o) option" where
  "walk_children visit path [] out = Some (Inr out)"
| "walk_children visit path ((name, _) # rest) out =
     (case map_err NsPath (path_join path name) of
        Inl e \<Rightarrow> Some (Inl e)
      | Inr child \<Rightarrow>
          (case visit child out of
             None \<Rightarrow> None
           | Some (Inl e) \<Rightarrow> Some (Inl e)
           | Some (Inr out') \<Rightarrow> walk_children visit path rest out'))"

fun walk_rec :: "nat \<Rightarrow> 's Storage \<Rightarrow> 's \<Rightarrow> DbPath \<Rightarrow> (DbPath \<times> Value) list
    \<Rightarrow> (NsError + (DbPath \<times> Value) list) option" where
  "walk_rec 0 S s path out = None"
| "walk_rec (Suc fuel) S s path out =
     (case db_get S s path of
        Inl e \<Rightarrow> Some (Inl e)
      | Inr entry \<Rightarrow>
          (case e_kind entry of
             Directory \<Rightarrow>
               (case db_list S s path of
                  Inl e \<Rightarrow> Some (Inl e)
                | Inr names \<Rightarrow> walk_children (walk_rec fuel S s) path names out)
           | EntryValue \<Rightarrow>
               (case e_value entry of
                  Some v \<Rightarrow> Some (Inr (out @ [(path, v)]))
                | None \<Rightarrow> Some (Inr out))))"

definition walk_values :: "nat \<Rightarrow> 's Storage \<Rightarrow> 's \<Rightarrow> (NsError + (DbPath \<times> Value) list) option" where
  "walk_values fuel S s = walk_rec fuel S s path_root []"

section \<open>The type index and opening a database\<close>

text \<open>The stack of the source, its top first.\<close>

fun rebuild_loop :: "nat \<Rightarrow> 's Storage \<Rightarrow> 's \<Rightarrow> DbPath list \<Rightarrow> WriteBatch \<Rightarrow> (NsError + WriteBatch) option" where
  "rebuild_loop fuel S s [] batch = Some (Inr batch)"
| "rebuild_loop 0 S s (path # stack) batch = None"
| "rebuild_loop (Suc fuel) S s (path # stack) batch =
     (case and_then (resolve S s path) (\<lambda>(i, rec).
           and_then (node_type_name rec) (\<lambda>ty.
           let batch = batch_put (type_index_key ty i) (as_bytes (as_str path)) batch in
           if rec = NodeDir then
             and_then (db_list S s path) (\<lambda>names.
             and_then (try_map (\<lambda>(name, _). map_err NsPath (path_join path name)) names) (\<lambda>children.
               Inr (rev children @ stack, batch)))
           else Inr (stack, batch))) of
        Inl e \<Rightarrow> Some (Inl e)
      | Inr (stack, batch) \<Rightarrow> rebuild_loop fuel S s stack batch)"

definition rebuild_type_index :: "nat \<Rightarrow> 's Storage \<Rightarrow> 's \<Rightarrow> ((NsError + unit) \<times> 's) option" where
  "rebuild_type_index fuel S s =
     (case store_scan_prefix S s idx_prefix of
        Inl e \<Rightarrow> Some (Inl e, s)
      | Inr rows \<Rightarrow>
          (case rebuild_loop fuel S s [path_root] (fold (\<lambda>(k, _). batch_delete k) rows batch_new) of
             None \<Rightarrow> None
           | Some r \<Rightarrow> Some (try_at s r (\<lambda>batch. store_commit S batch s))))"

definition INDEX_VER :: u64 where "INDEX_VER = 1"
definition ver_key :: bytes where "ver_key = as_bytes ''meta/type_index_version''"

definition ensure_root :: "'s Storage \<Rightarrow> 's \<Rightarrow> (NsError + unit) \<times> 's" where
  "ensure_root S s =
     try_at s (store_get S s (node_key ROOT_ID)) (\<lambda>root.
     if root = None then
       let batch = batch_put (node_key ROOT_ID) encode_dir_node batch_new;
           batch = batch_put meta_next_id (encode_id (ROOT_ID + 1)) batch;
           batch = batch_put (type_index_key ''directory'' ROOT_ID) (as_bytes ''/'') batch
       in store_commit S batch s
     else
       try_at s (store_get S s meta_next_id) (\<lambda>n.
       if n = None then store_commit S (batch_put meta_next_id (encode_id (ROOT_ID + 1)) batch_new) s
       else (Inr (), s)))"

text \<open>Rebuild the type index when its version is missing or outdated, then record the version.\<close>

definition ensure_index :: "nat \<Rightarrow> 's Storage \<Rightarrow> 's \<Rightarrow> ((NsError + unit) \<times> 's) option" where
  "ensure_index fuel S s =
     (case store_get S s ver_key of
        Inl e \<Rightarrow> Some (Inl e, s)
      | Inr v \<Rightarrow>
          if v = Some (u64_to_be INDEX_VER) then Some (Inr (), s)
          else
            (case rebuild_type_index fuel S s of
               None \<Rightarrow> None
             | Some rs \<Rightarrow>
                 Some (then_at rs (\<lambda>_ s.
                   store_commit S (batch_put ver_key (u64_to_be INDEX_VER) batch_new) s))))"

definition db_open :: "nat \<Rightarrow> 's Storage \<Rightarrow> 's \<Rightarrow> ((NsError + unit) \<times> 's) option" where
  "db_open fuel S s =
     (case ensure_root S s of
        (Inl e, s) \<Rightarrow> Some (Inl e, s)
      | (Inr _, s) \<Rightarrow> ensure_index fuel S s)"

section \<open>Structure helpers\<close>

text \<open>The collection at a path, empty when there is no node; the last argument is what \<open>{} is not a ...\<close> names.\<close>

definition value_at :: "(Value \<Rightarrow> 'c option) \<Rightarrow> string \<Rightarrow> 'c \<Rightarrow> 's Storage \<Rightarrow> 's \<Rightarrow> DbPath \<Rightarrow> NsError + 'c" where
  "value_at select what none S s path =
     (case db_get S s path of
        Inr e \<Rightarrow>
          (case e_value e of
             Some v \<Rightarrow> ok_or (TypeMismatch (as_str path @ '' is not a '' @ what)) (select v)
           | None \<Rightarrow> Inl (IsDirectory (as_str path)))
      | Inl e \<Rightarrow> (case e of NotFound _ \<Rightarrow> Inr none | _ \<Rightarrow> Inl e))"

fun as_hash :: "Value \<Rightarrow> (string \<times> Value) list option" where
  "as_hash (Hash m) = Some m" | "as_hash _ = None"

fun as_list :: "Value \<Rightarrow> Value list option" where
  "as_list (List v) = Some v" | "as_list _ = None"

fun as_set :: "Value \<Rightarrow> Value list option" where
  "as_set (Set v) = Some v" | "as_set _ = None"

fun as_tree :: "Value \<Rightarrow> (Scalar \<times> Value) list option" where
  "as_tree (Tree m) = Some m" | "as_tree _ = None"

definition set_insert :: "Value \<Rightarrow> Value list \<Rightarrow> Value list" where
  "set_insert val members =
     (if list_ex (\<lambda>m. encode_payload m = encode_payload val) members then members else members @ [val])"

definition hash_set :: "'s Storage \<Rightarrow> DbPath \<Rightarrow> string \<Rightarrow> Value \<Rightarrow> 's \<Rightarrow> (NsError + unit) \<times> 's" where
  "hash_set S path key val s =
     try_at s (value_at as_hash ''hash'' [] S s path) (\<lambda>m.
       db_set S path (Hash (bt_insert key val m)) s)"

definition hash_get :: "'s Storage \<Rightarrow> 's \<Rightarrow> DbPath \<Rightarrow> string \<Rightarrow> NsError + Value option" where
  "hash_get S s path key =
     and_then (db_get S s path) (\<lambda>e.
       case e_value e of
         Some v \<Rightarrow>
           and_then (ok_or (TypeMismatch (as_str path @ '' is not a hash'')) (as_hash v)) (\<lambda>m.
             Inr (bt_get m key))
       | None \<Rightarrow> Inl (IsDirectory (as_str path)))"

definition list_push :: "'s Storage \<Rightarrow> DbPath \<Rightarrow> Value \<Rightarrow> 's \<Rightarrow> (NsError + unit) \<times> 's" where
  "list_push S path val s =
     try_at s (value_at as_list ''list'' [] S s path) (\<lambda>items.
       db_set S path (List (items @ [val])) s)"

definition set_add :: "'s Storage \<Rightarrow> DbPath \<Rightarrow> Value \<Rightarrow> 's \<Rightarrow> (NsError + unit) \<times> 's" where
  "set_add S path val s =
     try_at s (value_at as_set ''set'' [] S s path) (\<lambda>members.
       db_set S path (Set (set_insert val members)) s)"

definition tree_set :: "'s Storage \<Rightarrow> DbPath \<Rightarrow> Scalar \<Rightarrow> Value \<Rightarrow> 's \<Rightarrow> (NsError + unit) \<times> 's" where
  "tree_set S path key val s =
     try_at s (value_at as_tree ''tree'' [] S s path) (\<lambda>m.
       db_set S path (Tree (bt_insert key val m)) s)"

end
