(* ===== verification/Txn.thy ===== *)
theory Txn
  imports Namespace
begin

text \<open>
  Multi-operation transactions (\<open>crates/alefs-namespace/src/txn.rs\<close>): the operations run against a
  write overlay over the store, and the overlay becomes one batch that is committed at the end.
  An operation on the overlay that fails ends the transaction before anything is committed.
\<close>

datatype TxnOp =
    TMkdir DbPath
  | TSet DbPath Value
  | TDelete DbPath
  | THashSet DbPath string Value
  | TListPush DbPath Value
  | TSetAdd DbPath Value
  | TTreeSet DbPath Scalar Value

record 's Overlay =
  ov_store :: 's
  pending :: "(bytes, bytes option) btree"

definition ov_new :: "'s \<Rightarrow> 's Overlay" where
  "ov_new s = \<lparr>ov_store = s, pending = []\<rparr>"

definition ov_get :: "'s Storage \<Rightarrow> 's Overlay \<Rightarrow> bytes \<Rightarrow> NsError + bytes option" where
  "ov_get S ov key =
     (case bt_get (pending ov) key of
        Some v \<Rightarrow> Inr v
      | None \<Rightarrow> store_get S (ov_store ov) key)"

definition ov_put :: "bytes \<Rightarrow> bytes \<Rightarrow> 's Overlay \<Rightarrow> 's Overlay" where
  "ov_put key val ov = ov\<lparr>pending := bt_insert key (Some val) (pending ov)\<rparr>"

definition ov_delete :: "bytes \<Rightarrow> 's Overlay \<Rightarrow> 's Overlay" where
  "ov_delete key ov = ov\<lparr>pending := bt_insert key None (pending ov)\<rparr>"

definition scan_pending :: "bytes \<Rightarrow> bytes \<times> bytes option \<Rightarrow> kv \<Rightarrow> kv" where
  "scan_pending pre row m =
     (case row of (k, v) \<Rightarrow>
        if \<not> starts_with k pre then m
        else (case v of Some val \<Rightarrow> bt_insert k val m | None \<Rightarrow> bt_remove k m))"

definition ov_scan_prefix :: "'s Storage \<Rightarrow> 's Overlay \<Rightarrow> bytes \<Rightarrow> NsError + ScanRows" where
  "ov_scan_prefix S ov pre =
     and_then (store_scan_prefix S (ov_store ov) pre) (\<lambda>rows.
       Inr (fold (scan_pending pre) (pending ov) (fold (\<lambda>(k, v). bt_insert k v) rows [])))"

definition into_batch :: "'s Overlay \<Rightarrow> WriteBatch" where
  "into_batch ov =
     fold (\<lambda>(k, v) batch. case v of Some val \<Rightarrow> batch_put k val batch | None \<Rightarrow> batch_delete k batch)
       (pending ov) batch_new"

section \<open>Operations on the overlay\<close>

definition next_id_ov :: "'s Storage \<Rightarrow> 's Overlay \<Rightarrow> NsError + u64" where
  "next_id_ov S ov =
     and_then (ov_get S ov meta_next_id) (\<lambda>r.
     and_then (ok_or (Invalid ''missing next_id'') r) (\<lambda>raw.
       ok_or (Invalid ''bad next_id'') (decode_id raw)))"

definition resolve_ov :: "'s Storage \<Rightarrow> 's Overlay \<Rightarrow> DbPath \<Rightarrow> NsError + (u64 \<times> NodeRecord)" where
  "resolve_ov S ov path = resolve_with (ov_get S ov) path"

definition get_value_ov :: "'s Storage \<Rightarrow> 's Overlay \<Rightarrow> DbPath \<Rightarrow> NsError + Value" where
  "get_value_ov S ov path =
     and_then (resolve_ov S ov path) (\<lambda>(i, rec).
       case rec of
         NodeDir \<Rightarrow> Inl (IsDirectory (as_str path))
       | NodeValue enc \<Rightarrow> ns_decode enc)"

definition mkdir_ov :: "'s Storage \<Rightarrow> DbPath \<Rightarrow> 's Overlay \<Rightarrow> NsError + 's Overlay" where
  "mkdir_ov S path ov =
     (if is_root path then Inr ov
      else if is_ok (resolve_ov S ov path) then Inl (AlreadyExists (as_str path))
      else
     and_then (ok_or (Invalid ''no parent'') (path_parent path)) (\<lambda>parent.
     and_then (ok_or (Invalid ''no name'') (path_name path)) (\<lambda>name.
     and_then (parent_dir parent (resolve_ov S ov parent)) (\<lambda>parent_id.
     and_then (next_id_ov S ov) (\<lambda>i.
     let ov = ov_put meta_next_id (encode_id (i + 1)) ov;
         ov = ov_put (node_key i) encode_dir_node ov;
         ov = ov_put (child_key parent_id name) (encode_id i) ov;
         ov = ov_put (type_index_key ''directory'' i) (as_bytes (as_str path)) ov
     in Inr ov)))))"

definition set_ov :: "'s Storage \<Rightarrow> DbPath \<Rightarrow> Value \<Rightarrow> 's Overlay \<Rightarrow> NsError + 's Overlay" where
  "set_ov S path val ov =
     (if is_root path then Inl (Invalid ''cannot set value at root'')
      else
     and_then (ok_or (Invalid ''no parent'') (path_parent path)) (\<lambda>parent.
     and_then (ok_or (Invalid ''no name'') (path_name path)) (\<lambda>name.
     and_then (parent_dir parent (resolve_ov S ov parent)) (\<lambda>parent_id.
     let enc = encode val in
     and_then (ov_get S ov (child_key parent_id name)) (\<lambda>child.
     case child of
       Some raw \<Rightarrow>
         and_then (id_of raw) (\<lambda>i.
         and_then (ov_get S ov (node_key i)) (\<lambda>b.
         and_then (ok_or (Invalid ''missing node'') b) (\<lambda>existing.
         and_then (map_err Invalid (parse_node existing)) (\<lambda>rec.
         case rec of
           NodeDir \<Rightarrow> Inl (IsDirectory (as_str path))
         | NodeValue old_enc \<Rightarrow>
             and_then (ns_decode old_enc) (\<lambda>old.
             let old_ty = typename old;
                 new_ty = typename val;
                 ov = (if old_ty \<noteq> new_ty then ov_delete (type_index_key old_ty i) ov else ov);
                 ov = ov_put (node_key i) (encode_value_node enc) ov;
                 ov = ov_put (type_index_key new_ty i) (as_bytes (as_str path)) ov
             in Inr ov)))))
     | None \<Rightarrow>
         and_then (next_id_ov S ov) (\<lambda>i.
         let ov = ov_put meta_next_id (encode_id (i + 1)) ov;
             ov = ov_put (node_key i) (encode_value_node enc) ov;
             ov = ov_put (child_key parent_id name) (encode_id i) ov;
             ov = ov_put (type_index_key (typename val) i) (as_bytes (as_str path)) ov
         in Inr ov))))))"

definition delete_ov :: "'s Storage \<Rightarrow> DbPath \<Rightarrow> 's Overlay \<Rightarrow> NsError + 's Overlay" where
  "delete_ov S path ov =
     (if is_root path then Inl (Invalid ''cannot delete root'')
      else
     and_then (resolve_ov S ov path) (\<lambda>(i, rec).
     and_then
       (if rec = NodeDir then
          and_then (ov_scan_prefix S ov (child_prefix i)) (\<lambda>children.
            if children \<noteq> [] then Inl (Invalid (''directory not empty: '' @ as_str path)) else Inr ())
        else Inr ()) (\<lambda>_.
     let parent = DbPath (butlast (segments path)); name = last (segments path) in
     and_then (resolve_ov S ov parent) (\<lambda>(parent_id, _).
     and_then (node_type_name rec) (\<lambda>ty.
     let ov = ov_delete (type_index_key ty i) ov;
         ov = ov_delete (child_key parent_id name) ov;
         ov = ov_delete (node_key i) ov
     in Inr ov)))))"

text \<open>The match on \<open>get_value_ov\<close> that the four structure operations share.\<close>

definition value_ov :: "(Value \<Rightarrow> 'c option) \<Rightarrow> string \<Rightarrow> 'c \<Rightarrow> 's Storage \<Rightarrow> 's Overlay \<Rightarrow> DbPath \<Rightarrow> NsError + 'c" where
  "value_ov select what none S ov path =
     (case get_value_ov S ov path of
        Inr v \<Rightarrow> ok_or (TypeMismatch (as_str path @ '' is not a '' @ what)) (select v)
      | Inl e \<Rightarrow> (case e of NotFound _ \<Rightarrow> Inr none | _ \<Rightarrow> Inl e))"

fun apply_one :: "'s Storage \<Rightarrow> TxnOp \<Rightarrow> 's Overlay \<Rightarrow> NsError + 's Overlay" where
  "apply_one S (TMkdir path) ov = mkdir_ov S path ov"
| "apply_one S (TSet path val) ov = set_ov S path val ov"
| "apply_one S (TDelete path) ov = delete_ov S path ov"
| "apply_one S (THashSet path key val) ov =
     and_then (value_ov as_hash ''hash'' [] S ov path) (\<lambda>m. set_ov S path (Hash (bt_insert key val m)) ov)"
| "apply_one S (TListPush path val) ov =
     and_then (value_ov as_list ''list'' [] S ov path) (\<lambda>items. set_ov S path (List (items @ [val])) ov)"
| "apply_one S (TSetAdd path val) ov =
     and_then (value_ov as_set ''set'' [] S ov path) (\<lambda>members. set_ov S path (Set (set_insert val members)) ov)"
| "apply_one S (TTreeSet path key val) ov =
     and_then (value_ov as_tree ''tree'' [] S ov path) (\<lambda>m. set_ov S path (Tree (bt_insert key val m)) ov)"

fun apply_all :: "'s Storage \<Rightarrow> TxnOp list \<Rightarrow> 's Overlay \<Rightarrow> NsError + 's Overlay" where
  "apply_all S [] ov = Inr ov"
| "apply_all S (op # ops) ov = and_then (apply_one S op ov) (apply_all S ops)"

definition apply_txn :: "'s Storage \<Rightarrow> TxnOp list \<Rightarrow> 's \<Rightarrow> (NsError + unit) \<times> 's" where
  "apply_txn S ops s =
     (if ops = [] then (Inr (), s)
      else
        try_at s (apply_all S ops (ov_new s)) (\<lambda>ov.
        let batch = into_batch ov in
        if batch \<noteq> [] then store_commit S batch s else (Inr (), s)))"

end
