(* ===== verification/Ns_Spec.thy ===== *)
theory Ns_Spec
  imports Namespace
begin

text \<open>
  What the namespace means: a tree of directories and values, as a partial function from paths to
  nodes.  \<open>ns_rep T n f\<close> says that the key-value map \<open>f\<close> stores the tree \<open>T\<close> (in which every node
  also has its identifier) with next identifier \<open>n\<close>: node records, child links and type index are
  exactly those of the tree.  The lemmas give the effect of the three kinds of updates on the tree
  and the result of resolving a path.
\<close>

datatype ns_node = DirN | ValN (node_value: Value)

type_synonym ns_tree = "string list \<Rightarrow> ns_node option"
type_synonym id_tree = "string list \<Rightarrow> (u64 \<times> ns_node) option"
type_synonym kv_map = "bytes \<Rightarrow> bytes option"

fun node_type :: "ns_node \<Rightarrow> string" where
  "node_type DirN = ''directory''"
| "node_type (ValN v) = typename v"

fun node_bytes :: "ns_node \<Rightarrow> bytes" where
  "node_bytes DirN = encode_dir_node"
| "node_bytes (ValN v) = encode_value_node (encode v)"

fun node_rec :: "ns_node \<Rightarrow> NodeRecord" where
  "node_rec DirN = NodeDir"
| "node_rec (ValN v) = NodeValue (encode v)"

fun node_ok :: "ns_node \<Rightarrow> bool" where
  "node_ok DirN = True"
| "node_ok (ValN v) = (wf_value v \<and> canonical v)"

text \<open>A path as the parser builds it.\<close>

definition path_ok :: "string list \<Rightarrow> bool" where
  "path_ok p \<longleftrightarrow> wf_path (DbPath p) \<and> utf8_path (DbPath p)"

definition tree_ok :: "id_tree \<Rightarrow> bool" where
  "tree_ok T \<longleftrightarrow>
     T [] = Some (ROOT_ID, DirN)
   \<and> (\<forall>p x r. T (p @ [x]) = Some r \<longrightarrow> (\<exists>j. T p = Some (j, DirN)))
   \<and> (\<forall>p q i nd nd'. T p = Some (i, nd) \<longrightarrow> T q = Some (i, nd') \<longrightarrow> p = q)
   \<and> (\<forall>p i nd. T p = Some (i, nd) \<longrightarrow> path_ok p \<and> node_ok nd)"

definition nodes_rep :: "id_tree \<Rightarrow> kv_map \<Rightarrow> bool" where
  "nodes_rep T f \<longleftrightarrow>
     (\<forall>i b. f (node_key i) = Some b \<longleftrightarrow> (\<exists>p nd. T p = Some (i, nd) \<and> b = node_bytes nd))"

definition links_rep :: "id_tree \<Rightarrow> kv_map \<Rightarrow> bool" where
  "links_rep T f \<longleftrightarrow>
     (\<forall>i x b. f (child_key i x) = Some b \<longleftrightarrow>
        (\<exists>p nd j nd'. T p = Some (i, nd) \<and> T (p @ [x]) = Some (j, nd') \<and> b = encode_id j))"

definition index_rep :: "id_tree \<Rightarrow> kv_map \<Rightarrow> bool" where
  "index_rep T f \<longleftrightarrow>
     (\<forall>t i b. f (type_index_key t i) = Some b \<longleftrightarrow>
        (\<exists>p nd. T p = Some (i, nd) \<and> t = node_type nd \<and> b = as_bytes (as_str (DbPath p))))
   \<and> (\<forall>k b. starts_with k idx_prefix \<longrightarrow> f k = Some b \<longrightarrow> (\<exists>t i. k = type_index_key t i))"

definition ids_rep :: "id_tree \<Rightarrow> u64 \<Rightarrow> kv_map \<Rightarrow> bool" where
  "ids_rep T n f \<longleftrightarrow> f meta_next_id = Some (encode_id n) \<and> (\<forall>p i nd. T p = Some (i, nd) \<longrightarrow> i < n)"

text \<open>The directory graph alone, without identifiers to come and without the type index.\<close>

definition graph_rep :: "id_tree \<Rightarrow> kv_map \<Rightarrow> bool" where
  "graph_rep T f \<longleftrightarrow> tree_ok T \<and> nodes_rep T f \<and> links_rep T f"

definition ns_rep :: "id_tree \<Rightarrow> u64 \<Rightarrow> kv_map \<Rightarrow> bool" where
  "ns_rep T n f \<longleftrightarrow> tree_ok T \<and> ids_rep T n f \<and> nodes_rep T f \<and> links_rep T f \<and> index_rep T f"

section \<open>Trees\<close>

lemma tree_root: "tree_ok T \<Longrightarrow> T [] = Some (ROOT_ID, DirN)"
  by (simp add: tree_ok_def)

lemma tree_parent: "tree_ok T \<Longrightarrow> T (p @ [x]) = Some r \<Longrightarrow> \<exists>j. T p = Some (j, DirN)"
  unfolding tree_ok_def by blast

lemma tree_inj: "tree_ok T \<Longrightarrow> T p = Some (i, nd) \<Longrightarrow> T q = Some (i, nd') \<Longrightarrow> p = q"
  unfolding tree_ok_def by blast

lemma tree_node: "tree_ok T \<Longrightarrow> T p = Some (i, nd) \<Longrightarrow> path_ok p \<and> node_ok nd"
  unfolding tree_ok_def by blast

lemma tree_no_child: "tree_ok T \<Longrightarrow> T p = None \<Longrightarrow> T (p @ q) = None"
proof (induction q rule: rev_induct)
  case (snoc x q)
  then show ?case using tree_parent [of T "p @ q" x] by (cases "T (p @ q @ [x])") auto
qed simp

lemma tree_value_leaf: "tree_ok T \<Longrightarrow> T p = Some (i, ValN v) \<Longrightarrow> T (p @ [x]) = None"
  using tree_parent [of T p x] by (cases "T (p @ [x])") auto

lemma node_type_no_slash [simp]: "slash \<notin> set (node_type nd)"
  by (cases nd) simp_all

lemma parse_node_bytes [simp]: "parse_node (node_bytes nd) = Inr (node_rec nd)"
  by (cases nd) simp_all

lemma tree_ok_put:
  assumes "tree_ok T" "T q = Some (j, DirN)" "path_ok (q @ [x])" "node_ok nd"
    and "\<forall>p nd'. T p = Some (i, nd') \<longrightarrow> p = q @ [x]"
    and "nd = DirN \<or> (\<forall>y. T ((q @ [x]) @ [y]) = None)"
  shows "tree_ok (T(q @ [x] \<mapsto> (i, nd)))"
  unfolding tree_ok_def
proof (intro conjI allI impI)
  let ?T = "T(q @ [x] \<mapsto> (i, nd))"
  show "?T [] = Some (ROOT_ID, DirN)" using tree_root [OF assms(1)] by simp
  show "\<exists>j. ?T p = Some (j, DirN)" if "?T (p @ [y]) = Some r" for p y r
  proof (cases "p @ [y] = q @ [x]")
    case True
    then show ?thesis using assms(2) by auto
  next
    case False
    then have ty: "T (p @ [y]) = Some r" using that by (auto split: if_splits)
    then obtain j' where j': "T p = Some (j', DirN)" using tree_parent [OF assms(1)] by blast
    show ?thesis
    proof (cases "p = q @ [x]")
      case True
      then have "nd = DirN" using assms(6) ty by auto
      then show ?thesis using True by simp
    qed (use j' in simp)
  qed
  show "p = p'" if "?T p = Some (k, m)" "?T p' = Some (k, m')" for p p' k m m'
    using that assms(5) tree_inj [OF assms(1)] by (auto split: if_splits)
  show "path_ok p" "node_ok m" if "?T p = Some (k, m)" for p k m
    using that assms(3,4) tree_node [OF assms(1)] by (auto split: if_splits)
qed

lemma tree_ok_remove:
  assumes "tree_ok T" "p \<noteq> []" "\<forall>y. T (p @ [y]) = None"
  shows "tree_ok (T(p := None))"
  unfolding tree_ok_def
proof (intro conjI allI impI)
  let ?T = "T(p := None)"
  show "?T [] = Some (ROOT_ID, DirN)" using tree_root [OF assms(1)] assms(2) by simp
  show "\<exists>j. ?T q = Some (j, DirN)" if "?T (q @ [y]) = Some r" for q y r
  proof -
    have "T (q @ [y]) = Some r" using that by (auto split: if_splits)
    then show ?thesis using tree_parent [OF assms(1)] assms(3) by (cases "q = p") auto
  qed
  show "q = q'" if "?T q = Some (k, m)" "?T q' = Some (k, m')" for q q' k m m'
    using that tree_inj [OF assms(1)] by (auto split: if_splits)
  show "path_ok q" "node_ok m" if "?T q = Some (k, m)" for q k m
    using that tree_node [OF assms(1)] by (auto split: if_splits)
qed

section \<open>Resolving paths in a stored tree\<close>

lemma nodes_repD: "nodes_rep T f \<Longrightarrow> T p = Some (i, nd) \<Longrightarrow> f (node_key i) = Some (node_bytes nd)"
  unfolding nodes_rep_def by blast

lemma links_repD:
  "links_rep T f \<Longrightarrow> T p = Some (i, nd) \<Longrightarrow> T (p @ [x]) = Some (j, nd') \<Longrightarrow>
   f (child_key i x) = Some (encode_id j)"
  unfolding links_rep_def by blast

lemma links_rep_None:
  assumes "links_rep T f" "tree_ok T" "T p = Some (i, nd)" "T (p @ [x]) = None"
  shows "f (child_key i x) = None"
proof (rule ccontr)
  assume "f (child_key i x) \<noteq> None"
  then obtain q m j m' where "T q = Some (i, m)" "T (q @ [x]) = Some (j, m')"
    using assms(1) unfolding links_rep_def by blast
  with tree_inj [OF assms(2,3)] assms(4) show False by force
qed

lemma links_rep_lookup:
  assumes "links_rep T f" "tree_ok T" "T p = Some (i, nd)"
  shows "f (child_key i x) = map_option (\<lambda>(j, _). encode_id j) (T (p @ [x]))"
  using links_repD [OF assms(1,3)] links_rep_None [OF assms] by (cases "T (p @ [x])") auto

lemma resolve_segments_rep:
  assumes "tree_ok T" "links_rep T f"
  shows "T p = Some (i, nd) \<Longrightarrow>
    resolve_segments (\<lambda>k. Inr (f k)) whole i segs
    = (case T (p @ segs) of None \<Rightarrow> Inl (NotFound whole) | Some (j, _) \<Rightarrow> Inr j)"
proof (induction segs arbitrary: p i nd)
  case (Cons x segs)
  note l = links_rep_lookup [OF assms(2,1) Cons.prems, of x]
  show ?case
  proof (cases "T (p @ [x])")
    case None
    then show ?thesis using l tree_no_child [OF assms(1) None, of segs] by simp
  next
    case (Some r)
    obtain j m where "r = (j, m)" by fastforce
    then show ?thesis using l Some Cons.IH [of "p @ [x]" j m] by (simp add: id_of_def)
  qed
qed simp

lemma resolve_rep:
  assumes "tree_ok T" "nodes_rep T f" "links_rep T f"
  shows "resolve_with (\<lambda>k. Inr (f k)) path =
    (case T (segments path) of
       None \<Rightarrow> Inl (NotFound (as_str path))
     | Some (i, nd) \<Rightarrow> Inr (i, node_rec nd))"
proof (cases "is_root path")
  case True
  then show ?thesis
    using tree_root [OF assms(1)] nodes_repD [OF assms(2) tree_root [OF assms(1)]]
    by (simp add: resolve_with_def is_root_def del: node_bytes.simps)
next
  case False
  note r = resolve_segments_rep [OF assms(1,3) tree_root [OF assms(1)], of "as_str path" "segments path"]
  show ?thesis
  proof (cases "T (segments path)")
    case None
    then show ?thesis using False r by (simp add: resolve_with_def)
  next
    case (Some n)
    obtain i nd where "n = (i, nd)" by fastforce
    then show ?thesis using False r Some nodes_repD [OF assms(2)] by (simp add: resolve_with_def)
  qed
qed

section \<open>Updates of a stored tree\<close>

lemma unat_succ:
  assumes "(n :: u64) \<noteq> - 1"
  shows "unat (n + 1) = unat n + 1"
proof -
  have "n < - 1" using assms by (simp add: word_order.not_eq_extremum)
  then have "unat n < 2 ^ 64 - 1" by (simp add: word_less_nat_alt unsigned_minus_1_eq_mask mask_eq_exp_minus_1)
  then show ?thesis by (simp add: unat_word_ariths)
qed

lemma unat_minus_1: "unat (- 1 :: u64) = 2 ^ 64 - 1"
  by (simp add: unsigned_minus_1_eq_mask mask_eq_exp_minus_1)

lemma less_succ: "(n :: u64) \<noteq> - 1 \<Longrightarrow> n < n + 1"
  by (simp add: word_less_nat_alt unat_succ)

lemma upd_other:
  "j \<noteq> i \<Longrightarrow> \<forall>r. T q = Some r \<longrightarrow> fst r = i \<Longrightarrow>
   (T(q \<mapsto> (i, nd))) p = Some (j, m) \<longleftrightarrow> T p = Some (j, m)"
  by auto

lemma upd_same:
  "\<forall>p nd'. T p = Some (i, nd') \<longrightarrow> p = q \<Longrightarrow>
   (T(q \<mapsto> (i, nd))) p = Some (i, m) \<longleftrightarrow> p = q \<and> m = nd"
  by auto

lemma nodes_rep_put:
  assumes "nodes_rep T f" "\<forall>p nd'. T p = Some (i, nd') \<longrightarrow> p = q"
    and "\<forall>r. T q = Some r \<longrightarrow> fst r = i"
    and "\<And>k. f' (node_key k) = (f(node_key i \<mapsto> node_bytes nd)) (node_key k)"
  shows "nodes_rep (T(q \<mapsto> (i, nd))) f'"
  unfolding nodes_rep_def
proof (intro allI)
  fix k b
  show "f' (node_key k) = Some b \<longleftrightarrow> (\<exists>p m. (T(q \<mapsto> (i, nd))) p = Some (k, m) \<and> b = node_bytes m)"
    using assms(1) unfolding nodes_rep_def assms(4) fun_upd_apply [of f]
    by (cases "k = i") (auto simp: upd_same [OF assms(2)] upd_other [where T = T and q = q and i = i, OF _ assms(3)] simp del: fun_upd_apply)
qed

lemma index_rep_put:
  assumes r: "index_rep T f" and u: "\<forall>p nd'. T p = Some (i, nd') \<longrightarrow> p = q"
    and o: "\<forall>r. T q = Some r \<longrightarrow> fst r = i \<and> old = Some (node_type (snd r))"
    and f': "\<And>k. starts_with k idx_prefix \<Longrightarrow>
      f' k = ((case old of None \<Rightarrow> f | Some t \<Rightarrow> f(type_index_key t i := None))
                (type_index_key (node_type nd) i \<mapsto> as_bytes (as_str (DbPath q)))) k"
  shows "index_rep (T(q \<mapsto> (i, nd))) f'"
  unfolding index_rep_def
proof (intro conjI allI impI)
  have st: "starts_with (type_index_key t j) idx_prefix" for t j by simp
  have r1: "f (type_index_key t j) = Some b \<longleftrightarrow>
      (\<exists>p m. T p = Some (j, m) \<and> t = node_type m \<and> b = as_bytes (as_str (DbPath p)))" for t j b
    using r unfolding index_rep_def by blast
  show "f' (type_index_key t j) = Some b \<longleftrightarrow>
      (\<exists>p m. (T(q \<mapsto> (i, nd))) p = Some (j, m) \<and> t = node_type m \<and> b = as_bytes (as_str (DbPath p)))"
    for t j b
  proof (cases "j = i")
    case True
    have "f (type_index_key t i) = None" if "old \<noteq> Some t"
    proof (rule ccontr)
      assume "f (type_index_key t i) \<noteq> None"
      then obtain p m where "T p = Some (i, m)" "t = node_type m" using r1 by blast
      with u o that show False by force
    qed
    then have "f' (type_index_key t i) = (if t = node_type nd then Some (as_bytes (as_str (DbPath q))) else None)"
      using f' [OF st, of t i] by (auto split: option.splits)
    moreover have "(\<exists>p m. (T(q \<mapsto> (i, nd))) p = Some (i, m) \<and> t = node_type m \<and> b = as_bytes (as_str (DbPath p)))
        \<longleftrightarrow> t = node_type nd \<and> b = as_bytes (as_str (DbPath q))"
      using u by (auto split: if_splits)
    ultimately show ?thesis using True by auto
  next
    case False
    then have "f' (type_index_key t j) = f (type_index_key t j)"
      using f' [OF st, of t j] by (auto split: option.splits)
    moreover have "(\<exists>p m. (T(q \<mapsto> (i, nd))) p = Some (j, m) \<and> t = node_type m \<and> b = as_bytes (as_str (DbPath p)))
        \<longleftrightarrow> (\<exists>p m. T p = Some (j, m) \<and> t = node_type m \<and> b = as_bytes (as_str (DbPath p)))"
    proof -
      have "\<forall>r. T q = Some r \<longrightarrow> fst r = i" using o by blast
      then show ?thesis by (simp only: upd_other [OF False])
    qed
    ultimately show ?thesis using r1 by simp
  qed
  show "\<exists>t j. k = type_index_key t j" if "starts_with k idx_prefix" "f' k = Some b" for k b
  proof (cases "k = type_index_key (node_type nd) i")
    case False
    then have "f k = Some b"
      using f' [OF that(1)] that(2) by (auto split: option.splits if_splits)
    then show ?thesis using r that(1) unfolding index_rep_def by blast
  qed blast
qed

text \<open>A new node: the next identifier, a node record, a link from its parent and an index entry.\<close>

definition put_new :: "u64 \<Rightarrow> string list \<Rightarrow> u64 \<Rightarrow> ns_node \<Rightarrow> kv_map \<Rightarrow> kv_map" where
  "put_new j p n nd f =
     f(meta_next_id \<mapsto> encode_id (n + 1), node_key n \<mapsto> node_bytes nd,
       child_key j (last p) \<mapsto> encode_id n,
       type_index_key (node_type nd) n \<mapsto> as_bytes (as_str (DbPath p)))"

text \<open>A new value in an existing node: the old index entry goes, the record and index are rewritten.\<close>

definition put_value :: "u64 \<Rightarrow> string list \<Rightarrow> Value \<Rightarrow> Value \<Rightarrow> kv_map \<Rightarrow> kv_map" where
  "put_value i p old v f =
     f(type_index_key (typename old) i := None, node_key i \<mapsto> node_bytes (ValN v),
       type_index_key (typename v) i \<mapsto> as_bytes (as_str (DbPath p)))"

definition drop_node :: "u64 \<Rightarrow> string list \<Rightarrow> u64 \<Rightarrow> ns_node \<Rightarrow> kv_map \<Rightarrow> kv_map" where
  "drop_node j p i nd f =
     f(type_index_key (node_type nd) i := None, child_key j (last p) := None, node_key i := None)"

lemma ns_rep_put_new:
  assumes r: "ns_rep T n f" and n: "n \<noteq> - 1" and q: "T q = Some (j, DirN)" "T (q @ [x]) = None"
    and ok: "path_ok (q @ [x])" "node_ok nd"
  shows "ns_rep (T(q @ [x] \<mapsto> (n, nd))) (n + 1) (put_new j (q @ [x]) n nd f)"
proof -
  let ?T = "T(q @ [x] \<mapsto> (n, nd))" and ?f = "put_new j (q @ [x]) n nd f"
  have t: "tree_ok T" and i: "ids_rep T n f" and d: "nodes_rep T f" and l: "links_rep T f" and x: "index_rep T f"
    using r by (simp_all add: ns_rep_def)
  have fresh: "T p \<noteq> Some (n, m)" for p m using i unfolding ids_rep_def by blast
  have lt: "n < n + 1" using n by (rule less_succ)
  have leaf: "T (q @ [x, y]) = None" for y using tree_no_child [OF t q(2), of "[y]"] by simp
  have "tree_ok ?T" using tree_ok_put [OF t q(1) ok] fresh leaf by simp
  moreover have "ids_rep ?T (n + 1) ?f"
    using i lt unfolding ids_rep_def put_new_def by (auto intro: less_trans)
  moreover have "nodes_rep ?T ?f"
    by (rule nodes_rep_put [OF d]) (use fresh q(2) in \<open>simp_all add: put_new_def\<close>)
  moreover have "index_rep ?T ?f"
    by (rule index_rep_put [OF x, where old = None])
      (use fresh q(2) in \<open>auto simp: put_new_def\<close>)
  moreover have "links_rep ?T ?f"
    unfolding links_rep_def
  proof (intro allI)
    fix k y b
    show "?f (child_key k y) = Some b \<longleftrightarrow>
        (\<exists>p m j' m'. ?T p = Some (k, m) \<and> ?T (p @ [y]) = Some (j', m') \<and> b = encode_id j')"
      (is "_ \<longleftrightarrow> ?R")
    proof (cases "\<exists>p m. ?T p = Some (k, m)")
      case False
      then have "\<nexists>p m. T p = Some (k, m)" using q(2) by (metis fun_upd_other option.distinct(1))
      then have "f (child_key k y) = None" using l unfolding links_rep_def by (metis option.exhaust)
      moreover have "k \<noteq> j" using False q by (metis fun_upd_apply option.distinct(1))
      ultimately show ?thesis using False by (auto simp: put_new_def)
    next
      case True
      then obtain p m where p: "?T p = Some (k, m)" by blast
      have R: "?R \<longleftrightarrow> (\<exists>j' m'. ?T (p @ [y]) = Some (j', m') \<and> b = encode_id j')"
        using p tree_inj [OF \<open>tree_ok ?T\<close>] by metis
      show ?thesis
      proof (cases "p = q @ [x]")
        case True
        then have "k = n" using p by simp
        then have "k \<noteq> j" using fresh q by metis
        moreover have "f (child_key k y) = None"
          using l fresh \<open>k = n\<close> unfolding links_rep_def by (metis option.exhaust)
        ultimately show ?thesis using R True leaf by (simp add: put_new_def)
      next
        case False
        then have tp: "T p = Some (k, m)" using p by simp
        have kj: "k = j \<longleftrightarrow> p = q" using tp q(1) tree_inj [OF t] by auto
        have "?f (child_key k y) = map_option (\<lambda>(j', _). encode_id j') (?T (p @ [y]))"
          using links_rep_lookup [OF l t tp, of y] kj by (simp add: put_new_def)
        then show ?thesis using R by (cases "?T (p @ [y])") auto
      qed
    qed
  qed
  ultimately show ?thesis by (simp add: ns_rep_def)
qed

lemma links_rep_retag:
  assumes "links_rep T f" "T p = Some (i, nd)" "\<And>k y. f' (child_key k y) = f (child_key k y)"
  shows "links_rep (T(p \<mapsto> (i, nd'))) f'"
proof -
  have e: "(\<exists>m. (T(p \<mapsto> (i, nd'))) q = Some (k, m)) \<longleftrightarrow> (\<exists>m. T q = Some (k, m))" for q k
    using assms(2) by auto
  show ?thesis
    unfolding links_rep_def assms(3)
  proof (intro allI)
    fix k y b
    have "(\<exists>q j. (\<exists>m. T q = Some (k, m)) \<and> (\<exists>m'. T (q @ [y]) = Some (j, m')) \<and> b = encode_id j)
        \<longleftrightarrow> f (child_key k y) = Some b"
      using assms(1) unfolding links_rep_def by blast
    then show "f (child_key k y) = Some b \<longleftrightarrow> (\<exists>q m j m'. (T(p \<mapsto> (i, nd'))) q = Some (k, m)
        \<and> (T(p \<mapsto> (i, nd'))) (q @ [y]) = Some (j, m') \<and> b = encode_id j)"
      unfolding e [symmetric] by blast
  qed
qed

lemma ns_rep_put_value:
  assumes r: "ns_rep T n f" and p: "T p = Some (i, ValN old)" and ok: "node_ok (ValN v)"
  shows "ns_rep (T(p \<mapsto> (i, ValN v))) n (put_value i p old v f)"
proof -
  let ?T = "T(p \<mapsto> (i, ValN v))" and ?f = "put_value i p old v f"
  have t: "tree_ok T" and i: "ids_rep T n f" and d: "nodes_rep T f" and l: "links_rep T f" and x: "index_rep T f"
    using r by (simp_all add: ns_rep_def)
  obtain q y where py: "p = q @ [y]" using p tree_root [OF t] by (cases p rule: rev_cases) auto
  obtain j where q: "T q = Some (j, DirN)" using tree_parent [OF t] p py by blast
  have u: "\<forall>p' m. T p' = Some (i, m) \<longrightarrow> p' = p" using tree_inj [OF t _ p] by blast
  have leaf: "\<forall>z. T ((q @ [y]) @ [z]) = None" using tree_value_leaf [OF t p] py by simp
  have "tree_ok ?T"
    unfolding py using tree_ok_put [OF t q, of y "ValN v" i] tree_node [OF t p] ok u leaf py by blast
  moreover have "ids_rep ?T n ?f" using i p unfolding ids_rep_def put_value_def by auto
  moreover have "nodes_rep ?T ?f"
    by (rule nodes_rep_put [OF d u]) (use p in \<open>simp_all add: put_value_def\<close>)
  moreover have "links_rep ?T ?f"
    by (rule links_rep_retag [OF l p]) (simp add: put_value_def)
  moreover have "index_rep ?T ?f"
    by (rule index_rep_put [OF x u, where old = "Some (typename old)"])
      (use p in \<open>auto simp: put_value_def\<close>)
  ultimately show ?thesis by (simp add: ns_rep_def)
qed

lemma ns_rep_drop_node:
  assumes r: "ns_rep T n f" and p: "T (q @ [x]) = Some (i, nd)" and q: "T q = Some (j, m)"
    and leaf: "\<forall>y. T ((q @ [x]) @ [y]) = None"
  shows "ns_rep (T(q @ [x] := None)) n (drop_node j (q @ [x]) i nd f)"
proof -
  let ?T = "T(q @ [x] := None)" and ?f = "drop_node j (q @ [x]) i nd f"
  have t: "tree_ok T" and i: "ids_rep T n f" and d: "nodes_rep T f" and l: "links_rep T f" and ix: "index_rep T f"
    using r by (simp_all add: ns_rep_def)
  have u: "T p' = Some (i, m') \<longleftrightarrow> p' = q @ [x] \<and> m' = nd" for p' m'
    using tree_inj [OF t _ p, of p' m'] p by (cases "p' = q @ [x]") auto
  have T': "?T p' = Some (k, m') \<longleftrightarrow> T p' = Some (k, m') \<and> k \<noteq> i" for p' k m'
    by (cases "p' = q @ [x]") (use p u [of p' m'] in auto)
  have "tree_ok ?T" using tree_ok_remove [OF t _ leaf] by simp
  moreover have "ids_rep ?T n ?f" using i unfolding ids_rep_def drop_node_def by auto
  moreover have "nodes_rep ?T ?f"
    using d unfolding nodes_rep_def T' drop_node_def by auto
  moreover have "index_rep ?T ?f"
    unfolding index_rep_def
  proof (intro conjI allI impI)
    fix t k b
    show "?f (type_index_key t k) = Some b \<longleftrightarrow>
      (\<exists>p m. ?T p = Some (k, m) \<and> t = node_type m \<and> b = as_bytes (as_str (DbPath p)))"
    proof (cases "k = i")
      case True
      have "f (type_index_key t i) = None" if "t \<noteq> node_type nd"
        using ix that u unfolding index_rep_def by (metis option.exhaust)
      with True show ?thesis unfolding T' by (auto simp: drop_node_def)
    next
      case False
      then show ?thesis using ix unfolding T' index_rep_def by (simp add: drop_node_def)
    qed
  next
    fix k b assume "starts_with k idx_prefix" "?f k = Some b"
    then show "\<exists>t j. k = type_index_key t j"
      using ix unfolding index_rep_def drop_node_def by (auto split: if_splits)
  qed
  moreover have "links_rep ?T ?f"
    unfolding links_rep_def
  proof (intro allI)
    fix k y b
    show "?f (child_key k y) = Some b \<longleftrightarrow>
      (\<exists>p m j' m'. ?T p = Some (k, m) \<and> ?T (p @ [y]) = Some (j', m') \<and> b = encode_id j')"
    proof (cases "k = j \<and> y = x")
      case True
      have "\<not> (T p' = Some (k, m') \<and> T (p' @ [y]) = Some (j', m'') \<and> j' \<noteq> i)" for p' m' j' m''
      proof
        assume a: "T p' = Some (k, m') \<and> T (p' @ [y]) = Some (j', m'') \<and> j' \<noteq> i"
        then have "p' = q" using True tree_inj [OF t _ q] by blast
        with a p True show False by auto
      qed
      moreover have "?f (child_key k y) = None" using True by (simp add: drop_node_def)
      ultimately show ?thesis unfolding T' by auto
    next
      case False
      have "T p' = Some (k, m') \<Longrightarrow> T (p' @ [y]) = Some (j', m'') \<Longrightarrow> k \<noteq> i \<and> j' \<noteq> i" for p' m' j' m''
        using u leaf False q by auto
      then have "(\<exists>p m j' m'. (T p = Some (k, m) \<and> k \<noteq> i) \<and> (T (p @ [y]) = Some (j', m') \<and> j' \<noteq> i) \<and> b = encode_id j')
          \<longleftrightarrow> f (child_key k y) = Some b"
        using l unfolding links_rep_def by blast
      moreover have "?f (child_key k y) = f (child_key k y)" using False by (auto simp: drop_node_def)
      ultimately show ?thesis unfolding T' by simp
    qed
  qed
  ultimately show ?thesis by (simp add: ns_rep_def)
qed

section \<open>The abstract operations\<close>

definition abs_tree :: "id_tree \<Rightarrow> ns_tree" where
  "abs_tree T p = map_option snd (T p)"

text \<open>The key-value map \<open>f\<close> stores the tree \<open>t\<close>, and \<open>n\<close> is the next identifier.\<close>

definition stores :: "ns_tree \<Rightarrow> u64 \<Rightarrow> kv_map \<Rightarrow> bool" where
  "stores t n f \<longleftrightarrow> (\<exists>T. ns_rep T n f \<and> t = abs_tree T)"

definition spec_get :: "DbPath \<Rightarrow> ns_tree \<Rightarrow> NsError + ns_node" where
  "spec_get path t = ok_or (NotFound (as_str path)) (t (segments path))"

text \<open>The checks that \<open>mkdir\<close> and \<open>set\<close> make of the parent.\<close>

definition spec_parent :: "DbPath \<Rightarrow> ns_tree \<Rightarrow> NsError + unit" where
  "spec_parent path t =
     (let parent = DbPath (butlast (segments path)) in
      case t (segments parent) of
        None \<Rightarrow> Inl (ParentMissing (as_str parent))
      | Some (ValN _) \<Rightarrow> Inl (NotDirectory (as_str parent))
      | Some DirN \<Rightarrow> Inr ())"

definition spec_mkdir :: "DbPath \<Rightarrow> ns_tree \<Rightarrow> NsError + ns_tree" where
  "spec_mkdir path t =
     (if is_root path then Inr t
      else if t (segments path) \<noteq> None then Inl (AlreadyExists (as_str path))
      else and_then (spec_parent path t) (\<lambda>_. Inr (t(segments path \<mapsto> DirN))))"

definition spec_set :: "DbPath \<Rightarrow> Value \<Rightarrow> ns_tree \<Rightarrow> NsError + ns_tree" where
  "spec_set path v t =
     (if is_root path then Inl (Invalid ''cannot set value at root'')
      else and_then (spec_parent path t) (\<lambda>_.
        if t (segments path) = Some DirN then Inl (IsDirectory (as_str path))
        else Inr (t(segments path \<mapsto> ValN (canon v)))))"

definition spec_delete :: "DbPath \<Rightarrow> ns_tree \<Rightarrow> NsError + ns_tree" where
  "spec_delete path t =
     (if is_root path then Inl (Invalid ''cannot delete root'')
      else and_then (spec_get path t) (\<lambda>nd.
        if nd = DirN \<and> (\<exists>x. t (segments path @ [x]) \<noteq> None)
        then Inl (Invalid (''directory not empty: '' @ as_str path))
        else Inr (t(segments path := None))))"

section \<open>Facts about stored trees\<close>

lemma abs_tree_upd [simp]: "abs_tree (T(p \<mapsto> (i, nd))) = (abs_tree T)(p \<mapsto> nd)"
  "abs_tree (T(p := None)) = (abs_tree T)(p := None)"
  by (auto simp: abs_tree_def fun_eq_iff)

lemma abs_tree_None [simp]: "abs_tree T p = None \<longleftrightarrow> T p = None"
  by (simp add: abs_tree_def)

lemma abs_tree_Some: "abs_tree T p = Some nd \<longleftrightarrow> (\<exists>i. T p = Some (i, nd))"
  by (auto simp: abs_tree_def)

lemma spec_parent_Inr [simp]: "spec_parent path t = Inr u \<longleftrightarrow> t (butlast (segments path)) = Some DirN"
  by (auto simp: spec_parent_def Let_def split: option.splits ns_node.splits)

lemma spec_mkdir_Inr:
  "\<not> is_root path \<Longrightarrow> spec_mkdir path t = Inr t' \<longleftrightarrow>
   t (segments path) = None \<and> t (butlast (segments path)) = Some DirN \<and> t' = t(segments path \<mapsto> DirN)"
  by (auto simp: spec_mkdir_def and_then_Inr_iff)

lemma spec_set_Inr:
  "\<not> is_root path \<Longrightarrow> spec_set path v t = Inr t' \<longleftrightarrow>
   t (segments path) \<noteq> Some DirN \<and> t (butlast (segments path)) = Some DirN
   \<and> t' = t(segments path \<mapsto> ValN (canon v))"
  by (auto simp: spec_set_def and_then_Inr_iff)

lemma spec_delete_Inr:
  "\<not> is_root path \<Longrightarrow> spec_delete path t = Inr t' \<longleftrightarrow>
   (\<exists>nd. t (segments path) = Some nd \<and> (nd = DirN \<longrightarrow> (\<forall>x. t (segments path @ [x]) = None)))
   \<and> t' = t(segments path := None)"
  by (auto simp: spec_delete_def spec_get_def and_then_Inr_iff)

lemma ns_rep_parts:
  assumes "ns_rep T n f"
  shows "tree_ok T" "ids_rep T n f" "nodes_rep T f" "links_rep T f" "index_rep T f"
  using assms by (simp_all add: ns_rep_def)

lemma ns_rep_graph: "ns_rep T n f \<Longrightarrow> graph_rep T f"
  by (simp add: ns_rep_def graph_rep_def)

lemma ns_rep_iff: "ns_rep T n f \<longleftrightarrow> graph_rep T f \<and> ids_rep T n f \<and> index_rep T f"
  by (auto simp: ns_rep_def graph_rep_def)

lemma resolve_graph_rep:
  "graph_rep T f \<Longrightarrow> resolve_with (\<lambda>k. Inr (f k)) path =
    (case T (segments path) of None \<Rightarrow> Inl (NotFound (as_str path)) | Some (i, nd) \<Rightarrow> Inr (i, node_rec nd))"
  by (simp add: graph_rep_def resolve_rep)

lemma resolve_ns_rep:
  "ns_rep T n f \<Longrightarrow> resolve_with (\<lambda>k. Inr (f k)) path =
    (case T (segments path) of None \<Rightarrow> Inl (NotFound (as_str path)) | Some (i, nd) \<Rightarrow> Inr (i, node_rec nd))"
  using resolve_rep ns_rep_parts by metis

lemma resolve_stores:
  assumes "stores t n f"
  shows "(case resolve_with (\<lambda>k. Inr (f k)) path of Inl e \<Rightarrow> Inl e | Inr (i, rec) \<Rightarrow> Inr rec)
         = (case spec_get path t of Inl e \<Rightarrow> Inl e | Inr nd \<Rightarrow> Inr (node_rec nd))"
  using assms by (auto simp: stores_def resolve_ns_rep spec_get_def abs_tree_def split: option.splits)

lemma parent_dir_refused:
  assumes "stores t n f" "spec_parent path t = Inl e"
  shows "parent_dir (DbPath (butlast (segments path)))
    (resolve_with (\<lambda>k. Inr (f k)) (DbPath (butlast (segments path)))) = Inl e"
  using assms
  by (auto simp: stores_def resolve_ns_rep spec_parent_def abs_tree_def missing_parent_def parent_dir_def
      Let_def split: option.splits ns_node.splits)

lemma node_bytes_canon [simp]: "node_bytes (ValN (canon v)) = encode_value_node (encode v)"
  by (simp add: encode_def encode_canon)

lemma node_ok_canon [simp]: "wf_value v \<Longrightarrow> node_ok (ValN (canon v))"
  by (simp add: wf_canon canonical_canon)

lemma node_ok_decode: "node_ok (ValN v) \<Longrightarrow> ns_decode (encode v) = Inr v"
  by (simp add: ns_decode_def decode_encode_canon canon_id)

lemma nonroot_path: "\<not> is_root path \<Longrightarrow> segments path = butlast (segments path) @ [last (segments path)]"
  by (simp add: is_root_def)

text \<open>
  What the three mutations find and do in the key-value map, in the form in which both the direct
  operations and the transaction overlay use it.
\<close>

lemma mkdir_core:
  assumes st: "stores t n f" and n: "n \<noteq> - 1" and ok: "path_ok (segments path)"
    and nr: "\<not> is_root path" and sp: "spec_mkdir path t = Inr t'"
  obtains j where
    "parent_dir (DbPath (butlast (segments path))) (resolve_with (\<lambda>k. Inr (f k)) (DbPath (butlast (segments path)))) = Inr j"
    "resolve_with (\<lambda>k. Inr (f k)) path = Inl (NotFound (as_str path))"
    "f meta_next_id = Some (encode_id n)"
    "stores t' (n + 1) (put_new j (segments path) n DirN f)"
proof -
  obtain T where T: "ns_rep T n f" "t = abs_tree T" using st by (auto simp: stores_def)
  let ?q = "butlast (segments path)" and ?x = "last (segments path)"
  note p = nonroot_path [OF nr]
  have a: "T (segments path) = None" and t': "t' = t(segments path \<mapsto> DirN)"
    using sp T(2) by (simp_all add: spec_mkdir_Inr [OF nr])
  obtain j where j: "T ?q = Some (j, DirN)"
    using sp T(2) by (auto simp: spec_mkdir_Inr [OF nr] abs_tree_Some)
  have "ns_rep (T(?q @ [?x] \<mapsto> (n, DirN))) (n + 1) (put_new j (?q @ [?x]) n DirN f)"
    using T(1) n j a ok p by (intro ns_rep_put_new) simp_all
  then have "stores t' (n + 1) (put_new j (segments path) n DirN f)"
    unfolding stores_def t' T(2) p [symmetric] by (metis abs_tree_upd(1))
  then show ?thesis
    using that [of j] j a ns_rep_parts(2) [OF T(1)] by (simp add: resolve_ns_rep [OF T(1)] ids_rep_def parent_dir_def)
qed

lemma set_core:
  assumes st: "stores t n f" and n: "n \<noteq> - 1" and ok: "path_ok (segments path)" "wf_value v"
    and nr: "\<not> is_root path" and sp: "spec_set path v t = Inr t'"
  obtains (new) j where
    "parent_dir (DbPath (butlast (segments path))) (resolve_with (\<lambda>k. Inr (f k)) (DbPath (butlast (segments path)))) = Inr j"
    "f (child_key j (last (segments path))) = None"
    "f meta_next_id = Some (encode_id n)"
    "stores t' (n + 1) (put_new j (segments path) n (ValN (canon v)) f)"
  | (old) j i w where
    "parent_dir (DbPath (butlast (segments path))) (resolve_with (\<lambda>k. Inr (f k)) (DbPath (butlast (segments path)))) = Inr j"
    "f (child_key j (last (segments path))) = Some (encode_id i)"
    "f (node_key i) = Some (encode_value_node (encode w))" "ns_decode (encode w) = Inr w"
    "stores t' n (put_value i (segments path) w (canon v) f)"
proof -
  obtain T where T: "ns_rep T n f" "t = abs_tree T" using st by (auto simp: stores_def)
  let ?q = "butlast (segments path)" and ?x = "last (segments path)"
  note p = nonroot_path [OF nr] and parts = ns_rep_parts [OF T(1)]
  obtain j where j: "T ?q = Some (j, DirN)"
    using sp T(2) by (auto simp: spec_set_Inr [OF nr] abs_tree_Some)
  have t': "t' = t(segments path \<mapsto> ValN (canon v))" "t (segments path) \<noteq> Some DirN"
    using sp by (simp_all add: spec_set_Inr [OF nr])
  have rp: "parent_dir (DbPath ?q) (resolve_with (\<lambda>k. Inr (f k)) (DbPath ?q)) = Inr j"
    using j T(1) by (simp add: resolve_ns_rep parent_dir_def)
  have l: "f (child_key j ?x) = map_option (\<lambda>(j, _). encode_id j) (T (segments path))"
    using links_rep_lookup [OF parts(4,1) j, of ?x] p by simp
  show ?thesis
  proof (cases "T (segments path)")
    case None
    have "ns_rep (T(?q @ [?x] \<mapsto> (n, ValN (canon v)))) (n + 1) (put_new j (?q @ [?x]) n (ValN (canon v)) f)"
      using T(1) n j None ok p by (intro ns_rep_put_new) (simp_all del: node_ok.simps)
    then have "stores t' (n + 1) (put_new j (segments path) n (ValN (canon v)) f)"
      unfolding stores_def t' T(2) p [symmetric] by (metis abs_tree_upd(1))
    then show ?thesis using new [OF rp] l None parts(2) by (simp add: ids_rep_def)
  next
    case (Some r)
    then obtain i w where w: "T (segments path) = Some (i, ValN w)"
      using t'(2) T(2) by (cases r; cases "snd r") (auto simp: abs_tree_def)
    have "ns_rep (T(segments path \<mapsto> (i, ValN (canon v)))) n (put_value i (segments path) w (canon v) f)"
      by (rule ns_rep_put_value [OF T(1) w node_ok_canon [OF ok(2)]])
    then have s: "stores t' n (put_value i (segments path) w (canon v) f)"
      unfolding stores_def t' T(2) by (metis abs_tree_upd(1))
    have "node_ok (ValN w)" using tree_node [OF parts(1) w] by blast
    then show ?thesis
      using old [OF rp _ _ _ s] l w nodes_repD [OF parts(3) w] node_ok_decode by simp
  qed
qed

lemma set_refused:
  assumes st: "stores t n f" and nr: "\<not> is_root path" and sp: "spec_set path v t = Inl e"
  obtains "parent_dir (DbPath (butlast (segments path)))
      (resolve_with (\<lambda>k. Inr (f k)) (DbPath (butlast (segments path)))) = Inl e"
  | j i where "parent_dir (DbPath (butlast (segments path)))
      (resolve_with (\<lambda>k. Inr (f k)) (DbPath (butlast (segments path)))) = Inr j"
    "f (child_key j (last (segments path))) = Some (encode_id i)" "f (node_key i) = Some encode_dir_node"
    "e = IsDirectory (as_str path)"
proof (cases "spec_parent path t")
  case (Inl e')
  then have "spec_parent path t = Inl e" using sp nr by (simp add: spec_set_def)
  then show ?thesis using that(1) parent_dir_refused [OF st] by blast
next
  case (Inr u)
  obtain T where T: "ns_rep T n f" "t = abs_tree T" using st by (auto simp: stores_def)
  have d: "t (segments path) = Some DirN" "e = IsDirectory (as_str path)"
    using sp nr Inr by (auto simp: spec_set_def split: if_splits)
  obtain k j where j: "T (segments path) = Some (k, DirN)" "T (butlast (segments path)) = Some (j, DirN)"
    using d(1) Inr T(2) by (auto simp: abs_tree_Some)
  have "f (child_key j (last (segments path))) = Some (encode_id k)"
    using links_repD [OF ns_rep_parts(4) [OF T(1)] j(2)] j(1) nonroot_path [OF nr] by metis
  moreover have "f (node_key k) = Some encode_dir_node"
    using nodes_repD [OF ns_rep_parts(3) [OF T(1)] j(1)] by simp
  ultimately show ?thesis
    using that(2) [of j k] d(2) j(2) by (simp add: resolve_ns_rep [OF T(1)] parent_dir_def)
qed

lemma delete_core:
  assumes st: "stores t n f" and nr: "\<not> is_root path" and sp: "spec_delete path t = Inr t'"
  obtains j i nd m where
    "resolve_with (\<lambda>k. Inr (f k)) path = Inr (i, node_rec nd)"
    "nd = DirN \<longrightarrow> (\<forall>x. f (child_key i x) = None)"
    "resolve_with (\<lambda>k. Inr (f k)) (DbPath (butlast (segments path))) = Inr (j, m)"
    "node_type_name (node_rec nd) = Inr (node_type nd)"
    "stores t' n (drop_node j (segments path) i nd f)"
proof -
  obtain T where T: "ns_rep T n f" "t = abs_tree T" using st by (auto simp: stores_def)
  let ?q = "butlast (segments path)" and ?x = "last (segments path)"
  note p = nonroot_path [OF nr] and parts = ns_rep_parts [OF T(1)]
  obtain i nd where i: "T (segments path) = Some (i, nd)"
    using sp T(2) by (auto simp: spec_delete_Inr [OF nr] abs_tree_Some)
  obtain j where j: "T ?q = Some (j, DirN)" using tree_parent [OF parts(1)] i p by metis
  have ch: "t' = t(segments path := None)" "nd = DirN \<longrightarrow> (\<forall>x. T (segments path @ [x]) = None)"
    using sp T(2) i by (auto simp: spec_delete_Inr [OF nr] abs_tree_Some)
  have leaf: "\<forall>y. T ((?q @ [?x]) @ [y]) = None"
    using ch(2) tree_value_leaf [OF parts(1)] i p by (cases nd) auto
  have "ns_rep (T(?q @ [?x] := None)) n (drop_node j (?q @ [?x]) i nd f)"
    by (rule ns_rep_drop_node [OF T(1) _ j leaf]) (use i p in simp)
  then have s: "stores t' n (drop_node j (segments path) i nd f)"
    unfolding stores_def ch T(2) p [symmetric] by (metis abs_tree_upd(2))
  have "nd = DirN \<longrightarrow> (\<forall>x. f (child_key i x) = None)"
    using ch(2) links_rep_lookup [OF parts(4,1) i] by simp
  moreover have "node_type_name (node_rec nd) = Inr (node_type nd)"
    using tree_node [OF parts(1) i] node_ok_decode by (cases nd) (auto simp: node_type_name_def)
  ultimately show ?thesis
    using that [of i nd j NodeDir] i j T(1) s by (simp add: resolve_ns_rep)
qed

lemma delete_refused:
  assumes st: "stores t n f" and nr: "\<not> is_root path" and sp: "spec_delete path t = Inl e"
  obtains "resolve_with (\<lambda>k. Inr (f k)) path = Inl e"
  | i x where "resolve_with (\<lambda>k. Inr (f k)) path = Inr (i, NodeDir)" "f (child_key i x) \<noteq> None"
    "e = Invalid (''directory not empty: '' @ as_str path)"
proof -
  obtain T where T: "ns_rep T n f" "t = abs_tree T" using st by (auto simp: stores_def)
  note r = resolve_ns_rep [OF T(1)]
  show ?thesis
  proof (cases "T (segments path)")
    case None
    then have "t (segments path) = None" using T(2) by simp
    then show ?thesis using that(1) None sp nr r by (simp add: spec_delete_def spec_get_def)
  next
    case (Some p)
    then obtain k x where k: "T (segments path) = Some (k, DirN)" "t (segments path @ [x]) \<noteq> None"
        "e = Invalid (''directory not empty: '' @ as_str path)"
      using sp nr T(2) by (cases p) (auto simp: spec_delete_def spec_get_def abs_tree_def split: if_splits)
    then have "f (child_key k x) \<noteq> None"
      using links_rep_lookup [OF ns_rep_parts(4) [OF T(1)] ns_rep_parts(1) [OF T(1)] k(1), of x] T(2) by simp
    then show ?thesis using that(2) [of k x] k r by simp
  qed
qed

end
