(* ===== verification/Wal.thy ===== *)
theory Wal
  imports Storage
begin

text \<open>
  The durable backend of \<open>crates/alefs-storage/src/wal.rs\<close>: record and checkpoint formats, replay,
  and \<open>WalStorage\<close> with its files.  The data directory is a record \<open>Disk\<close> of file contents and the
  number of bytes that can still be written: a \<open>write_all\<close> that does not fit writes what fits and
  returns an I/O error.  Renames and truncations succeed.  \<open>usize\<close> and file offsets are \<open>nat\<close>; the
  length fields are \<open>u32\<close> and truncate as the casts of the source do.
\<close>

unbundle bit_operations_syntax

definition MAGIC :: bytes where "MAGIC = as_bytes ''ALEF''"
definition WAL_VERSION :: u8 where "WAL_VERSION = 1"
definition REC_COMMIT :: u8 where "REC_COMMIT = 1"
definition OP_PUT :: u8 where "OP_PUT = 1"
definition OP_DELETE :: u8 where "OP_DELETE = 2"
definition CHECKPOINT_MAGIC :: bytes where "CHECKPOINT_MAGIC = as_bytes ''CKPT''"
definition CHECKPOINT_VERSION :: u8 where "CHECKPOINT_VERSION = 1"

section \<open>Checksum\<close>

definition crc_bit :: "u32 \<Rightarrow> u32" where
  "crc_bit crc = (let mask = - (crc AND 1) in drop_bit 1 crc XOR (0xEDB88320 AND mask))"

definition crc_byte :: "u8 \<Rightarrow> u32 \<Rightarrow> u32" where
  "crc_byte b crc = (crc_bit ^^ 8) (crc XOR ucast b)"

definition crc32 :: "bytes \<Rightarrow> u32" where
  "crc32 data = NOT (fold crc_byte data 0xffffffff)"

section \<open>Readers\<close>

definition wal_read_u8 :: "bytes \<Rightarrow> StorageError + (u8 \<times> bytes)" where
  "wal_read_u8 cur = (case cur of [] \<Rightarrow> Inl (Corrupt ''unexpected eof'') | b # rest \<Rightarrow> Inr (b, rest))"

definition wal_read_array :: "nat \<Rightarrow> bytes \<Rightarrow> StorageError + (bytes \<times> bytes)" where
  "wal_read_array n cur =
     (if length cur < n then Inl (Corrupt ''unexpected eof'') else Inr (take n cur, drop n cur))"

definition wal_read_u32 :: "bytes \<Rightarrow> StorageError + (u32 \<times> bytes)" where
  "wal_read_u32 cur = and_then (wal_read_array 4 cur) (\<lambda>(a, cur). Inr (u32_from_le a, cur))"

definition wal_read_bytes :: "bytes \<Rightarrow> StorageError + (bytes \<times> bytes)" where
  "wal_read_bytes cur =
     and_then (wal_read_u32 cur) (\<lambda>(len, cur).
       if length cur < unat len then Inl (Corrupt ''unexpected eof'')
       else Inr (take (unat len) cur, drop (unat len) cur))"

section \<open>Commit records\<close>

definition put_bytes :: "bytes \<Rightarrow> bytes" where
  "put_bytes b = u32_to_le (len_u32 b) @ b"

fun encode_op :: "BatchOp \<Rightarrow> bytes" where
  "encode_op (Put key val) = OP_PUT # put_bytes key @ put_bytes val"
| "encode_op (Delete key) = OP_DELETE # put_bytes key"

definition commit_body :: "WriteBatch \<Rightarrow> bytes" where
  "commit_body ops = REC_COMMIT # u32_to_le (len_u32 ops) @ concat (map encode_op ops)"

definition encode_commit_record :: "WriteBatch \<Rightarrow> bytes" where
  "encode_commit_record ops =
     (let body = commit_body ops in
      MAGIC @ [WAL_VERSION] @ u32_to_le (len_u32 body) @ body @ u32_to_le (crc32 body))"

definition op_body :: "WriteBatch \<Rightarrow> bytes \<Rightarrow> StorageError + (WriteBatch \<times> bytes)" where
  "op_body ops c =
     and_then (wal_read_u8 c) (\<lambda>(tag, c).
       if tag = OP_PUT then
         and_then (wal_read_bytes c) (\<lambda>(k, c).
         and_then (wal_read_bytes c) (\<lambda>(v, c). Inr (ops @ [Put k v], c)))
       else if tag = OP_DELETE then
         and_then (wal_read_bytes c) (\<lambda>(k, c). Inr (ops @ [Delete k], c))
       else Inl (Corrupt (''unknown op tag '' @ show_nat (unat tag))))"

definition apply_record_body :: "bytes \<Rightarrow> kv \<Rightarrow> StorageError + kv" where
  "apply_record_body body m =
     (case body of
        [] \<Rightarrow> Inl (Corrupt ''empty WAL body'')
      | t # c \<Rightarrow>
          if t \<noteq> REC_COMMIT then Inl (Corrupt (''unknown record type '' @ show_nat (unat t)))
          else
            and_then (wal_read_u32 c) (\<lambda>(n, c).
            and_then (for_n (unat n) op_body [] c) (\<lambda>(ops, c).
              if c \<noteq> [] then Inl (Corrupt ''trailing bytes in WAL body'')
              else Inr (apply_ops m ops))))"

text \<open>
  The loop of \<open>replay_wal\<close>: \<open>buf\<close> is \<open>buf[i..]\<close> of the source and \<open>i\<close> the index, used in the error
  message only.
\<close>

function replay_loop :: "u64 \<Rightarrow> nat \<Rightarrow> bytes \<Rightarrow> kv \<Rightarrow> StorageError + kv" where
  "replay_loop start i buf m =
     (if buf = [] then Inr m
      else if length buf < 9 then Inr m
      else if take 4 buf \<noteq> MAGIC then
        Inl (Corrupt (''bad WAL magic at offset '' @ show_nat (unat (start + of_nat i))))
      else if buf ! 4 \<noteq> WAL_VERSION then
        Inl (Corrupt (''unsupported WAL version '' @ show_nat (unat (buf ! 4))))
      else
        let body_len = unat (u32_from_le (take 4 (drop 5 buf)));
            rec_end = 9 + body_len + 4 in
        if length buf < rec_end then Inr m
        else
          let body = take body_len (drop 9 buf);
              expect = u32_from_le (take 4 (drop (9 + body_len) buf)) in
          if crc32 body \<noteq> expect then Inr m
          else and_then (apply_record_body body m) (\<lambda>m'.
                 replay_loop start (i + rec_end) (drop rec_end buf) m'))"
  by pat_completeness auto
termination
  by (relation "measure (\<lambda>(start, i, buf, m). length buf)") auto

declare replay_loop.simps [simp del]

definition replay_wal :: "bytes \<Rightarrow> u64 \<Rightarrow> kv \<Rightarrow> StorageError + kv" where
  "replay_wal file start m =
     (if unat start > length file then
        Inl (Corrupt (''checkpoint wal offset '' @ show_nat (unat start) @ '' beyond file len ''
          @ show_nat (length file)))
      else replay_loop start 0 (drop (unat start) file) m)"

section \<open>Checkpoints\<close>

definition checkpoint_body :: "kv \<Rightarrow> u64 \<Rightarrow> bytes" where
  "checkpoint_body m wal_offset =
     u64_to_le wal_offset @ u32_to_le (len_u32 m)
       @ concat (map (\<lambda>(k, v). put_bytes k @ put_bytes v) m)"

definition checkpoint_bytes :: "kv \<Rightarrow> u64 \<Rightarrow> bytes" where
  "checkpoint_bytes m wal_offset =
     (let body = checkpoint_body m wal_offset in
      CHECKPOINT_MAGIC @ [CHECKPOINT_VERSION] @ u32_to_le (len_u32 body) @ body @ u32_to_le (crc32 body))"

definition row_body :: "kv \<Rightarrow> bytes \<Rightarrow> StorageError + (kv \<times> bytes)" where
  "row_body m c =
     and_then (wal_read_bytes c) (\<lambda>(k, c).
     and_then (wal_read_bytes c) (\<lambda>(v, c). Inr (bt_insert k v m, c)))"

definition load_checkpoint :: "bytes \<Rightarrow> StorageError + (kv \<times> u64)" where
  "load_checkpoint buf =
     (if length buf < 9 then Inl (Corrupt ''checkpoint too short'')
      else if take 4 buf \<noteq> CHECKPOINT_MAGIC then Inl (Corrupt ''bad checkpoint magic'')
      else if buf ! 4 \<noteq> CHECKPOINT_VERSION then
        Inl (Corrupt (''unsupported checkpoint version '' @ show_nat (unat (buf ! 4))))
      else
        let body_len = unat (u32_from_le (take 4 (drop 5 buf))) in
        if length buf < 9 + body_len + 4 then Inl (Corrupt ''checkpoint truncated'')
        else
          let body = take body_len (drop 9 buf);
              expect = u32_from_le (take 4 (drop (9 + body_len) buf)) in
          if crc32 body \<noteq> expect then Inl (Corrupt ''checkpoint checksum mismatch'')
          else
            and_then (wal_read_array 8 body) (\<lambda>(a, c).
            let wal_offset = u64_from_le a in
            and_then (wal_read_u32 c) (\<lambda>(n, c).
            and_then (for_n (unat n) row_body [] c) (\<lambda>(m, c).
              if c \<noteq> [] then Inl (Corrupt ''checkpoint trailing bytes'')
              else Inr (m, wal_offset)))))"

section \<open>The data directory\<close>

record Disk =
  wal_log :: "bytes option"
  checkpoint_bin :: "bytes option"
  checkpoint_tmp :: "bytes option"
  space :: nat

abbreviation contents :: "bytes option \<Rightarrow> bytes" where
  "contents f \<equiv> (case f of None \<Rightarrow> [] | Some bs \<Rightarrow> bs)"

text \<open>\<open>write_all\<close> at the end of a file: what fits is written, the rest is an error.\<close>

definition NO_SPACE :: StorageError where
  "NO_SPACE = Io ''No space left on device (os error 28)''"

definition write_fit :: "nat \<Rightarrow> bytes \<Rightarrow> (StorageError + unit) \<times> bytes" where
  "write_fit free data = (if length data \<le> free then (Inr (), data) else (Inl NO_SPACE, take free data))"

section \<open>WalStorage\<close>

record WalStorage =
  disk :: Disk
  wal_map :: kv
  wal_bytes :: u64
  auto_compact_threshold :: u64

definition wal_open :: "Disk \<Rightarrow> StorageError + WalStorage" where
  "wal_open d =
     and_then (case checkpoint_bin d of None \<Rightarrow> Inr ([], 0) | Some buf \<Rightarrow> load_checkpoint buf)
       (\<lambda>(m, wal_start).
     and_then (case wal_log d of None \<Rightarrow> Inr m | Some file \<Rightarrow> replay_wal file wal_start m) (\<lambda>m.
       let file = contents (wal_log d) in
       Inr \<lparr>disk = d\<lparr>wal_log := Some file\<rparr>, wal_map = m,
            wal_bytes = of_nat (length file - unat wal_start),
            auto_compact_threshold = 8 * 1024 * 1024\<rparr>))"

definition set_auto_compact_threshold :: "u64 \<Rightarrow> WalStorage \<Rightarrow> WalStorage" where
  "set_auto_compact_threshold n s = s\<lparr>auto_compact_threshold := n\<rparr>"

text \<open>
  \<open>write_checkpoint\<close> creates (truncates) the temporary file, then writes it; \<open>compact\<close> renames it
  over \<open>checkpoint.bin\<close>, truncates the log and resets the byte count.
\<close>

definition write_checkpoint :: "kv \<Rightarrow> u64 \<Rightarrow> Disk \<Rightarrow> (StorageError + unit) \<times> Disk" where
  "write_checkpoint m wal_offset d =
     (let free = space d + length (contents (checkpoint_tmp d));
          (r, written) = write_fit free (checkpoint_bytes m wal_offset) in
      (r, d\<lparr>checkpoint_tmp := Some written, space := free - length written\<rparr>))"

definition rename_checkpoint :: "Disk \<Rightarrow> Disk" where
  "rename_checkpoint d =
     d\<lparr>checkpoint_bin := checkpoint_tmp d, checkpoint_tmp := None,
       space := space d + length (contents (checkpoint_bin d))\<rparr>"

definition truncate_wal :: "Disk \<Rightarrow> Disk" where
  "truncate_wal d = d\<lparr>wal_log := Some [], space := space d + length (contents (wal_log d))\<rparr>"

definition wal_compact :: "WalStorage \<Rightarrow> (StorageError + unit) \<times> WalStorage" where
  "wal_compact s =
     (case write_checkpoint (wal_map s) 0 (disk s) of
        (Inl e, d) \<Rightarrow> (Inl e, s\<lparr>disk := d\<rparr>)
      | (Inr _, d) \<Rightarrow> (Inr (), s\<lparr>disk := truncate_wal (rename_checkpoint d), wal_bytes := 0\<rparr>))"

definition append_wal :: "bytes \<Rightarrow> Disk \<Rightarrow> (StorageError + unit) \<times> Disk" where
  "append_wal record d =
     (case write_fit (space d) record of (r, written) \<Rightarrow>
        (r, d\<lparr>wal_log := Some (contents (wal_log d) @ written), space := space d - length written\<rparr>))"

definition wal_commit :: "WriteBatch \<Rightarrow> WalStorage \<Rightarrow> (StorageError + unit) \<times> WalStorage" where
  "wal_commit batch s =
     (if batch = [] then (Inr (), s)
      else
        let record = encode_commit_record batch in
        case append_wal record (disk s) of
          (Inl e, d) \<Rightarrow> (Inl e, s\<lparr>disk := d\<rparr>)
        | (Inr _, d) \<Rightarrow>
            let s1 = s\<lparr>disk := d, wal_bytes := wal_bytes s + of_nat (length record),
                       wal_map := apply_ops (wal_map s) batch\<rparr> in
            if auto_compact_threshold s1 > 0 \<and> wal_bytes s1 \<ge> auto_compact_threshold s1
            then wal_compact s1 else (Inr (), s1))"

definition wal_get :: "WalStorage \<Rightarrow> bytes \<Rightarrow> StorageError + bytes option" where
  "wal_get s key = Inr (bt_get (wal_map s) key)"

definition wal_scan_prefix :: "WalStorage \<Rightarrow> bytes \<Rightarrow> StorageError + ScanRows" where
  "wal_scan_prefix s pre = Inr (bt_scan pre (wal_map s))"

definition wal_storage :: "WalStorage Storage" where
  "wal_storage = \<lparr>st_get = wal_get, st_commit = wal_commit, st_scan_prefix = wal_scan_prefix\<rparr>"

end
