(* ===== verification/Wal_Format.thy ===== *)
theory Wal_Format
  imports Wal
begin

text \<open>
  What the log and checkpoint formats guarantee: readers undo writers, a replay applies exactly the
  complete records of a clean log and ignores a torn last record, and the checksum detects every
  corruption of a single byte.
\<close>

section \<open>Readers undo writers\<close>

lemma wal_read_array_append [simp, cursor_simps]:
  "n = length a \<Longrightarrow> wal_read_array n (a @ r) = Inr (a, r)"
  by (simp add: wal_read_array_def)

lemma wal_read_u32_append [simp, cursor_simps]: "wal_read_u32 (u32_to_le n @ r) = Inr (n, r)"
  by (simp add: wal_read_u32_def)

lemma wal_read_bytes_put [simp, cursor_simps]: "len_ok b \<Longrightarrow> wal_read_bytes (put_bytes b @ r) = Inr (b, r)"
  by (simp add: wal_read_bytes_def put_bytes_def len_ok_def)

fun op_ok :: "BatchOp \<Rightarrow> bool" where
  "op_ok (Put key val) = (len_ok key \<and> len_ok val)"
| "op_ok (Delete key) = len_ok key"

lemma op_body_encode [simp, cursor_simps]: "op_ok op \<Longrightarrow> op_body ops (encode_op op @ r) = Inr (ops @ [op], r)"
  by (cases op) (simp_all add: op_body_def wal_read_u8_def OP_PUT_def OP_DELETE_def)

text \<open>A batch whose record fits the \<open>u32\<close> length field.\<close>

definition batch_ok :: "WriteBatch \<Rightarrow> bool" where
  "batch_ok ops \<longleftrightarrow> len_ok (commit_body ops)"

lemma length_put_bytes [simp]: "length (put_bytes b) = 4 + length b"
  by (simp add: put_bytes_def)

lemma op_in_body: "op \<in> set ops \<Longrightarrow> length (encode_op op) \<le> length (concat (map encode_op ops))"
  by (induction ops) auto

lemma length_ops_body: "length ops \<le> length (concat (map encode_op ops))"
proof (induction ops)
  case (Cons op ops)
  have "1 \<le> length (encode_op op)" by (cases op) auto
  then show ?case using Cons.IH unfolding list.map concat.simps length_append by simp
qed simp

lemma batch_ok_ops:
  assumes "batch_ok ops"
  shows "len_ok ops" and "\<forall>op \<in> set ops. op_ok op"
proof -
  have l: "length (concat (map encode_op ops)) < 2 ^ 32"
    using assms by (simp add: batch_ok_def commit_body_def len_ok_def)
  then show "len_ok ops" using length_ops_body [of ops] by (simp add: len_ok_def)
  show "\<forall>op \<in> set ops. op_ok op"
  proof
    fix op assume "op \<in> set ops"
    then have "length (encode_op op) < 2 ^ 32" using op_in_body l by fastforce
    then show "op_ok op" by (cases op) (auto simp: len_ok_def)
  qed
qed

lemma apply_record_body_commit:
  assumes "batch_ok ops"
  shows "apply_record_body (commit_body ops) m = Inr (apply_ops m ops)"
proof -
  have "for_n (length ops) op_body [] (concat (map encode_op ops) @ []) = Inr (fold (\<lambda>op ops. ops @ [op]) ops [], [])"
    using batch_ok_ops(2) [OF assms] by (intro for_n_fold) auto
  moreover have "fold (\<lambda>op ops. ops @ [op]) ops [] = ops"
    by (induction ops rule: rev_induct) auto
  ultimately show ?thesis
    using batch_ok_ops(1) [OF assms]
    by (simp add: apply_record_body_def commit_body_def len_ok_def REC_COMMIT_def)
qed

section \<open>Replay\<close>

lemma length_MAGIC [simp]: "length MAGIC = 4" "length CHECKPOINT_MAGIC = 4"
  by (simp_all add: MAGIC_def CHECKPOINT_MAGIC_def)

lemma length_record: "length (encode_commit_record ops) = 13 + length (commit_body ops)"
  by (simp add: encode_commit_record_def Let_def)

text \<open>The parts of a frame: magic, version, length, body, checksum, and what follows.\<close>

lemma frame_parts:
  assumes "length hdr = 4" and "unat n = length body"
    and b: "b = hdr @ [v] @ u32_to_le n @ body @ u32_to_le c @ rest"
  shows "take 4 b = hdr" "b ! 4 = v" "u32_from_le (take 4 (drop 5 b)) = n"
    "length b = 13 + length body + length rest"
    "take (length body) (drop 9 b) = body"
    "u32_from_le (take 4 (drop (9 + length body) b)) = c"
    "drop (9 + length body + 4) b = rest"
proof -
  define pre where "pre = hdr @ [v] @ u32_to_le n"
  define fin where "fin = u32_to_le c"
  have l: "length pre = 9" "length fin = 4" by (simp_all add: pre_def fin_def assms(1))
  have b': "b = pre @ body @ fin @ rest" by (simp add: b pre_def fin_def)
  show "take 4 b = hdr" "b ! 4 = v" "u32_from_le (take 4 (drop 5 b)) = n"
    "length b = 13 + length body + length rest"
    by (simp_all add: b assms nth_append)
  show "take (length body) (drop 9 b) = body" "drop (9 + length body + 4) b = rest"
    by (simp_all add: b' l)
  have "take 4 (drop (9 + length body) b) = fin" by (simp add: b' l)
  then show "u32_from_le (take 4 (drop (9 + length body) b)) = c" by (simp add: fin_def)
qed

lemma replay_record:
  assumes "batch_ok ops"
  shows "replay_loop start i (encode_commit_record ops @ rest) m
         = replay_loop start (i + length (encode_commit_record ops)) rest (apply_ops m ops)"
proof -
  let ?body = "commit_body ops"
  define b where "b = encode_commit_record ops @ rest"
  have n: "unat (len_u32 ?body) = length ?body"
    using assms by (simp add: batch_ok_def len_ok_def)
  have "b = MAGIC @ [WAL_VERSION] @ u32_to_le (len_u32 ?body) @ ?body @ u32_to_le (crc32 ?body) @ rest"
    by (simp add: b_def encode_commit_record_def Let_def)
  note p = frame_parts [OF length_MAGIC(1) n this]
  have "b \<noteq> []" "\<not> length b < 9" using p(4) by auto
  then have "replay_loop start i b m = replay_loop start (i + (9 + length ?body + 4)) rest (apply_ops m ops)"
    by (subst replay_loop.simps)
      (simp only: p n Let_def apply_record_body_commit [OF assms] and_then_simps if_True if_False
        not_less le_add1 simp_thms, simp)
  then show ?thesis by (simp add: b_def length_record add.commute add.left_commute)
qed

lemma replay_records:
  assumes "\<forall>b \<in> set bs. batch_ok b"
  shows "replay_loop start i (concat (map encode_commit_record bs) @ rest) m
         = replay_loop start (i + length (concat (map encode_commit_record bs))) rest (apply_ops m (concat bs))"
  using assms by (induction bs arbitrary: i m) (auto simp: replay_record add.assoc)

lemma replay_Nil [simp]: "replay_loop start i [] m = Inr m"
  by (simp add: replay_loop.simps)

text \<open>A header whose record is not complete ends the replay.\<close>

lemma replay_incomplete:
  assumes "take 4 buf = MAGIC" "buf ! 4 = WAL_VERSION"
    and "length buf < 13 + unat (u32_from_le (take 4 (drop 5 buf)))"
  shows "replay_loop start i buf m = Inr m"
  using assms by (subst replay_loop.simps) (simp add: Let_def)

lemma record_prefix:
  assumes "9 \<le> k" and "batch_ok ops"
  shows "take 4 (take k (encode_commit_record ops) @ q) = MAGIC"
    and "(take k (encode_commit_record ops) @ q) ! 4 = WAL_VERSION"
    and "unat (u32_from_le (take 4 (drop 5 (take k (encode_commit_record ops) @ q)))) = length (commit_body ops)"
proof -
  have l: "4 \<le> k" "5 \<le> k" using assms(1) by auto
  let ?r = "encode_commit_record ops"
  have t: "take k ?r @ q = take 9 ?r @ (take (k - 9) (drop 9 ?r) @ q)"
    using assms(1) by (metis append.assoc le_add_diff_inverse take_add)
  have n: "take 9 ?r = MAGIC @ [WAL_VERSION] @ u32_to_le (len_u32 (commit_body ops))"
    by (simp add: encode_commit_record_def Let_def)
  show "take 4 (take k ?r @ q) = MAGIC" by (simp add: t n)
  show "(take k ?r @ q) ! 4 = WAL_VERSION" by (simp add: t n nth_append)
  show "unat (u32_from_le (take 4 (drop 5 (take k ?r @ q)))) = length (commit_body ops)"
    using assms(2) by (simp add: t n batch_ok_def len_ok_def)
qed

text \<open>A torn record, alone or followed by fewer bytes than it lacks, is ignored.\<close>

lemma replay_torn_then:
  assumes "batch_ok ops" "9 \<le> k" "k \<le> length (encode_commit_record ops)"
    and "k + length q < length (encode_commit_record ops)"
  shows "replay_loop start i (take k (encode_commit_record ops) @ q) m = Inr m"
  using assms record_prefix [OF assms(2,1), of q]
  by (intro replay_incomplete) (auto simp: length_record min_def)

lemma replay_torn:
  assumes "batch_ok ops" "k < length (encode_commit_record ops)"
  shows "replay_loop start i (take k (encode_commit_record ops)) m = Inr m"
proof (cases "k < 9")
  case True
  then show ?thesis by (subst replay_loop.simps) auto
next
  case False
  with replay_torn_then [of ops k "[]"] assms show ?thesis by simp
qed

text \<open>A torn piece of the magic number followed by a record is not a record.\<close>

lemma replay_misaligned:
  assumes "0 < k" "k < 4"
  shows "\<exists>msg. replay_loop start i (take k MAGIC @ encode_commit_record ops) m = Inl (Corrupt msg)"
proof -
  let ?buf = "take k MAGIC @ encode_commit_record ops"
  have "\<not> length ?buf < 9" by (simp add: length_record)
  moreover have "take 4 ?buf \<noteq> MAGIC"
  proof -
    have "take (4 - k) (encode_commit_record ops) = take (4 - k) MAGIC"
      using assms by (simp add: encode_commit_record_def Let_def)
    then have "take 4 ?buf = take k MAGIC @ take (4 - k) MAGIC"
      using assms by (simp add: min_def)
    moreover have "take k MAGIC @ take (4 - k) MAGIC \<noteq> MAGIC"
    proof -
      have M: "MAGIC = [65, 76, 69, 70]" by (simp add: MAGIC_def byte_of_char_def)
      consider "k = 1" | "k = 2" | "k = 3" using assms by linarith
      then show ?thesis unfolding M by cases simp_all
    qed
    ultimately show ?thesis by metis
  qed
  ultimately show ?thesis by (subst replay_loop.simps) auto
qed

section \<open>Checkpoints\<close>

definition ckpt_ok :: "kv \<Rightarrow> bool" where
  "ckpt_ok m \<longleftrightarrow> len_ok (checkpoint_body m 0)"

lemma rows_body: "length m \<le> length (concat (map (\<lambda>(k, v). put_bytes k @ put_bytes v) m))"
  by (induction m) auto

lemma row_in_body:
  "(k, v) \<in> set m \<Longrightarrow>
   length k + length v \<le> length (concat (map (\<lambda>(k, v). put_bytes k @ put_bytes v) m))"
  by (induction m) auto

lemma load_checkpoint_bytes:
  assumes "ckpt_ok m" "bt_sorted m"
  shows "load_checkpoint (checkpoint_bytes m 0) = Inr (m, 0)"
proof -
  let ?rows = "concat (map (\<lambda>(k, v). put_bytes k @ put_bytes v) m)"
  have l: "length ?rows + 12 < 2 ^ 32"
    using assms(1) by (simp add: ckpt_ok_def len_ok_def checkpoint_body_def)
  then have m: "unat (len_u32 m) = length m" using rows_body [of m] by simp
  have "len_ok k \<and> len_ok v" if "(k, v) \<in> set m" for k v
    using row_in_body [OF that] l by (simp add: len_ok_def)
  then have "for_n (length m) row_body [] (?rows @ []) = Inr (fold (\<lambda>(k, v). bt_insert k v) m [], [])"
    by (intro for_n_fold) (auto simp: row_body_def)
  then have rows: "for_n (length m) row_body [] ?rows = Inr (m, [])"
    using fold_bt_insert_rebuild [OF assms(2)] by simp
  have body: "length (checkpoint_body m 0) < 2 ^ 32"
    using assms(1) by (simp add: ckpt_ok_def len_ok_def)
  have n: "unat (len_u32 (checkpoint_body m 0)) = length (checkpoint_body m 0)"
    using assms(1) by (simp add: ckpt_ok_def len_ok_def)
  define b where "b = checkpoint_bytes m 0"
  have "b = CHECKPOINT_MAGIC @ [CHECKPOINT_VERSION] @ u32_to_le (len_u32 (checkpoint_body m 0))
      @ checkpoint_body m 0 @ u32_to_le (crc32 (checkpoint_body m 0)) @ []"
    by (simp add: b_def checkpoint_bytes_def Let_def)
  note p = frame_parts [OF length_MAGIC(2) n this]
  have "\<not> length b < 9" using p(4) by simp
  then have "load_checkpoint b = Inr (m, 0)"
    unfolding load_checkpoint_def
    by (simp only: p n Let_def if_True if_False not_less simp_thms,
        simp add: checkpoint_body_def rows m)
  then show ?thesis by (simp add: b_def)
qed

section \<open>The checksum detects every corruption of a single byte\<close>

lemma crc_bit_eq: "crc_bit x = drop_bit 1 x XOR (if odd x then 0xEDB88320 else 0)"
  by (simp add: crc_bit_def and_one_eq mod_2_eq_odd)

lemma xor_cancel:
  fixes a b c :: u32
  shows "a XOR b = a XOR c \<longleftrightarrow> b = c" and "b XOR a = c XOR a \<longleftrightarrow> b = c"
proof -
  have r: "a XOR (a XOR x) = x" for x :: u32
    by (simp flip: xor.assoc)
  show 1: "a XOR b = a XOR c \<longleftrightarrow> b = c" by (metis r)
  then show "b XOR a = c XOR a \<longleftrightarrow> b = c" by (simp add: xor.commute)
qed

lemma crc_bit_inj: "inj crc_bit"
proof (rule injI)
  fix x y :: u32
  assume e: "crc_bit x = crc_bit y"
  have "bit (crc_bit z) 31 = odd z" for z :: u32
    using bit_imp_le_length [of z 32] by (auto simp: crc_bit_eq bit_simps)
  then have z: "odd x = odd y" using e by metis
  then have "drop_bit 1 x = drop_bit 1 y"
    using e by (simp add: crc_bit_eq xor_cancel split: if_splits)
  then have d: "x div 2 = y div 2" by (simp add: drop_bit_eq_div)
  have "x mod 2 = y mod 2" using z by (simp add: mod_2_eq_odd)
  then show "x = y" using d by (metis div_mult_mod_eq)
qed

lemma crc_byte_inj: "crc_byte b x = crc_byte b y \<longleftrightarrow> x = y"
proof -
  have "inj (crc_bit ^^ 8)" using crc_bit_inj by (rule inj_fn)
  then show ?thesis
    by (simp add: crc_byte_def inj_eq xor_cancel)
qed

lemma crc_byte_differs: "crc_byte b x = crc_byte c x \<longleftrightarrow> b = c"
proof -
  have "inj (crc_bit ^^ 8)" using crc_bit_inj by (rule inj_fn)
  then have "crc_byte b x = crc_byte c x \<longleftrightarrow> x XOR ucast b = x XOR ucast c"
    by (simp add: crc_byte_def inj_eq)
  also have "\<dots> \<longleftrightarrow> (ucast b :: u32) = ucast c"
    by (rule xor_cancel)
  also have "\<dots> \<longleftrightarrow> b = c"
  proof -
    have "unat (ucast z :: u32) = unat z" for z :: u8
      by (simp add: unsigned_ucast_eq take_bit_eq_mod order.strict_trans [OF unat_u8_less])
    then show ?thesis by (metis word_unat_eq_iff)
  qed
  finally show ?thesis .
qed

lemma fold_crc_inj: "fold crc_byte ys x = fold crc_byte ys y \<longleftrightarrow> x = y"
  by (induction ys arbitrary: x y) (auto simp: crc_byte_inj)

text \<open>
  Two bodies that differ in exactly one byte never have the same checksum, so a record in which
  one byte of the body was corrupted on disk is never replayed as if it were intact.
\<close>

theorem crc32_single_byte: "crc32 (xs @ b # ys) = crc32 (xs @ c # ys) \<longleftrightarrow> b = c"
  by (simp add: crc32_def fold_crc_inj crc_byte_differs bit.compl_eq_compl_iff)

end
