(* ===== verification/Wal_Recovery.thy ===== *)
theory Wal_Recovery
  imports Wal_Format
begin

text \<open>
  Durability and crash behaviour of \<open>WalStorage\<close>: what a reopened directory holds after
  acknowledged commits, compactions and reopens, after a crash at any point of a commit or of a
  compaction, and after a failed write.  A crash leaves the files as they are after some prefix of
  the writes; a torn append leaves a prefix of the record.
\<close>

section \<open>Clean directories\<close>

definition wal_records :: "WriteBatch list \<Rightarrow> bytes" where
  "wal_records bs = concat (map encode_commit_record bs)"

lemma wal_records_simps [simp]:
  "wal_records [] = []" "wal_records (b # bs) = encode_commit_record b @ wal_records bs"
  "wal_records (bs @ cs) = wal_records bs @ wal_records cs"
  by (simp_all add: wal_records_def)

text \<open>
  \<open>checkpointed base f\<close>: the checkpoint file holds \<open>base\<close>.  \<open>clean base bs d\<close>: the directory holds
  \<open>base\<close> and then exactly the complete records \<open>bs\<close>.
\<close>

definition checkpointed :: "kv \<Rightarrow> bytes option \<Rightarrow> bool" where
  "checkpointed base f \<longleftrightarrow> bt_sorted base \<and>
     (case f of None \<Rightarrow> base = [] | Some bs \<Rightarrow> ckpt_ok base \<and> bs = checkpoint_bytes base 0)"

definition clean :: "kv \<Rightarrow> WriteBatch list \<Rightarrow> Disk \<Rightarrow> bool" where
  "clean base bs d \<longleftrightarrow> checkpointed base (checkpoint_bin d)
     \<and> (\<forall>b \<in> set bs. batch_ok b) \<and> contents (wal_log d) = wal_records bs"

definition wal_inv :: "WalStorage \<Rightarrow> bool" where
  "wal_inv s \<longleftrightarrow> (\<exists>base bs. clean base bs (disk s) \<and> wal_map s = apply_ops base (concat bs))"

text \<open>The contents a process sees that opens the directory.\<close>

definition recovered :: "Disk \<Rightarrow> StorageError + kv" where
  "recovered d = and_then (wal_open d) (\<lambda>s. Inr (wal_map s))"

lemma wal_open_eq:
  assumes "checkpointed base (checkpoint_bin d)"
  shows "wal_open d = and_then (replay_loop 0 0 (contents (wal_log d)) base) (\<lambda>m.
           Inr \<lparr>disk = d\<lparr>wal_log := Some (contents (wal_log d))\<rparr>, wal_map = m,
                wal_bytes = of_nat (length (contents (wal_log d))), auto_compact_threshold = 8 * 1024 * 1024\<rparr>)"
  using assms
  by (auto simp: wal_open_def checkpointed_def replay_wal_def load_checkpoint_bytes
      split: option.splits)

lemma recovered_eq:
  "checkpointed base (checkpoint_bin d) \<Longrightarrow>
   recovered d = replay_loop 0 0 (contents (wal_log d)) base"
  by (simp add: recovered_def wal_open_eq and_then_def split: sum.split)

lemma replay_log:
  "\<forall>b \<in> set bs. batch_ok b \<Longrightarrow>
   replay_loop 0 0 (wal_records bs @ t) base = replay_loop 0 (length (wal_records bs)) t (apply_ops base (concat bs))"
  using replay_records [of bs 0 0 t base] by (simp add: wal_records_def)

text \<open>A directory whose log ends in a proper prefix of a record.\<close>

definition torn :: "kv \<Rightarrow> WriteBatch list \<Rightarrow> bytes \<Rightarrow> Disk \<Rightarrow> bool" where
  "torn base bs t d \<longleftrightarrow> checkpointed base (checkpoint_bin d)
     \<and> (\<forall>b \<in> set bs. batch_ok b) \<and> contents (wal_log d) = wal_records bs @ t"

lemma clean_torn: "clean base bs d \<longleftrightarrow> torn base bs [] d"
  by (simp add: clean_def torn_def)

lemma recovered_torn:
  assumes "torn base bs (take k (encode_commit_record b)) d" "batch_ok b"
    and "k < length (encode_commit_record b)"
  shows "recovered d = Inr (apply_ops base (concat bs))"
  using assms by (simp add: torn_def recovered_eq [of base] replay_log replay_torn)

lemma recovered_clean: "clean base bs d \<Longrightarrow> recovered d = Inr (apply_ops base (concat bs))"
  using replay_log [of bs "[]" base] by (simp add: clean_def recovered_eq [of base])

lemma clean_snoc:
  "clean base bs d \<Longrightarrow> batch_ok b \<Longrightarrow> contents (wal_log d') = contents (wal_log d) @ encode_commit_record b
   \<Longrightarrow> checkpoint_bin d' = checkpoint_bin d \<Longrightarrow> clean base (bs @ [b]) d'"
  by (simp add: clean_def)

lemma wal_inv_recovered: "wal_inv s \<Longrightarrow> recovered (disk s) = Inr (wal_map s)"
  by (auto simp: wal_inv_def recovered_clean)

lemma wal_inv_sorted: "wal_inv s \<Longrightarrow> bt_sorted (wal_map s)"
  by (auto simp: wal_inv_def clean_def checkpointed_def)

section \<open>The operations keep the directory clean\<close>

lemma write_fit_ok: "write_fit n data = (Inr (), w) \<longleftrightarrow> length data \<le> n \<and> w = data"
  by (auto simp: write_fit_def)

lemma write_fit_err:
  "write_fit n data = (Inl e, w) \<longleftrightarrow> n < length data \<and> w = take n data \<and> e = NO_SPACE"
  by (auto simp: write_fit_def)

lemma wal_compact_eq:
  "wal_compact s =
     (let free = space (disk s) + length (contents (checkpoint_tmp (disk s)));
          data = checkpoint_bytes (wal_map s) 0 in
      if length data \<le> free then
        (Inr (), s\<lparr>disk := truncate_wal (rename_checkpoint
           ((disk s)\<lparr>checkpoint_tmp := Some data, space := free - length data\<rparr>)), wal_bytes := 0\<rparr>)
      else (Inl NO_SPACE, s\<lparr>disk := (disk s)\<lparr>checkpoint_tmp := Some (take free data), space := 0\<rparr>\<rparr>))"
  by (simp add: wal_compact_def write_checkpoint_def write_fit_def Let_def min_def)

lemma wal_compact_cases:
  obtains (ok) d where "wal_compact s = (Inr (), s\<lparr>disk := d, wal_bytes := 0\<rparr>)"
      "checkpoint_bin d = Some (checkpoint_bytes (wal_map s) 0)" "wal_log d = Some []"
  | (err) d where "wal_compact s = (Inl NO_SPACE, s\<lparr>disk := d\<rparr>)"
      "checkpoint_bin d = checkpoint_bin (disk s)" "wal_log d = wal_log (disk s)"
proof -
  let ?free = "space (disk s) + length (contents (checkpoint_tmp (disk s)))"
  let ?data = "checkpoint_bytes (wal_map s) 0"
  show ?thesis
  proof (cases "length ?data \<le> ?free")
    case True
    show ?thesis
      by (rule ok) (use True in \<open>simp add: wal_compact_eq Let_def\<close>,
        simp_all add: rename_checkpoint_def truncate_wal_def)
  next
    case False
    show ?thesis
      by (rule err) (use False in \<open>simp add: wal_compact_eq Let_def\<close>, simp_all)
  qed
qed

lemma wal_inv_checkpoint:
  assumes "ckpt_ok (wal_map s)" "bt_sorted (wal_map s)"
    and "checkpoint_bin (disk s) = Some (checkpoint_bytes (wal_map s) 0)" "wal_log (disk s) = Some []"
  shows "wal_inv s"
proof -
  have "clean (wal_map s) [] (disk s)" using assms by (simp add: clean_def checkpointed_def)
  then show ?thesis unfolding wal_inv_def by fastforce
qed

lemma wal_inv_compact:
  assumes "wal_inv s" "ckpt_ok (wal_map s)" "wal_compact s = (r, s')"
  shows "wal_inv s' \<and> wal_map s' = wal_map s"
proof (cases rule: wal_compact_cases [of s])
  case (ok d)
  then show ?thesis
    using assms wal_inv_sorted [OF assms(1)] by (auto intro!: wal_inv_checkpoint)
next
  case (err d)
  then show ?thesis using assms by (auto simp: wal_inv_def clean_def)
qed

text \<open>The state in which a commit decides whether to compact.\<close>

definition appended :: "WriteBatch \<Rightarrow> WalStorage \<Rightarrow> WalStorage" where
  "appended batch s =
     s\<lparr>disk := (disk s)\<lparr>wal_log := Some (contents (wal_log (disk s)) @ encode_commit_record batch),
          space := space (disk s) - length (encode_commit_record batch)\<rparr>,
       wal_bytes := wal_bytes s + of_nat (length (encode_commit_record batch)),
       wal_map := apply_ops (wal_map s) batch\<rparr>"

lemma wal_commit_eq:
  "wal_commit b s =
     (if b = [] then (Inr (), s)
      else if length (encode_commit_record b) \<le> space (disk s) then
        (let s1 = appended b s in
         if auto_compact_threshold s1 > 0 \<and> wal_bytes s1 \<ge> auto_compact_threshold s1
         then wal_compact s1 else (Inr (), s1))
      else (Inl NO_SPACE, s\<lparr>disk := (disk s)\<lparr>wal_log := Some (contents (wal_log (disk s))
              @ take (space (disk s)) (encode_commit_record b)), space := 0\<rparr>\<rparr>))"
  by (simp add: wal_commit_def append_wal_def write_fit_def Let_def appended_def min_def)

lemma wal_commit_cases:
  assumes "wal_commit b s = (r, s')"
  obtains (empty) "b = []" "r = Inr ()" "s' = s"
  | (full) "b \<noteq> []" "r = Inl NO_SPACE" "space (disk s) < length (encode_commit_record b)"
      "s' = s\<lparr>disk := (disk s)\<lparr>wal_log := Some (contents (wal_log (disk s))
              @ take (space (disk s)) (encode_commit_record b)), space := 0\<rparr>\<rparr>"
  | (plain) "b \<noteq> []" "r = Inr ()" "s' = appended b s"
  | (compact) "b \<noteq> []" "wal_compact (appended b s) = (r, s')"
proof (cases "b = []")
  case True
  with assms show ?thesis by (intro empty) (simp_all add: wal_commit_eq)
next
  case b: False
  show ?thesis
  proof (cases "length (encode_commit_record b) \<le> space (disk s)")
    case False
    with assms b show ?thesis by (intro full) (simp_all add: wal_commit_eq)
  next
    case fits: True
    let ?auto = "auto_compact_threshold (appended b s) > 0
        \<and> wal_bytes (appended b s) \<ge> auto_compact_threshold (appended b s)"
    have "wal_commit b s = (if ?auto then wal_compact (appended b s) else (Inr (), appended b s))"
      using b fits by (simp add: wal_commit_eq Let_def)
    with assms b plain compact show ?thesis by (cases ?auto) simp_all
  qed
qed

lemma wal_map_appended [simp]: "wal_map (appended b s) = apply_ops (wal_map s) b"
  by (simp add: appended_def)

lemma wal_inv_appended: "wal_inv s \<Longrightarrow> batch_ok b \<Longrightarrow> wal_inv (appended b s)"
proof -
  assume "wal_inv s" and b: "batch_ok b"
  then obtain base bs where c: "clean base bs (disk s)" "wal_map s = apply_ops base (concat bs)"
    by (auto simp: wal_inv_def)
  have "clean base (bs @ [b]) (disk (appended b s))"
    using c(1) b by (rule clean_snoc) (simp_all add: appended_def)
  with c(2) show "wal_inv (appended b s)" unfolding wal_inv_def by fastforce
qed

lemma wal_compact_map: "wal_compact s = (r, s') \<Longrightarrow> wal_map s' = wal_map s"
  by (cases rule: wal_compact_cases [of s]) auto

lemma wal_commit_map:
  assumes "wal_commit b s = (r, s')"
  shows "wal_map s' = wal_map s \<and> (r = Inr () \<longrightarrow> b = []) \<or> wal_map s' = apply_ops (wal_map s) b"
  using assms by (cases rule: wal_commit_cases) (auto dest: wal_compact_map)

lemma wal_inv_commit:
  assumes "wal_inv s" "batch_ok b" "ckpt_ok (apply_ops (wal_map s) b)" "wal_commit b s = (Inr (), s')"
  shows "wal_inv s'"
  using assms(4)
proof (cases rule: wal_commit_cases)
  case compact
  have "ckpt_ok (wal_map (appended b s))" using assms(3) by simp
  with compact show ?thesis
    using wal_inv_compact wal_inv_appended [OF assms(1,2)] by blast
next
  case plain
  with wal_inv_appended [OF assms(1,2)] show ?thesis by simp
qed (use assms(1) in simp_all)

lemma wal_inv_open:
  assumes "clean base bs d" "wal_open d = Inr s"
  shows "wal_inv s \<and> wal_map s = apply_ops base (concat bs)"
proof -
  have "checkpointed base (checkpoint_bin d)" using assms(1) by (simp add: clean_def)
  note o = wal_open_eq [OF this]
  have "replay_loop 0 0 (contents (wal_log d)) base = Inr (apply_ops base (concat bs))"
    using recovered_clean [OF assms(1)] recovered_eq \<open>checkpointed base (checkpoint_bin d)\<close> by simp
  then have s: "wal_map s = apply_ops base (concat bs)"
      "disk s = d\<lparr>wal_log := Some (contents (wal_log d))\<rparr>"
    using assms(2) o by auto
  then have "clean base bs (disk s)" using assms(1) by (simp add: clean_def)
  with s show ?thesis unfolding wal_inv_def by blast
qed

lemma wal_reopen:
  assumes "wal_inv s"
  obtains s' where "wal_open (disk s) = Inr s'" "wal_inv s'" "wal_map s' = wal_map s"
proof -
  obtain base bs where c: "clean base bs (disk s)" "wal_map s = apply_ops base (concat bs)"
    using assms by (auto simp: wal_inv_def)
  obtain s' where s': "wal_open (disk s) = Inr s'"
    using wal_inv_recovered [OF assms] by (auto simp: recovered_def and_then_Inr_iff)
  with wal_inv_open [OF c(1) s'] c(2) that show ?thesis by simp
qed

section \<open>The storage contract\<close>

definition wal_map_ok :: "WalStorage \<Rightarrow> bool" where
  "wal_map_ok s = bt_sorted (wal_map s)"

lemma wal_storage_sel [simp]:
  "st_get wal_storage s k = Inr (bt_get (wal_map s) k)"
  "st_commit wal_storage b s = wal_commit b s"
  "st_scan_prefix wal_storage s pre = Inr (bt_scan pre (wal_map s))"
  by (simp_all add: wal_storage_def wal_get_def wal_scan_prefix_def)

interpretation wal: storage wal_storage wal_map wal_map_ok
proof unfold_locales
  fix s s' b r e
  assume i: "wal_map_ok s"
  show "bt_sorted (wal_map s)" using i by (simp add: wal_map_ok_def)
  show "wal_map s' = apply_ops (wal_map s) b" if "st_commit wal_storage b s = (Inr (), s')"
    using wal_commit_map [of b s] that by fastforce
  show "wal_map s' = wal_map s \<or> wal_map s' = apply_ops (wal_map s) b"
    if "st_commit wal_storage b s = (Inl e, s')"
    using wal_commit_map [of b s] that by fastforce
  show "wal_map_ok s'" if "st_commit wal_storage b s = (r, s')"
    using wal_commit_map [of b s] that i by (fastforce simp: wal_map_ok_def)
qed simp_all

text \<open>
  A store that survives a reopen: \<open>durable\<close> states hold everything that was acknowledged, and an
  acknowledged commit of a batch that fits keeps the state durable.
\<close>

locale durable_storage = storage S view invar
  for S :: "'s Storage" and view and invar +
  fixes reopen :: "'s \<Rightarrow> StorageError + 's"
    and durable :: "'s \<Rightarrow> bool"
    and fits :: "WriteBatch \<Rightarrow> 's \<Rightarrow> bool"
  assumes durable_invar: "durable s \<Longrightarrow> invar s"
    and durable_commit: "durable s \<Longrightarrow> fits b s \<Longrightarrow> st_commit S b s = (Inr (), s') \<Longrightarrow> durable s'"
    and durable_reopen: "durable s \<Longrightarrow> \<exists>s'. reopen s = Inr s' \<and> durable s' \<and> view s' = view s"
begin

lemma acked_survives:
  assumes "durable s" "fits b s" "st_commit S b s = (Inr (), s1)"
  shows "\<exists>s2. reopen s1 = Inr s2 \<and> durable s2 \<and> view s2 = apply_ops (view s) b"
  using assms durable_commit durable_reopen commit_ok durable_invar by metis

lemma acked_get_survives:
  assumes "durable s" "fits b s" "st_commit S b s = (Inr (), s1)" "batch_effect b k = Some r"
  shows "\<exists>s2. reopen s1 = Inr s2 \<and> st_get S s2 k = Inr r"
proof -
  obtain s2 where s2: "reopen s1 = Inr s2" "durable s2" "view s2 = apply_ops (view s) b"
    using acked_survives [OF assms(1-3)] by blast
  have "bt_get (view s2) k = r"
    using s2(3) assms(4) view_sorted [OF durable_invar [OF assms(1)]] by (simp add: bt_get_apply_ops)
  with s2 get_view durable_invar show ?thesis by auto
qed

end

definition wal_fits :: "WriteBatch \<Rightarrow> WalStorage \<Rightarrow> bool" where
  "wal_fits b s \<longleftrightarrow> batch_ok b \<and> ckpt_ok (apply_ops (wal_map s) b)"

interpretation wald: durable_storage wal_storage wal_map wal_map_ok "\<lambda>s. wal_open (disk s)" wal_inv wal_fits
  by unfold_locales
    (auto simp: wal_map_ok_def wal_inv_sorted wal_fits_def intro: wal_inv_commit elim: wal_reopen)

section \<open>Runs\<close>

text \<open>
  The life of a directory: commits that were acknowledged, compactions that succeed or fail, changes
  of the compaction threshold, and closing and opening again.  The list collects the acknowledged
  batches.
\<close>

inductive wal_run :: "WalStorage \<Rightarrow> WriteBatch list \<Rightarrow> WalStorage \<Rightarrow> bool" for s0 where
  start: "wal_run s0 [] s0"
| commit: "wal_run s0 bs s \<Longrightarrow> wal_fits b s \<Longrightarrow> wal_commit b s = (Inr (), s') \<Longrightarrow> wal_run s0 (bs @ [b]) s'"
| compact: "wal_run s0 bs s \<Longrightarrow> ckpt_ok (wal_map s) \<Longrightarrow> wal_compact s = (r, s') \<Longrightarrow> wal_run s0 bs s'"
| threshold: "wal_run s0 bs s \<Longrightarrow> wal_run s0 bs (set_auto_compact_threshold n s)"
| reopen: "wal_run s0 bs s \<Longrightarrow> wal_open (disk s) = Inr s' \<Longrightarrow> wal_run s0 bs s'"

lemma wal_run_inv:
  assumes "wal_run s0 bs s" "wal_inv s0"
  shows "wal_inv s \<and> wal_map s = apply_ops (wal_map s0) (concat bs)"
  using assms
proof (induction rule: wal_run.induct)
  case (commit bs s b s')
  then have "wal_inv s'" by (auto simp: wal_fits_def intro: wal_inv_commit)
  moreover have "wal_map s' = apply_ops (wal_map s) b"
    using wal.commit_ok [of s b s'] commit wal_inv_sorted by (simp add: wal_map_ok_def)
  ultimately show ?case using commit by simp
next
  case (compact bs s r s')
  then show ?case using wal_inv_compact by metis
next
  case (threshold bs s n)
  have "wal_inv (set_auto_compact_threshold n s) = wal_inv s"
    by (simp add: set_auto_compact_threshold_def wal_inv_def)
  with threshold show ?case by (simp add: set_auto_compact_threshold_def)
next
  case (reopen bs s s')
  then show ?case using wal_reopen [of s] by (metis sum.inject(2))
qed simp

text \<open>
  C2. Durability.  Start from any clean directory and run any sequence of acknowledged commits,
  compactions (successful or failing), threshold changes and reopens.  Opening the directory
  afterwards succeeds and sees exactly the initial contents with all acknowledged batches applied
  in order, which is also what the running process sees.
\<close>

theorem acked_commits_survive_reopen:
  assumes "wal_inv s0" and "wal_run s0 bs s"
  shows "recovered (disk s) = Inr (apply_ops (wal_map s0) (concat bs))
         \<and> wal_map s = apply_ops (wal_map s0) (concat bs)"
  using wal_run_inv [OF assms(2,1)] wal_inv_recovered by auto

text \<open>A new directory, and the store opened on it.\<close>

definition fresh_dir :: "nat \<Rightarrow> Disk" where
  "fresh_dir free = \<lparr>wal_log = None, checkpoint_bin = None, checkpoint_tmp = None, space = free\<rparr>"

definition fresh_wal :: "nat \<Rightarrow> WalStorage" where
  "fresh_wal free =
     \<lparr>disk = (fresh_dir free)\<lparr>wal_log := Some []\<rparr>, wal_map = [], wal_bytes = 0,
      auto_compact_threshold = 8 * 1024 * 1024\<rparr>"

lemma open_fresh: "wal_open (fresh_dir n) = Inr (fresh_wal n)"
  by (simp add: wal_open_def fresh_dir_def fresh_wal_def)

lemma fresh_wal_sel [simp]:
  "wal_map (fresh_wal n) = []" "wal_bytes (fresh_wal n) = 0" "space (disk (fresh_wal n)) = n"
  "wal_log (disk (fresh_wal n)) = Some []" "checkpoint_bin (disk (fresh_wal n)) = None"
  "checkpoint_tmp (disk (fresh_wal n)) = None" "auto_compact_threshold (fresh_wal n) = 8388608"
  by (simp_all add: fresh_wal_def fresh_dir_def)

lemma fresh_wal_inv: "wal_inv (fresh_wal n)"
proof -
  have "clean [] [] (disk (fresh_wal n))" by (simp add: clean_def checkpointed_def)
  then show ?thesis unfolding wal_inv_def by fastforce
qed

text \<open>A commit that fits the disk and stays below the threshold is acknowledged without compaction.\<close>

lemma commit_plain:
  assumes "b \<noteq> []" "length (encode_commit_record b) \<le> space (disk s)"
    and "wal_bytes s + of_nat (length (encode_commit_record b)) < auto_compact_threshold s"
  shows "wal_commit b s = (Inr (), appended b s)"
proof -
  have "\<not> auto_compact_threshold s \<le> wal_bytes s + of_nat (length (encode_commit_record b))"
    using assms(3) by (simp add: not_le)
  with assms(1,2) show ?thesis by (simp add: wal_commit_eq Let_def appended_def)
qed

lemmas small_batch = batch_ok_def ckpt_ok_def wal_fits_def len_ok_def commit_body_def
  checkpoint_body_def length_record

theorem acked_commits_survive_reopen_witness:
  "\<exists>s. wal_run (fresh_wal 1000) [[Put [1] [2]], [Put [3] [4], Delete [1]]] s
     \<and> recovered (disk s) = Inr [([3], [4])]"
proof -
  let ?b = "[Put [1] [2]]" and ?c = "[Put [3] [4], Delete [1]]"
  let ?s0 = "fresh_wal 1000" let ?s1 = "appended ?b ?s0" let ?s2 = "appended ?c ?s1"
  have 1: "wal_commit ?b ?s0 = (Inr (), ?s1)" by (rule commit_plain) (simp_all add: small_batch)
  have 2: "wal_commit ?c ?s1 = (Inr (), ?s2)"
    by (rule commit_plain) (simp_all add: small_batch appended_def)
  have f: "wal_fits ?b ?s0" "wal_fits ?c ?s1" by (simp_all add: small_batch)
  have "wal_run ?s0 ([] @ [?b]) ?s1" by (rule wal_run.commit [OF wal_run.start f(1) 1])
  from wal_run.commit [OF this f(2) 2] have r: "wal_run ?s0 [?b, ?c] ?s2" by simp
  with acked_commits_survive_reopen [OF fresh_wal_inv r] show ?thesis by auto
qed

section \<open>Crashes\<close>

text \<open>
  The directories a crash can leave.  During \<open>compact\<close>: the temporary checkpoint partly written,
  or renamed with the log not yet truncated, or all of it done.  During \<open>commit\<close>: a prefix of the
  record appended, or the whole record and then a crash of the automatic compaction.  Free space is
  arbitrary afterwards.
\<close>

inductive compact_crash :: "WalStorage \<Rightarrow> Disk \<Rightarrow> bool" for s where
  before: "compact_crash s ((disk s)\<lparr>space := n\<rparr>)"
| tmp: "compact_crash s ((disk s)\<lparr>checkpoint_tmp := Some (take k (checkpoint_bytes (wal_map s) 0)), space := n\<rparr>)"
| renamed: "compact_crash s ((rename_checkpoint ((disk s)\<lparr>checkpoint_tmp := Some (checkpoint_bytes (wal_map s) 0)\<rparr>))\<lparr>space := n\<rparr>)"
| truncated: "compact_crash s ((truncate_wal (rename_checkpoint
      ((disk s)\<lparr>checkpoint_tmp := Some (checkpoint_bytes (wal_map s) 0)\<rparr>)))\<lparr>space := n\<rparr>)"

inductive commit_crash :: "WriteBatch \<Rightarrow> WalStorage \<Rightarrow> Disk \<Rightarrow> bool" for b s where
  append: "commit_crash b s ((disk s)\<lparr>wal_log := Some (contents (wal_log (disk s))
             @ take k (encode_commit_record b)), space := n\<rparr>)"
| compacting: "compact_crash (appended b s) d \<Longrightarrow> commit_crash b s d"

text \<open>Reopening after a crash in a compaction finds exactly the contents before it.\<close>

lemma compact_crash_recovered:
  assumes "compact_crash s d" "wal_inv s" "ckpt_ok (wal_map s)"
  shows "recovered d = Inr (wal_map s)"
proof -
  obtain base bs where c: "clean base bs (disk s)" "wal_map s = apply_ops base (concat bs)"
    using assms(2) by (auto simp: wal_inv_def)
  have srt: "bt_sorted (wal_map s)" "bt_sorted base"
    using wal_inv_sorted [OF assms(2)] c(1) by (auto simp: clean_def checkpointed_def)
  show ?thesis using assms(1)
  proof cases
    case (before n)
    then have "clean base bs d" using c(1) by (simp add: clean_def)
    then show ?thesis using c(2) recovered_clean by simp
  next
    case (tmp k n)
    then have "clean base bs d" using c(1) by (simp add: clean_def)
    then show ?thesis using c(2) recovered_clean by simp
  next
    case (renamed n)
    then have "clean (wal_map s) bs d"
      using c(1) assms(3) srt by (simp add: clean_def checkpointed_def rename_checkpoint_def)
    then have "recovered d = Inr (apply_ops (wal_map s) (concat bs))" by (rule recovered_clean)
    then show ?thesis using c(2) apply_ops_idem srt(2) by simp
  next
    case (truncated n)
    then have "clean (wal_map s) [] d"
      using assms(3) srt by (simp add: clean_def checkpointed_def rename_checkpoint_def truncate_wal_def)
    then show ?thesis using recovered_clean by fastforce
  qed
qed

text \<open>
  C3. Crash atomicity of commits.  If the process dies at any point inside a commit (in the middle
  of the log append, before or after it, or at any step of the compaction the commit triggered),
  reopening succeeds and finds all of the batch applied or none of it.
\<close>

theorem crash_during_commit_is_atomic:
  assumes "wal_inv s" and "wal_fits b s" and "commit_crash b s d"
  shows "recovered d = Inr (wal_map s) \<or> recovered d = Inr (apply_ops (wal_map s) b)"
  using assms(3)
proof cases
  case (append n k)
  obtain base bs where c: "clean base bs (disk s)" "wal_map s = apply_ops base (concat bs)"
    using assms(1) by (auto simp: wal_inv_def)
  show ?thesis
  proof (cases "k < length (encode_commit_record b)")
    case True
    have "torn base bs (take k (encode_commit_record b)) d"
      using append c(1) by (simp add: torn_def clean_def)
    with True show ?thesis using recovered_torn assms(2) c(2) by (simp add: wal_fits_def)
  next
    case False
    then have "clean base (bs @ [b]) d"
      using append assms(2) by (intro clean_snoc [OF c(1)]) (simp_all add: wal_fits_def)
    then show ?thesis using recovered_clean c(2) by fastforce
  qed
next
  case compacting
  with compact_crash_recovered [of "appended b s" d] wal_inv_appended [OF assms(1)] assms(2)
  show ?thesis by (simp add: wal_fits_def)
qed

theorem crash_during_commit_is_atomic_witness:
  "\<exists>d. commit_crash [Put [1] [2]] (fresh_wal 1000) d
     \<and> (recovered d = Inr [] \<or> recovered d = Inr [([1], [2])])"
proof -
  let ?b = "[Put [1] [2]]"
  let ?d = "(disk (fresh_wal 1000))\<lparr>wal_log := Some (contents (wal_log (disk (fresh_wal 1000)))
             @ take 11 (encode_commit_record ?b)), space := 0\<rparr>"
  have c: "commit_crash ?b (fresh_wal 1000) ?d" by (rule commit_crash.append)
  have f: "wal_fits ?b (fresh_wal 1000)" by (simp add: small_batch)
  from crash_during_commit_is_atomic [OF fresh_wal_inv f c] c show ?thesis by auto
qed

text \<open>
  C27. Compaction is invisible and crash-safe: whether it succeeds, fails for lack of space or is
  cut off by a crash at any step, the running store and the reopened directory hold the same
  contents as before it.
\<close>

theorem compaction_preserves_contents:
  assumes "wal_inv s" and "ckpt_ok (wal_map s)"
  shows "(\<forall>r s'. wal_compact s = (r, s') \<longrightarrow> wal_map s' = wal_map s \<and> recovered (disk s') = Inr (wal_map s))
         \<and> (\<forall>d. compact_crash s d \<longrightarrow> recovered d = Inr (wal_map s))"
  using wal_inv_compact [OF assms] wal_inv_recovered compact_crash_recovered [OF _ assms] by metis

theorem compaction_preserves_contents_witness:
  "\<exists>s'. wal_compact (appended [Put [1] [2]] (fresh_wal 1000)) = (Inr (), s')
     \<and> recovered (disk s') = Inr [([1], [2])]"
proof -
  let ?s = "appended [Put [1] [2]] (fresh_wal 1000)"
  have i: "wal_inv ?s" by (rule wal_inv_appended [OF fresh_wal_inv]) (simp add: small_batch)
  have o: "ckpt_ok (wal_map ?s)" by (simp add: small_batch)
  have "length (checkpoint_bytes (wal_map ?s) 0) \<le> space (disk ?s)"
    by (simp add: checkpoint_bytes_def Let_def small_batch appended_def)
  then obtain s' where s': "wal_compact ?s = (Inr (), s')" by (simp add: wal_compact_eq Let_def)
  with compaction_preserves_contents [OF i o] show ?thesis by auto
qed



section \<open>Commits after a recovery from a torn log\<close>

text \<open>
  \<open>open\<close> ignores a torn last record but leaves it in the file, and the next commit appends behind
  it.  The log then holds complete records, a piece \<open>take k\<close> of one, and a complete record.
\<close>

definition torn_disk :: "WriteBatch \<Rightarrow> nat \<Rightarrow> WalStorage \<Rightarrow> Disk" where
  "torn_disk b k s =
     (disk s)\<lparr>wal_log := Some (contents (wal_log (disk s)) @ take k (encode_commit_record b))\<rparr>"

lemma commit_after_torn:
  assumes "wal_inv s" "batch_ok b" "k < length (encode_commit_record b)"
    and "wal_open (torn_disk b k s) = Inr s1"
    and "c \<noteq> []" "wal_commit c s1 = (Inr (), s2)" "wal_log (disk s2) \<noteq> Some []"
  obtains base bs where "wal_map s = apply_ops base (concat bs)" "wal_map s2 = apply_ops (wal_map s) c"
    "torn base bs (take k (encode_commit_record b) @ encode_commit_record c) (disk s2)"
proof -
  obtain base bs where c: "clean base bs (disk s)" "wal_map s = apply_ops base (concat bs)"
    using assms(1) by (auto simp: wal_inv_def)
  let ?t = "take k (encode_commit_record b)"
  have t: "torn base bs ?t (torn_disk b k s)"
    using c(1) by (simp add: torn_def clean_def torn_disk_def)
  then have ck: "checkpointed base (checkpoint_bin (torn_disk b k s))" by (simp add: torn_def)
  have m: "wal_map s1 = wal_map s"
    using recovered_torn [OF t assms(2,3)] c(2) assms(4) by (simp add: recovered_def)
  have d: "disk s1 = (torn_disk b k s)\<lparr>wal_log := Some (contents (wal_log (torn_disk b k s)))\<rparr>"
    using assms(4) wal_open_eq [OF ck] by (auto simp: and_then_Inr_iff)
  have "s2 = appended c s1"
    using assms(6)
  proof (cases rule: wal_commit_cases)
    case compact
    then show ?thesis using assms(7) by (cases rule: wal_compact_cases [of "appended c s1"]) auto
  qed (use assms(5) in simp_all)
  then have "torn base bs (?t @ encode_commit_record c) (disk s2)" "wal_map s2 = apply_ops (wal_map s) c"
    using t d m by (simp_all add: torn_def appended_def)
  with c(2) that show ?thesis by blast
qed

text \<open>
  A defect of recovery: a crash leaves one to three bytes of a record's magic number, the store
  is opened again (successfully) and the next commit is acknowledged without a compaction.  From
  then on the directory cannot be opened any more: every open reports corruption.
\<close>

theorem torn_magic_then_commit_makes_log_unreadable:
  assumes "wal_inv s" and "batch_ok b" and "0 < k" and "k < 4"
    and "wal_open (torn_disk b k s) = Inr s1"
    and "c \<noteq> []" and "wal_commit c s1 = (Inr (), s2)" and "wal_log (disk s2) \<noteq> Some []"
  shows "\<exists>msg. wal_open (disk s2) = Inl (Corrupt msg)"
proof -
  have k: "k < length (encode_commit_record b)" using assms(4) by (simp add: length_record)
  obtain base bs where t: "torn base bs (take k (encode_commit_record b) @ encode_commit_record c) (disk s2)"
    using commit_after_torn [OF assms(1,2) k assms(5-8)] .
  have "take k (encode_commit_record b) = take k MAGIC"
    using assms(4) by (simp add: encode_commit_record_def Let_def)
  moreover obtain msg where "replay_loop 0 (length (wal_records bs)) (take k MAGIC @ encode_commit_record c)
      (apply_ops base (concat bs)) = Inl (Corrupt msg)"
    using replay_misaligned [OF assms(3,4)] by blast
  ultimately have "replay_loop 0 0 (contents (wal_log (disk s2))) base = Inl (Corrupt msg)"
    using t by (simp add: torn_def replay_log)
  moreover have "checkpointed base (checkpoint_bin (disk s2))" using t by (simp add: torn_def)
  ultimately show ?thesis by (simp add: wal_open_eq)
qed

theorem torn_magic_then_commit_makes_log_unreadable_witness:
  "\<exists>s1 s2 msg. wal_open (torn_disk [Put [1] [2]] 2 (fresh_wal 1000)) = Inr s1
     \<and> wal_commit [Put [3] [4]] s1 = (Inr (), s2) \<and> wal_open (disk s2) = Inl (Corrupt msg)"
proof -
  let ?b = "[Put [1] [2]]" and ?c = "[Put [3] [4]]" and ?s = "fresh_wal 1000"
  have b: "batch_ok ?b" by (simp add: small_batch)
  have t: "wal_log (torn_disk ?b 2 ?s) = Some (take 2 MAGIC)"
    by (simp add: torn_disk_def encode_commit_record_def Let_def)
  have r: "replay_loop 0 0 (take 2 MAGIC) [] = Inr []" by (subst replay_loop.simps) simp
  have o: "wal_open (torn_disk ?b 2 ?s) = Inr \<lparr>disk = torn_disk ?b 2 ?s, wal_map = [], wal_bytes = 2,
      auto_compact_threshold = 8388608\<rparr>" (is "_ = Inr ?s1")
    by (simp add: wal_open_def t replay_wal_def r)
      (simp add: torn_disk_def fresh_wal_def fresh_dir_def encode_commit_record_def Let_def r)
  have c: "wal_commit ?c ?s1 = (Inr (), appended ?c ?s1)"
    by (rule commit_plain) (simp_all add: small_batch torn_disk_def)
  have "wal_log (disk (appended ?c ?s1)) \<noteq> Some []"
    by (simp add: appended_def encode_commit_record_def Let_def)
  from torn_magic_then_commit_makes_log_unreadable [OF fresh_wal_inv b _ _ o _ c this] o c
  show ?thesis by auto
qed

text \<open>
  C29. The same defect with a longer piece: when at least the record header survived the crash and
  the next acknowledged record is shorter than what the torn one lacks, the acknowledged commit is
  applied in memory but silently lost at the next open.
\<close>

theorem torn_record_swallows_acked_commit:
  assumes "wal_inv s" and "batch_ok b" and "9 \<le> k"
    and "k + length (encode_commit_record c) < length (encode_commit_record b)"
    and "wal_open (torn_disk b k s) = Inr s1"
    and "c \<noteq> []" and "wal_commit c s1 = (Inr (), s2)" and "wal_log (disk s2) \<noteq> Some []"
  shows "wal_map s2 = apply_ops (wal_map s) c \<and> recovered (disk s2) = Inr (wal_map s)"
proof -
  have k: "k < length (encode_commit_record b)" using assms(4) by simp
  obtain base bs where t: "wal_map s = apply_ops base (concat bs)" "wal_map s2 = apply_ops (wal_map s) c"
      "torn base bs (take k (encode_commit_record b) @ encode_commit_record c) (disk s2)"
    using commit_after_torn [OF assms(1,2) k assms(5-8)] .
  have "replay_loop 0 0 (contents (wal_log (disk s2))) base = Inr (wal_map s)"
    using t(1,3) replay_torn_then [OF assms(2,3) _ assms(4)] k by (simp add: torn_def replay_log)
  then show ?thesis using t(2,3) recovered_eq [of base "disk s2"] by (simp add: torn_def)
qed

theorem torn_record_swallows_acked_commit_witness:
  "\<exists>s1 s2. wal_open (torn_disk [Put [1] (replicate 100 0)] 20 (fresh_wal 1000)) = Inr s1
     \<and> wal_commit [Put [3] [4]] s1 = (Inr (), s2)
     \<and> wal_map s2 = [([3], [4])] \<and> recovered (disk s2) = Inr []"
proof -
  let ?b = "[Put [1] (replicate 100 0)]" and ?c = "[Put [3] [4]]" and ?s = "fresh_wal 1000"
  have b: "batch_ok ?b" by (simp add: small_batch)
  have len: "length (encode_commit_record ?b) = 128" by (simp add: small_batch)
  have d: "disk ?s = \<lparr>wal_log = Some [], checkpoint_bin = None, checkpoint_tmp = None, space = 1000\<rparr>"
    by (simp add: fresh_wal_def fresh_dir_def)
  have "replay_loop 0 0 (take 20 (encode_commit_record ?b)) [] = Inr []"
    using replay_torn [OF b, of 20 0 0 "[]"] len by simp
  then have o: "wal_open (torn_disk ?b 20 ?s) = Inr \<lparr>disk = torn_disk ?b 20 ?s, wal_map = [], wal_bytes = 20,
      auto_compact_threshold = 8388608\<rparr>" (is "_ = Inr ?s1")
    by (simp add: wal_open_def replay_wal_def torn_disk_def d len)
  have c: "wal_commit ?c ?s1 = (Inr (), appended ?c ?s1)"
    by (rule commit_plain) (simp_all add: small_batch torn_disk_def)
  have l: "wal_log (disk (appended ?c ?s1)) \<noteq> Some []"
    by (simp add: appended_def encode_commit_record_def Let_def)
  have s: "20 + length (encode_commit_record ?c) < length (encode_commit_record ?b)"
    by (simp add: small_batch)
  from torn_record_swallows_acked_commit [OF fresh_wal_inv b _ s o _ c l] o c
  show ?thesis by auto
qed

end
