(* ===== verification/Ns_Refine.thy ===== *)
theory Ns_Refine
  imports Ns_Spec Wal_Recovery
begin

text \<open>
  The operations of \<open>Database\<close> over any lawful store implement the abstract operations on trees:
  an acknowledged operation has exactly the abstract effect, a refused one returns exactly the
  abstract error and changes nothing, and an operation whose commit fails leaves the tree as it
  was or with the whole effect.  The reads (\<open>get\<close>, \<open>exists\<close>, \<open>list\<close>, \<open>paths_with_type\<close>) return
  exactly what the tree says.
\<close>

section \<open>Outcomes\<close>

fun storage_failure :: "NsError \<Rightarrow> bool" where
  "storage_failure (NsStorage _) = True"
| "storage_failure _ = False"

text \<open>\<open>outcome spec t r t'\<close>: result \<open>r\<close> and new tree \<open>t'\<close> are allowed when the abstract operation on \<open>t\<close> gives \<open>spec\<close>.\<close>

definition outcome :: "NsError + ns_tree \<Rightarrow> ns_tree \<Rightarrow> NsError + unit \<Rightarrow> ns_tree \<Rightarrow> bool" where
  "outcome spec t r t' \<longleftrightarrow>
     (case r of
        Inr _ \<Rightarrow> spec = Inr t'
      | Inl e \<Rightarrow> spec = Inl e \<and> t' = t \<or> storage_failure e \<and> (t' = t \<or> spec = Inr t'))"

text \<open>A store in a good state whose contents are the tree \<open>t\<close>, with next identifier \<open>n\<close>.\<close>

definition ns_state :: "('s \<Rightarrow> kv) \<Rightarrow> ('s \<Rightarrow> bool) \<Rightarrow> ns_tree \<Rightarrow> u64 \<Rightarrow> 's \<Rightarrow> bool" where
  "ns_state view invar t n s \<longleftrightarrow> invar s \<and> stores t n (bt_get (view s))"

lemma outcome_ok [simp]: "outcome spec t (Inr u) t' \<longleftrightarrow> spec = Inr t'"
  by (simp add: outcome_def)

lemma outcome_refused: "outcome (Inl e) t (Inl e) t"
  by (simp add: outcome_def)

text \<open>The effect of a batch on the stored map.\<close>

definition upds :: "WriteBatch \<Rightarrow> kv_map \<Rightarrow> kv_map" where
  "upds ops f = fold (\<lambda>op f. f(op_key op := op_result op)) ops f"

lemma upds_simps [simp]:
  "upds [] f = f" "upds (op # ops) f = upds ops (f(op_key op := op_result op))"
  by (simp_all add: upds_def)

lemma upds_append [simp]: "upds (a @ b) f = upds b (upds a f)"
  by (simp add: upds_def)

lemma bt_get_batch:
  "bt_sorted m \<Longrightarrow> bt_get (apply_ops m ops) = upds ops (bt_get m)"
  by (induction ops arbitrary: m) (simp_all add: bt_get_apply_op bt_sorted_apply_op)

fun node_kind :: "ns_node \<Rightarrow> EntryKind" where
  "node_kind DirN = Directory"
| "node_kind (ValN _) = EntryValue"

definition spec_entry :: "DbPath \<Rightarrow> ns_node \<Rightarrow> Entry" where
  "spec_entry path nd =
     \<lparr>e_path = path, e_kind = node_kind nd,
      e_value = (case nd of DirN \<Rightarrow> None | ValN v \<Rightarrow> Some v)\<rparr>"

text \<open>The collection the structure helpers start from.\<close>

definition spec_value :: "(Value \<Rightarrow> 'c option) \<Rightarrow> string \<Rightarrow> 'c \<Rightarrow> DbPath \<Rightarrow> ns_tree \<Rightarrow> NsError + 'c" where
  "spec_value select what none path t =
     (case t (segments path) of
        None \<Rightarrow> Inr none
      | Some DirN \<Rightarrow> Inl (IsDirectory (as_str path))
      | Some (ValN v) \<Rightarrow> ok_or (TypeMismatch (as_str path @ '' is not a '' @ what)) (select v))"

lemma sorted_key_distinct:
  assumes "distinct (map f xs)"
  shows "sorted_wrt (<) (map f (sort_key f xs))"
proof -
  have "distinct (map f (sort_key f xs))"
    using assms by (simp add: distinct_map)
  then show ?thesis by (simp add: strict_sorted_iff)
qed

context storage
begin

lemma store_get_view: "invar s \<Longrightarrow> store_get S s = (\<lambda>k. Inr (bt_get (view s) k))"
  by (simp add: store_get_def get_view fun_eq_iff)

lemma store_scan_view: "invar s \<Longrightarrow> store_scan_prefix S s pre = Inr (filter (\<lambda>(k, v). starts_with k pre) (view s))"
  by (simp add: store_scan_prefix_def scan_exact)

lemma resolve_view: "invar s \<Longrightarrow> resolve S s path = resolve_with (\<lambda>k. Inr (bt_get (view s) k)) path"
  by (simp add: resolve_def store_get_view)

lemma resolve_tree:
  "invar s \<Longrightarrow> ns_rep T n (bt_get (view s)) \<Longrightarrow> resolve S s path =
    (case T (segments path) of None \<Rightarrow> Inl (NotFound (as_str path)) | Some (i, nd) \<Rightarrow> Inr (i, node_rec nd))"
  by (simp add: resolve_view resolve_ns_rep)

lemma resolve_graph:
  "invar s \<Longrightarrow> graph_rep T (bt_get (view s)) \<Longrightarrow> resolve S s path =
    (case T (segments path) of None \<Rightarrow> Inl (NotFound (as_str path)) | Some (i, nd) \<Rightarrow> Inr (i, node_rec nd))"
  by (simp add: resolve_view resolve_graph_rep)

lemma get_batch: "invar s \<Longrightarrow>
  bt_get (apply_ops (view s) b) = upds b (bt_get (view s))"
  by (simp add: bt_get_batch view_sorted)

lemma run_batch:
  assumes i: "invar s" and st: "stores t n (bt_get (view s))"
    and err: "\<And>e. spec = Inl e \<Longrightarrow> B = Inl e"
    and ok: "\<And>t'. spec = Inr t' \<Longrightarrow>
      \<exists>b n'. B = Inr b \<and> n' \<in> {n, n + 1} \<and> stores t' n' (bt_get (apply_ops (view s) b))"
    and run: "try_at s B (\<lambda>b. store_commit S b s) = (r, s')"
  shows "\<exists>t' n'. invar s' \<and> n' \<in> {n, n + 1} \<and> stores t' n' (bt_get (view s')) \<and> outcome spec t r t'"
proof (cases spec)
  case (Inl e)
  with err run have "r = Inl e" "s' = s" by simp_all
  with Inl i st outcome_refused show ?thesis by blast
next
  case (Inr t')
  then obtain b n' where b: "B = Inr b" "n' \<in> {n, n + 1}" "stores t' n' (bt_get (apply_ops (view s) b))"
    using ok by blast
  obtain c where c: "st_commit S b s = (c, s')" "r = map_err from_storage_error c"
    using run b(1) by (auto simp: store_commit_def split: prod.splits)
  have i': "invar s'" using commit_invar [OF i c(1)] .
  show ?thesis
  proof (cases c)
    case (Inl e)
    then have "outcome spec t r u" if "u \<in> {t, t'}" for u
      using that c(2) Inr by (auto simp: outcome_def from_storage_error_def)
    moreover have "view s' = view s \<or> view s' = apply_ops (view s) b" using commit_err [OF i] c(1) Inl by blast
    ultimately show ?thesis using i' b st by (metis insert_iff)
  next
    case (Inr u)
    then have "view s' = apply_ops (view s) b" using commit_ok [OF i] c(1) by simp
    with i' b c(2) Inr \<open>spec = Inr t'\<close> show ?thesis by fastforce
  qed
qed

section \<open>Mutations\<close>

lemma db_exists_tree:
  "invar s \<Longrightarrow> stores t n (bt_get (view s)) \<Longrightarrow> db_exists S s path = Inr (t (segments path) \<noteq> None)"
  by (auto simp: db_exists_def stores_def resolve_tree abs_tree_def split: option.splits)

lemma mkdir_batch_tree:
  assumes i: "invar s" and st: "stores t n (bt_get (view s))" and nr: "\<not> is_root path"
  shows "spec_mkdir path t = Inl e \<Longrightarrow> mkdir_batch S s path = Inl e"
    and "n \<noteq> - 1 \<Longrightarrow> path_ok (segments path) \<Longrightarrow> spec_mkdir path t = Inr t' \<Longrightarrow>
      \<exists>b n'. mkdir_batch S s path = Inr b \<and> n' \<in> {n, n + 1} \<and> stores t' n' (bt_get (apply_ops (view s) b))"
proof -
  have pp: "path_parent path = Some (DbPath (butlast (segments path)))" "path_name path = Some (last (segments path))"
    using nr by (simp_all add: path_parent_def path_name_def is_root_def)
  show "mkdir_batch S s path = Inl e" if sp: "spec_mkdir path t = Inl e"
    using sp nr parent_dir_refused [OF st, of path e]
    by (auto simp: mkdir_batch_def spec_mkdir_def db_exists_tree [OF i st] pp resolve_view [OF i]
        and_then_Inl_iff split: if_splits)
  show "\<exists>b n'. mkdir_batch S s path = Inr b \<and> n' \<in> {n, n + 1} \<and> stores t' n' (bt_get (apply_ops (view s) b))"
    if h: "n \<noteq> - 1" "path_ok (segments path)" "spec_mkdir path t = Inr t'"
  proof -
    obtain j where j: "parent_dir (DbPath (butlast (segments path)))
          (resolve_with (\<lambda>k. Inr (bt_get (view s) k)) (DbPath (butlast (segments path)))) = Inr j"
        "bt_get (view s) meta_next_id = Some (encode_id n)"
        "stores t' (n + 1) (put_new j (segments path) n DirN (bt_get (view s)))"
      using mkdir_core [OF st h(1,2) nr h(3)] by blast
    have "t (segments path) = None" using h(3) by (simp add: spec_mkdir_Inr [OF nr])
    then have "mkdir_batch S s path = Inr [Put meta_next_id (encode_id (n + 1)), Put (node_key n) encode_dir_node,
        Put (child_key j (last (segments path))) (encode_id n),
        Put (type_index_key ''directory'' n) (as_bytes (as_str path))]" (is "_ = Inr ?b")
      using j(1,2)
      by (simp add: mkdir_batch_def db_exists_tree [OF i st] pp resolve_view [OF i] alloc_id_def next_id_def
          store_get_view [OF i] batch_put_def batch_new_def Let_def)
    moreover have "bt_get (apply_ops (view s) ?b) = put_new j (segments path) n DirN (bt_get (view s))"
      unfolding get_batch [OF i] put_new_def by simp
    ultimately show ?thesis using j(3) by auto
  qed
qed

lemma mkdir_tree:
  assumes "invar s" "stores t n (bt_get (view s))" "n \<noteq> - 1" "path_ok (segments path)"
    and "mkdir S path s = (r, s')"
  shows "\<exists>t' n'. invar s' \<and> n' \<in> {n, n + 1} \<and> stores t' n' (bt_get (view s'))
           \<and> outcome (spec_mkdir path t) t r t'"
proof (cases "is_root path")
  case True
  then have "r = Inr ()" "s' = s" "spec_mkdir path t = Inr t"
    using assms(5) by (simp_all add: mkdir_def spec_mkdir_def)
  then show ?thesis using assms(1,2) by auto
next
  case False
  with assms(5) have "try_at s (mkdir_batch S s path) (\<lambda>b. store_commit S b s) = (r, s')"
    by (simp add: mkdir_def)
  then show ?thesis
    using mkdir_batch_tree [OF assms(1,2) False] assms(3,4) by (intro run_batch [OF assms(1,2)]) blast+
qed

lemma set_batch_tree:
  assumes i: "invar s" and st: "stores t n (bt_get (view s))"
  shows "spec_set path v t = Inl e \<Longrightarrow> set_batch S s path v = Inl e"
    and "n \<noteq> - 1 \<Longrightarrow> path_ok (segments path) \<Longrightarrow> wf_value v \<Longrightarrow> spec_set path v t = Inr t' \<Longrightarrow>
      \<exists>b n'. set_batch S s path v = Inr b \<and> n' \<in> {n, n + 1} \<and> stores t' n' (bt_get (apply_ops (view s) b))"
proof -
  let ?f = "bt_get (view s)" and ?q = "DbPath (butlast (segments path))" and ?x = "last (segments path)"
  have pp: "path_parent path = Some ?q" "path_name path = Some ?x" if "\<not> is_root path"
    using that by (simp_all add: path_parent_def path_name_def is_root_def)
  note unf = set_batch_def resolve_view [OF i] store_get_view [OF i] alloc_id_def next_id_def
    batch_put_def batch_delete_def batch_new_def Let_def id_of_def
  show "set_batch S s path v = Inl e" if sp: "spec_set path v t = Inl e"
    proof (cases "is_root path")
      case True
      then show ?thesis using sp by (simp add: set_batch_def spec_set_def)
    next
      case nr: False
      from st nr sp show ?thesis by (cases rule: set_refused) (use nr in \<open>simp_all add: unf pp\<close>)
    qed
  show "\<exists>b n'. set_batch S s path v = Inr b \<and> n' \<in> {n, n + 1} \<and> stores t' n' (bt_get (apply_ops (view s) b))"
    if h: "n \<noteq> - 1" "path_ok (segments path)" "wf_value v" "spec_set path v t = Inr t'"
  proof -
    have nr: "\<not> is_root path" using h(4) by (auto simp: spec_set_def)
    from st h(1,2,3) nr h(4) show ?thesis
    proof (cases rule: set_core)
      case (new j)
      then have "set_batch S s path v = Inr [Put meta_next_id (encode_id (n + 1)),
          Put (node_key n) (encode_value_node (encode v)), Put (child_key j ?x) (encode_id n),
          Put (type_index_key (typename v) n) (as_bytes (as_str path))]" (is "_ = Inr ?b")
        using nr by (simp add: unf pp)
      moreover have "bt_get (apply_ops (view s) ?b) = put_new j (segments path) n (ValN (canon v)) ?f"
        unfolding get_batch [OF i] put_new_def by (simp del: node_bytes.simps)
      ultimately show ?thesis using new(4) by auto
    next
      case (old j k w)
      let ?b = "(if typename w \<noteq> typename v then [Delete (type_index_key (typename w) k)] else [])
        @ [Put (node_key k) (encode_value_node (encode v)),
           Put (type_index_key (typename v) k) (as_bytes (as_str path))]"
      have "set_batch S s path v = Inr ?b" using old nr by (simp add: unf pp)
      moreover have "bt_get (apply_ops (view s) ?b) = put_value k (segments path) w (canon v) ?f"
        unfolding get_batch [OF i] put_value_def by (auto simp: fun_eq_iff simp del: node_bytes.simps)
      ultimately show ?thesis using old(5) by auto
    qed
  qed
qed

lemma set_tree:
  assumes "invar s" "stores t n (bt_get (view s))" "n \<noteq> - 1" "path_ok (segments path)" "wf_value v"
    and "db_set S path v s = (r, s')"
  shows "\<exists>t' n'. invar s' \<and> n' \<in> {n, n + 1} \<and> stores t' n' (bt_get (view s'))
           \<and> outcome (spec_set path v t) t r t'"
  using assms(6) set_batch_tree [OF assms(1,2)] assms(3-5) unfolding db_set_def
  by (intro run_batch [OF assms(1,2)]) blast+

lemma no_children_scan:
  assumes "invar s"
  shows "store_scan_prefix S s (child_prefix i) = Inr [] \<longleftrightarrow> (\<forall>x. bt_get (view s) (child_key i x) = None)"
  by (force simp: store_scan_view [OF assms] filter_empty_conv starts_with_child_prefix bt_get_None_iff)

lemma delete_batch_tree:
  assumes i: "invar s" and st: "stores t n (bt_get (view s))"
  shows "spec_delete path t = Inl e \<Longrightarrow> delete_batch S s path = Inl e"
    and "spec_delete path t = Inr t' \<Longrightarrow>
      \<exists>b n'. delete_batch S s path = Inr b \<and> n' \<in> {n, n + 1} \<and> stores t' n' (bt_get (apply_ops (view s) b))"
proof -
  let ?f = "bt_get (view s)"
  note unf = delete_batch_def resolve_view [OF i] batch_delete_def batch_new_def Let_def
  show "delete_batch S s path = Inl e" if sp: "spec_delete path t = Inl e"
  proof (cases "is_root path")
    case True
    then show ?thesis using sp by (simp add: delete_batch_def spec_delete_def)
  next
    case nr: False
    from st nr sp show ?thesis
    proof (cases rule: delete_refused)
      case 1
      then show ?thesis using nr by (simp add: unf)
    next
      case (2 k x)
      then obtain rows where "store_scan_prefix S s (child_prefix k) = Inr rows" "rows \<noteq> []"
        using no_children_scan [OF i] store_scan_view [OF i] by metis
      then show ?thesis using 2 nr by (simp add: unf)
    qed
  qed
  show "\<exists>b n'. delete_batch S s path = Inr b \<and> n' \<in> {n, n + 1} \<and> stores t' n' (bt_get (apply_ops (view s) b))"
    if sp: "spec_delete path t = Inr t'"
  proof -
    have nr: "\<not> is_root path" using sp by (auto simp: spec_delete_def)
    from st nr sp show ?thesis
    proof (cases rule: delete_core)
      case (1 j k nd m)
      let ?b = "[Delete (type_index_key (node_type nd) k), Delete (child_key j (last (segments path))),
        Delete (node_key k)]"
      have "nd = DirN \<Longrightarrow> store_scan_prefix S s (child_prefix k) = Inr []"
        using 1(2) no_children_scan [OF i] by simp
      then have "delete_batch S s path = Inr ?b"
        using 1 nr by (cases nd) (simp_all add: unf)
      moreover have "bt_get (apply_ops (view s) ?b) = drop_node j (segments path) k nd ?f"
        unfolding get_batch [OF i] drop_node_def by simp
      ultimately show ?thesis using 1(5) by auto
    qed
  qed
qed

lemma delete_tree:
  assumes "invar s" "stores t n (bt_get (view s))" and "db_delete S path s = (r, s')"
  shows "\<exists>t' n'. invar s' \<and> n' \<in> {n, n + 1} \<and> stores t' n' (bt_get (view s'))
           \<and> outcome (spec_delete path t) t r t'"
  using assms(3) delete_batch_tree [OF assms(1,2)] unfolding db_delete_def
  by (intro run_batch [OF assms(1,2)]) blast+

section \<open>Reads\<close>

lemma db_get_tree:
  assumes i: "invar s" and st: "stores t n (bt_get (view s))"
  shows "db_get S s path = and_then (spec_get path t) (\<lambda>nd. Inr (spec_entry path nd))"
proof -
  obtain T where T: "ns_rep T n (bt_get (view s))" "t = abs_tree T" using st by (auto simp: stores_def)
  show ?thesis
  proof (cases "T (segments path)")
    case None
    then have "t (segments path) = None" using T(2) by simp
    with None show ?thesis by (simp add: db_get_def resolve_tree [OF i T(1)] spec_get_def)
  next
    case (Some p)
    obtain k nd where p: "p = (k, nd)" by fastforce
    have "node_ok nd" using tree_node [OF ns_rep_parts(1) [OF T(1)]] Some p by blast
    then show ?thesis
      using Some p T(2) node_ok_decode
      by (cases nd) (simp_all add: db_get_def resolve_tree [OF i T(1)] spec_get_def abs_tree_def spec_entry_def)
  qed
qed

lemma list_row_tree:
  assumes i: "invar s" and T: "graph_rep T (bt_get (view s))" and p: "T p = Some (k, DirN)"
    and row: "(key, v) \<in> set (view s)" "starts_with key (child_prefix k)"
  obtains x j nd where "key = child_key k x" "T (p @ [x]) = Some (j, nd)"
    "list_row S s (child_prefix k) (key, v) = Inr (x, node_kind nd)"
proof -
  have tr: "tree_ok T" and nr: "nodes_rep T (bt_get (view s))" and lr: "links_rep T (bt_get (view s))"
    using T by (simp_all add: graph_rep_def)
  obtain x where x: "key = child_key k x" using row(2) starts_with_child_prefix by blast
  have "bt_get (view s) (child_key k x) = Some v"
    using row(1) x bt_get_iff [OF view_sorted [OF i]] by simp
  then obtain j nd where j: "T (p @ [x]) = Some (j, nd)" "v = encode_id j"
    using links_rep_lookup [OF lr tr p] by auto
  have "utf8_string x"
    using tree_node [OF tr j(1)] by (simp add: path_ok_def utf8_path_def)
  then have "list_row S s (child_prefix k) (key, v) = Inr (x, node_kind nd)"
    using x j nodes_repD [OF nr j(1)]
    by (cases nd) (simp_all add: list_row_def id_of_def store_get_view [OF i])
  with x j that show ?thesis by blast
qed

lemma db_list_graph:
  assumes i: "invar s" and T: "graph_rep T (bt_get (view s))" and k: "T (segments path) = Some (k, DirN)"
  shows "\<exists>xs. db_list S s path = Inr xs \<and> sorted_wrt (<) (map fst xs)
    \<and> (\<forall>x kd. (x, kd) \<in> set xs \<longleftrightarrow> (\<exists>j nd. T (segments path @ [x]) = Some (j, nd) \<and> kd = node_kind nd))"
proof -
  have tr: "tree_ok T" and nr: "nodes_rep T (bt_get (view s))" and lr: "links_rep T (bt_get (view s))"
    using T by (simp_all add: graph_rep_def)
  let ?pre = "child_prefix k"
  let ?rows = "filter (\<lambda>(key, v). starts_with key ?pre) (view s)"
  define g where "g = (\<lambda>row :: bytes \<times> bytes.
    let x = string_of_bytes (drop (length ?pre) (fst row)) in (x, node_kind (snd (the (T (segments path @ [x]))))))"
  have row: "list_row S s ?pre r = Inr (g r) \<and> (\<exists>x. fst r = child_key k x)" if "r \<in> set ?rows" for r
  proof -
    have "(fst r, snd r) \<in> set (view s)" "starts_with (fst r) ?pre" using that by (auto simp: case_prod_beta)
    from list_row_tree [OF i T k this] obtain x j nd where
      "fst r = child_key k x" "T (segments path @ [x]) = Some (j, nd)" "list_row S s ?pre r = Inr (x, node_kind nd)"
      by (metis prod.collapse)
    then show ?thesis by (simp add: g_def)
  qed
  then have tm: "try_map (list_row S s ?pre) ?rows = Inr (map g ?rows)" by (intro try_map_Inr) blast
  let ?xs = "sort_key fst (map g ?rows)"
  have l: "db_list S s path = Inr ?xs"
    using k tm by (simp add: db_list_def resolve_graph [OF i T] store_scan_view [OF i])
  have "distinct (map fst ?rows)"
    using bt_sorted_distinct [OF view_sorted [OF i]] by (simp add: distinct_map_filter)
  moreover have "fst (g r) = fst (g r') \<Longrightarrow> fst r = fst r'" if h: "r \<in> set ?rows" "r' \<in> set ?rows" for r r'
  proof -
    obtain x y where "fst r = child_key k x" "fst r' = child_key k y"
      using row [OF h(1)] row [OF h(2)] by blast
    then show "fst (g r) = fst (g r') \<Longrightarrow> fst r = fst r'" by (simp add: g_def)
  qed
  ultimately have "distinct (map (\<lambda>r. fst (g r)) ?rows)" by (rule distinct_map_via)
  then have "distinct (map fst (map g ?rows))" by (simp add: comp_def)
  then have srt: "sorted_wrt (<) (map fst ?xs)" by (rule sorted_key_distinct)
  have "(x, kd) \<in> set ?xs \<longleftrightarrow> (\<exists>j nd. T (segments path @ [x]) = Some (j, nd) \<and> kd = node_kind nd)" for x kd
  proof
    assume "(x, kd) \<in> set ?xs"
    then obtain r where r: "r \<in> set ?rows" "(x, kd) = g r" by auto
    obtain y where y: "fst r = child_key k y" using row [OF r(1)] by blast
    then have "x = y" "kd = node_kind (snd (the (T (segments path @ [y]))))" using r(2) by (simp_all add: g_def)
    moreover have "T (segments path @ [y]) \<noteq> None"
    proof -
      have "bt_get (view s) (child_key k y) = Some (snd r)"
        using r(1) y bt_get_iff [OF view_sorted [OF i]] by (metis filter_is_subset prod.collapse subsetD)
      then show ?thesis using links_rep_lookup [OF lr tr k, of y] by auto
    qed
    ultimately show "\<exists>j nd. T (segments path @ [x]) = Some (j, nd) \<and> kd = node_kind nd" by auto
  next
    assume "\<exists>j nd. T (segments path @ [x]) = Some (j, nd) \<and> kd = node_kind nd"
    then obtain nd j where nd: "T (segments path @ [x]) = Some (j, nd)" "kd = node_kind nd" by blast
    then have "bt_get (view s) (child_key k x) = Some (encode_id j)" using links_repD [OF lr k] by blast
    then have "(child_key k x, encode_id j) \<in> set ?rows"
      using bt_get_iff [OF view_sorted [OF i]] by (auto simp: starts_with_child_prefix)
    moreover have "g (child_key k x, encode_id j) = (x, kd)"
      using nd by (simp add: g_def)
    ultimately show "(x, kd) \<in> set ?xs" by force
  qed
  with l srt show ?thesis by blast
qed

lemma db_list_tree:
  assumes i: "invar s" and st: "stores t n (bt_get (view s))" and d: "t (segments path) = Some DirN"
  shows "\<exists>xs. db_list S s path = Inr xs \<and> sorted_wrt (<) (map fst xs)
    \<and> (\<forall>x k. (x, k) \<in> set xs \<longleftrightarrow> (\<exists>nd. t (segments path @ [x]) = Some nd \<and> k = node_kind nd))"
proof -
  obtain T where T: "ns_rep T n (bt_get (view s))" "t = abs_tree T" using st by (auto simp: stores_def)
  obtain k where k: "T (segments path) = Some (k, DirN)" using d T(2) by (auto simp: abs_tree_Some)
  have e: "(\<exists>nd. t p = Some nd \<and> kd = node_kind nd) \<longleftrightarrow> (\<exists>j nd. T p = Some (j, nd) \<and> kd = node_kind nd)" for p kd
    unfolding T(2) abs_tree_Some by blast
  show ?thesis unfolding e by (rule db_list_graph [OF i ns_rep_graph [OF T(1)] k])
qed

lemma index_row_tree:
  assumes i: "invar s" and T: "ns_rep T n (bt_get (view s))"
    and row: "r \<in> set (view s)" "starts_with (fst r) (type_index_prefix ty)"
  obtains p j nd where "T p = Some (j, nd)" "slash \<notin> set ty \<longrightarrow> node_type nd = ty"
    "fst r = type_index_key (node_type nd) j" "snd r = as_bytes (as_str (DbPath p))"
proof -
  note x = ns_rep_parts(5) [OF T]
  have g: "bt_get (view s) (fst r) = Some (snd r)"
    using row(1) bt_get_iff [OF view_sorted [OF i]] by simp
  have "starts_with (fst r) idx_prefix"
    using row(2) by (auto simp: starts_with_iff type_index_prefix_def idx_prefix_def)
  then obtain t j where k: "fst r = type_index_key t j" using x g unfolding index_rep_def by blast
  then obtain p nd where p: "T p = Some (j, nd)" "t = node_type nd" "snd r = as_bytes (as_str (DbPath p))"
    using x g unfolding index_rep_def by auto
  moreover have "ty = t" if "slash \<notin> set ty" using row(2) k that p(2) type_index_key_starts by simp
  ultimately show ?thesis using that k by blast
qed

lemma paths_with_type_tree:
  assumes i: "invar s" and st: "stores t n (bt_get (view s))"
  shows "\<exists>ps. paths_with_type S s ty = Inr ps \<and> sorted_wrt (<) (map as_str ps)
    \<and> {path. \<exists>nd. t (segments path) = Some nd \<and> node_type nd = ty} \<subseteq> set ps
    \<and> (\<forall>path \<in> set ps. \<exists>nd. t (segments path) = Some nd \<and> (slash \<notin> set ty \<longrightarrow> node_type nd = ty))"
proof -
  obtain T where T: "ns_rep T n (bt_get (view s))" "t = abs_tree T" using st by (auto simp: stores_def)
  note parts = ns_rep_parts [OF T(1)] and row = index_row_tree [OF i T(1)]
  let ?rows = "filter (\<lambda>(key, v). starts_with key (type_index_prefix ty)) (view s)"
  let ?h = "\<lambda>(k, v). and_then (ok_or (Invalid ''idx path utf8'') (from_utf8 v)) ns_parse"
  define g where "g = (\<lambda>r :: bytes \<times> bytes. case path_parse (string_of_bytes (snd r)) of Inr p \<Rightarrow> p | Inl _ \<Rightarrow> path_root)"
  have r0: "r \<in> set (view s) \<and> starts_with (fst r) (type_index_prefix ty)" if "r \<in> set ?rows" for r
    using that by auto
  have gp: "g r = DbPath p" "?h r = Inr (DbPath p)"
    if "T p = Some (j, nd)" "snd r = as_bytes (as_str (DbPath p))" for r p j nd
  proof -
    have ok: "wf_path (DbPath p)" "utf8_path (DbPath p)"
      using tree_node [OF parts(1) that(1)] by (simp_all add: path_ok_def)
    then have "path_parse (as_str (DbPath p)) = Inr (DbPath p)" by (simp add: parse_as_str)
    then show "g r = DbPath p" "?h r = Inr (DbPath p)"
      using that(2) utf8_as_str [OF ok(2)] by (simp_all add: g_def ns_parse_def case_prod_beta)
  qed
  have rw: "\<exists>p j nd. T p = Some (j, nd) \<and> (slash \<notin> set ty \<longrightarrow> node_type nd = ty)
      \<and> fst r = type_index_key (node_type nd) j \<and> g r = DbPath p \<and> ?h r = Inr (DbPath p)" if h: "r \<in> set ?rows" for r
  proof -
    obtain p j nd where "T p = Some (j, nd)" "slash \<notin> set ty \<longrightarrow> node_type nd = ty"
        "fst r = type_index_key (node_type nd) j" "snd r = as_bytes (as_str (DbPath p))"
      using row r0 [OF h] by blast
    with gp show ?thesis by blast
  qed
  have "?h r = Inr (g r)" if "r \<in> set ?rows" for r
    using rw [OF that] by auto
  then have tm: "try_map ?h ?rows = Inr (map g ?rows)" by (rule try_map_Inr)
  let ?ps = "sort_key as_str (map g ?rows)"
  have l: "paths_with_type S s ty = Inr ?ps"
    using tm by (simp add: paths_with_type_def store_scan_view [OF i])
  have "distinct (map fst ?rows)"
    using bt_sorted_distinct [OF view_sorted [OF i]] by (simp add: distinct_map_filter)
  moreover have "fst r = fst r'" if h: "r \<in> set ?rows" "r' \<in> set ?rows" "as_str (g r) = as_str (g r')" for r r'
  proof -
    obtain p j nd where p: "T p = Some (j, nd)" "fst r = type_index_key (node_type nd) j" "g r = DbPath p"
      using rw [OF h(1)] by blast
    obtain p' j' nd' where p': "T p' = Some (j', nd')" "fst r' = type_index_key (node_type nd') j'" "g r' = DbPath p'"
      using rw [OF h(2)] by blast
    have "wf_path (DbPath p)" "wf_path (DbPath p')"
      using tree_node [OF parts(1)] p(1) p'(1) unfolding path_ok_def by blast+
    then have "p = p'" using h(3) p(3) p'(3) as_str_inject by auto
    then show ?thesis using p p' by simp
  qed
  ultimately have "distinct (map (\<lambda>r. as_str (g r)) ?rows)" by (rule distinct_map_via)
  then have "distinct (map as_str (map g ?rows))" by (simp add: comp_def)
  then have srt: "sorted_wrt (<) (map as_str ?ps)" by (rule sorted_key_distinct)
  have "\<exists>nd. t (segments path) = Some nd \<and> (slash \<notin> set ty \<longrightarrow> node_type nd = ty)" if "path \<in> set ?ps" for path
  proof -
    from that obtain r where r: "r \<in> set ?rows" "path = g r" by auto
    then obtain p j nd where "T p = Some (j, nd)" "slash \<notin> set ty \<longrightarrow> node_type nd = ty" "g r = DbPath p"
      using rw by blast
    then show ?thesis using r(2) T(2) by (auto simp: abs_tree_Some)
  qed
  moreover have "path \<in> set ?ps" if h: "t (segments path) = Some nd" "node_type nd = ty" for path nd
  proof -
    obtain j where p: "T (segments path) = Some (j, nd)" using h(1) T(2) by (auto simp: abs_tree_Some)
    let ?r = "(type_index_key ty j, as_bytes (as_str path))"
    have "bt_get (view s) (type_index_key ty j) = Some (as_bytes (as_str path))"
      using parts(5) p h(2) unfolding index_rep_def by force
    then have "?r \<in> set ?rows"
      using bt_get_iff [OF view_sorted [OF i]] by (simp add: type_index_key_prefix)
    moreover have "g ?r = path" using gp(1) [OF p, of ?r] by simp
    ultimately show "path \<in> set ?ps" by force
  qed
  ultimately show ?thesis using l srt by blast
qed

section \<open>Structure helpers\<close>

lemma value_at_tree:
  assumes "invar s" "stores t n (bt_get (view s))"
  shows "value_at select what none S s path = spec_value select what none path t"
  by (auto simp: value_at_def db_get_tree [OF assms] spec_get_def spec_value_def spec_entry_def
      split: option.splits ns_node.splits)

lemma update_tree:
  assumes i: "invar s" and st: "stores t n (bt_get (view s))" and n: "n \<noteq> - 1" "path_ok (segments path)"
    and wf: "\<And>c. spec_value select what none path t = Inr c \<Longrightarrow> wf_value (mk c)"
    and run: "try_at s (value_at select what none S s path) (\<lambda>c. db_set S path (mk c) s) = (r, s')"
  shows "\<exists>t' n'. invar s' \<and> n' \<in> {n, n + 1} \<and> stores t' n' (bt_get (view s'))
           \<and> outcome (and_then (spec_value select what none path t) (\<lambda>c. spec_set path (mk c) t)) t r t'"
proof (cases "spec_value select what none path t")
  case (Inl e)
  then have "r = Inl e" "s' = s" using run by (simp_all add: value_at_tree [OF i st])
  then show ?thesis using i st Inl outcome_refused by auto
next
  case (Inr c)
  then show ?thesis using set_tree [OF i st n wf [OF Inr]] run by (simp add: value_at_tree [OF i st])
qed

end

end
