(* ===== verification/Ns_Open.thy ===== *)
theory Ns_Open
  imports Ns_Refine
begin

text \<open>
  Opening a database: on an empty store \<open>Database::open\<close> creates the empty tree; on a store with an
  intact directory graph it rebuilds a missing or outdated type index.  The loop of
  \<open>rebuild_type_index\<close> visits every node once, so as many iterations as the store has rows suffice.
\<close>

section \<open>Subtrees\<close>

definition subtree :: "id_tree \<Rightarrow> string list \<Rightarrow> string list set" where
  "subtree T p = {q. T q \<noteq> None \<and> (\<exists>r. q = p @ r)}"

lemma subtree_root: "subtree T [] = dom T"
  by (auto simp: subtree_def dom_def)

lemma subtree_unfold:
  assumes "tree_ok T" "T p \<noteq> None"
  shows "subtree T p = insert p (\<Union>x \<in> {x. T (p @ [x]) \<noteq> None}. subtree T (p @ [x]))" (is "?L = ?R")
proof
  show "?L \<subseteq> ?R"
  proof
    fix q assume "q \<in> ?L"
    then obtain r where r: "q = p @ r" "T q \<noteq> None" by (auto simp: subtree_def)
    show "q \<in> ?R"
    proof (cases r)
      case (Cons x r')
      then have "T ((p @ [x]) @ r') \<noteq> None" using r by simp
      then have "T (p @ [x]) \<noteq> None" using tree_no_child [OF assms(1)] by metis
      then show ?thesis using r Cons by (auto simp: subtree_def)
    qed (use r in simp)
  qed
  show "?R \<subseteq> ?L" using assms(2) by (auto simp: subtree_def)
qed

lemma card_children:
  assumes "tree_ok T" "finite (dom T)" "T p \<noteq> None" "distinct xs" "set xs = {x. T (p @ [x]) \<noteq> None}"
  shows "card (subtree T p) = Suc (\<Sum>x\<leftarrow>xs. card (subtree T (p @ [x])))"
proof -
  have fin: "finite (subtree T q)" for q
    by (rule finite_subset [OF _ assms(2)]) (auto simp: subtree_def)
  have "card (\<Union>x \<in> set xs. subtree T (p @ [x])) = (\<Sum>x \<in> set xs. card (subtree T (p @ [x])))"
    by (rule card_UN_disjoint) (simp_all add: fin, auto simp: subtree_def)
  moreover have "p \<notin> (\<Union>x \<in> set xs. subtree T (p @ [x]))" by (auto simp: subtree_def)
  moreover have "subtree T p = insert p (\<Union>x \<in> set xs. subtree T (p @ [x]))"
    using subtree_unfold [OF assms(1,3)] assms(5) by simp
  ultimately show ?thesis
    using assms(4) fin by (simp add: sum_list_distinct_conv_sum_set)
qed

text \<open>A stored tree is finite: it has no more nodes than the store has rows.\<close>

lemma finite_tree:
  assumes "tree_ok T" "nodes_rep T (bt_get m)"
  shows "finite (dom T)" "card (dom T) \<le> length m"
proof -
  let ?k = "\<lambda>p. node_key (fst (the (T p)))"
  have inj: "inj_on ?k (dom T)"
    using tree_inj [OF assms(1)] by (intro inj_onI) auto
  have sub: "?k ` dom T \<subseteq> fst ` set m"
  proof
    fix k assume "k \<in> ?k ` dom T"
    then obtain p i nd where "T p = Some (i, nd)" "k = node_key i" by auto
    then have "bt_get m k \<noteq> None" using nodes_repD [OF assms(2)] by simp
    then show "k \<in> fst ` set m" by (meson bt_get_None_iff)
  qed
  show "finite (dom T)" using sub inj by (meson finite_imageD finite_set finite_subset finite_imageI)
  have "card (dom T) = card (?k ` dom T)" by (simp add: card_image inj)
  also have "\<dots> \<le> card (fst ` set m)" by (rule card_mono [OF _ sub]) simp
  also have "\<dots> \<le> length m" using card_length [of "map fst m"] by simp
  finally show "card (dom T) \<le> length m" .
qed

section \<open>Rebuilding the type index\<close>

definition entry_put :: "id_tree \<Rightarrow> string list \<Rightarrow> BatchOp" where
  "entry_put T p = Put (type_index_key (node_type (snd (the (T p)))) (fst (the (T p)))) (as_bytes (as_str (DbPath p)))"

text \<open>Deleting every index row and writing the entries of all nodes gives the index of the tree.\<close>

lemma upds_other:
  "k \<notin> op_key ` set ops \<Longrightarrow> upds ops f k = f k"
  by (induction ops arbitrary: f) auto

lemma upds_hit:
  assumes "op \<in> set ops" "\<And>op'. op' \<in> set ops \<Longrightarrow> op_key op' = op_key op \<Longrightarrow> op_result op' = op_result op"
  shows "upds ops f (op_key op) = op_result op"
  using assms
proof (induction ops rule: rev_induct)
  case (snoc o' ops)
  show ?case
  proof (cases "op_key o' = op_key op")
    case True
    then show ?thesis using snoc.prems(2) [of o'] by simp
  next
    case False
    then have "op \<in> set ops" using snoc.prems(1) by auto
    from snoc.IH [OF this] snoc.prems(2) False show ?thesis by simp
  qed
qed simp

lemma rebuilt_rep:
  assumes g: "graph_rep T (bt_get m)" and n: "ids_rep T n (bt_get m)" and m: "bt_sorted m"
    and qs: "set qs = dom T"
  shows "ns_rep T n (upds
    (map (\<lambda>(k, v). BatchOp.Delete k) (filter (\<lambda>(k, v). starts_with k idx_prefix) m) @ map (entry_put T) qs) (bt_get m))"
    (is "ns_rep T n ?f")
proof -
  let ?dels = "map (\<lambda>(k, v). BatchOp.Delete k) (filter (\<lambda>(k, v). starts_with k idx_prefix) m)"
  let ?puts = "map (entry_put T) qs"
  define G where "G = upds ?dels (bt_get m)"
  define F where "F = upds ?puts G"
  have tr: "tree_ok T" using g by (simp add: graph_rep_def)
  have pk: "starts_with (op_key op) idx_prefix" if "op \<in> set (?dels @ ?puts)" for op
    using that by (auto simp: entry_put_def)
  have keep: "F k = bt_get m k" if "\<not> starts_with k idx_prefix" for k
  proof -
    have "k \<notin> op_key ` set ?puts" "k \<notin> op_key ` set ?dels" using pk that by fastforce+
    then show ?thesis unfolding F_def G_def by (simp only: upds_other not_False_eq_True)
  qed
  have graph: "graph_rep T F" using g unfolding graph_rep_def nodes_rep_def links_rep_def by (simp add: keep)
  have ids: "ids_rep T n F" using n unfolding ids_rep_def by (simp add: keep)
  have gone: "G k = None" if "starts_with k idx_prefix" for k
  proof (cases "bt_get m k")
    case None
    then have "k \<notin> op_key ` set ?dels" by (force simp: bt_get_None_iff)
    then show ?thesis using None upds_other unfolding G_def by metis
  next
    case (Some v)
    then have d: "BatchOp.Delete k \<in> set ?dels" using that bt_get_iff [OF m] by force
    have "op_result op' = None" if "op' \<in> set ?dels" for op' using that by auto
    then show ?thesis unfolding G_def using upds_hit [OF d] by simp
  qed
  have hit: "F (type_index_key (node_type nd) i) = Some (as_bytes (as_str (DbPath p)))"
    if p: "T p = Some (i, nd)" for p i nd
  proof -
    have o: "entry_put T p \<in> set ?puts" using p qs by auto
    have "op' = entry_put T p" if "op' \<in> set ?puts" "op_key op' = op_key (entry_put T p)" for op'
    proof -
      obtain q j nd' where q: "T q = Some (j, nd')" "op' = entry_put T q" using \<open>op' \<in> set ?puts\<close> qs by auto
      then have "j = i" using that(2) p by (simp add: entry_put_def)
      then show ?thesis using q p tree_inj [OF tr] by blast
    qed
    then show ?thesis unfolding F_def using upds_hit [OF o, of G] p by (simp add: entry_put_def)
  qed
  have miss: "\<exists>p i nd. T p = Some (i, nd) \<and> k = type_index_key (node_type nd) i"
    if "starts_with k idx_prefix" "F k \<noteq> None" for k
  proof -
    have "k \<in> op_key ` set ?puts" using upds_other [of k ?puts G] gone that unfolding F_def by metis
    then obtain q i nd where "T q = Some (i, nd)" "k = op_key (entry_put T q)" using qs by auto
    then show ?thesis unfolding entry_put_def by fastforce
  qed
  have "index_rep T F"
    unfolding index_rep_def
  proof (intro conjI allI impI)
    fix t i b
    show "F (type_index_key t i) = Some b \<longleftrightarrow>
        (\<exists>p nd. T p = Some (i, nd) \<and> t = node_type nd \<and> b = as_bytes (as_str (DbPath p)))"
    proof
      assume a: "F (type_index_key t i) = Some b"
      then obtain p nd where "T p = Some (i, nd)" "t = node_type nd"
        using miss [of "type_index_key t i"] by auto
      moreover have "b = as_bytes (as_str (DbPath p))" using a hit calculation by simp
      ultimately show "\<exists>p nd. T p = Some (i, nd) \<and> t = node_type nd \<and> b = as_bytes (as_str (DbPath p))" by blast
    qed (use hit in blast)
  next
    fix k b assume "starts_with k idx_prefix" "F k = Some b"
    then show "\<exists>t i. k = type_index_key t i" using miss by blast
  qed
  with graph ids show ?thesis by (simp add: ns_rep_iff F_def G_def)
qed

section \<open>The empty tree\<close>

definition root_tree :: id_tree where
  "root_tree p = (if p = [] then Some (ROOT_ID, DirN) else None)"

definition empty_tree :: ns_tree where
  "empty_tree p = (if p = [] then Some DirN else None)"

lemma abs_root_tree: "abs_tree root_tree = empty_tree"
  by (auto simp: abs_tree_def root_tree_def empty_tree_def fun_eq_iff)

text \<open>What \<open>open\<close> writes into an empty store.\<close>

definition root_batch :: WriteBatch where
  "root_batch = [Put (node_key 1) encode_dir_node, Put meta_next_id (encode_id 2),
     Put (type_index_key ''directory'' 1) (as_bytes ''/'')]"

lemma path_ok_Nil [simp]: "path_ok []"
  by (simp add: path_ok_def wf_path_def utf8_path_def)

lemma root_rep: "ns_rep root_tree 2 (bt_get (apply_ops [] root_batch))"
proof -
  have f: "bt_get (apply_ops [] root_batch) = [node_key 1 \<mapsto> encode_dir_node, meta_next_id \<mapsto> encode_id 2,
      type_index_key ''directory'' 1 \<mapsto> as_bytes ''/'']" (is "_ = ?f")
    unfolding bt_get_batch [of "[]", simplified] by (simp add: root_batch_def fun_eq_iff)
  have "tree_ok root_tree" by (simp add: tree_ok_def root_tree_def)
  moreover have "ids_rep root_tree 2 ?f" by (simp add: ids_rep_def root_tree_def ROOT_ID_def)
  moreover have "nodes_rep root_tree ?f" by (auto simp: nodes_rep_def root_tree_def ROOT_ID_def)
  moreover have "links_rep root_tree ?f" by (simp add: links_rep_def root_tree_def)
  moreover have "index_rep root_tree ?f"
    by (auto simp: index_rep_def root_tree_def ROOT_ID_def as_str_def split: if_splits)
  ultimately show ?thesis by (simp add: f ns_rep_def)
qed

lemma length_root_batch: "length (apply_ops [] root_batch) \<le> 3"
  by (simp add: root_batch_def)

definition opened :: "id_tree \<Rightarrow> u64 \<Rightarrow> NsError + unit \<Rightarrow> kv_map \<Rightarrow> bool" where
  "opened T n r f \<longleftrightarrow>
     (case r of
        Inr _ \<Rightarrow> ns_rep T n f \<and> f ver_key = Some (u64_to_be INDEX_VER)
      | Inl e \<Rightarrow> storage_failure e)"

lemma ver_key_distinct [simp]:
  "ver_key \<noteq> meta_next_id" "meta_next_id \<noteq> ver_key" "node_key i \<noteq> ver_key" "child_key p x \<noteq> ver_key"
  "type_index_key t i \<noteq> ver_key" "\<not> starts_with ver_key idx_prefix"
  by (simp_all add: ver_key_def meta_next_id_def node_key_def child_key_def type_index_key_def idx_prefix_def
      starts_with_def)

lemma ns_rep_ver: "ns_rep T n (f(ver_key \<mapsto> b)) \<longleftrightarrow> ns_rep T n f"
proof -
  have "index_rep T (f(ver_key \<mapsto> b)) \<longleftrightarrow> index_rep T f"
    unfolding index_rep_def by (rule arg_cong2 [of _ _ _ _ "(\<and>)"]) (simp, metis fun_upd_other ver_key_distinct(6))
  then show ?thesis by (simp add: ns_rep_def ids_rep_def nodes_rep_def links_rep_def)
qed

context storage
begin

lemma rebuild_step:
  assumes i: "invar s" and g: "graph_rep T (bt_get (view s))" and p: "T p \<noteq> None"
  obtains cs where "set cs = {x. T (p @ [x]) \<noteq> None}" "distinct cs"
    "rebuild_loop (Suc fuel) S s (DbPath p # stack) batch
     = rebuild_loop fuel S s (rev (map (\<lambda>x. DbPath (p @ [x])) cs) @ stack) (batch @ [entry_put T p])"
proof -
  have tr: "tree_ok T" using g by (simp add: graph_rep_def)
  obtain k nd where k: "T p = Some (k, nd)" using p by auto
  have ty: "node_type_name (node_rec nd) = Inr (node_type nd)"
    using tree_node [OF tr k] node_ok_decode by (cases nd) (auto simp: node_type_name_def)
  have e: "entry_put T p = Put (type_index_key (node_type nd) k) (as_bytes (as_str (DbPath p)))"
    by (simp add: entry_put_def k)
  show ?thesis
  proof (cases nd)
    case DirN
    obtain xs where xs: "db_list S s (DbPath p) = Inr xs" "sorted_wrt (<) (map fst xs)"
        "\<And>x kd. (x, kd) \<in> set xs \<longleftrightarrow> (\<exists>j nd. T (p @ [x]) = Some (j, nd) \<and> kd = node_kind nd)"
      using db_list_graph [OF i g, of "DbPath p" k] k DirN by auto
    have "map_err NsPath (path_join (DbPath p) (fst xk)) = Inr (DbPath (p @ [fst xk]))" if "xk \<in> set xs" for xk
    proof -
      have "(fst xk, snd xk) \<in> set xs" using that by simp
      then obtain j nd where "T (p @ [fst xk]) = Some (j, nd)" using xs(3) by blast
      then have "path_ok (p @ [fst xk])" using tree_node [OF tr] by blast
      then show ?thesis by (simp add: path_ok_def wf_path_def wf_segment_def path_join_def)
    qed
    then have "try_map (\<lambda>(name, _). map_err NsPath (path_join (DbPath p) name)) xs
        = Inr (map (\<lambda>xk. DbPath (p @ [fst xk])) xs)"
      by (intro try_map_Inr) (simp add: case_prod_beta)
    then have "rebuild_loop (Suc fuel) S s (DbPath p # stack) batch
        = rebuild_loop fuel S s (rev (map (\<lambda>x. DbPath (p @ [x])) (map fst xs)) @ stack) (batch @ [entry_put T p])"
      using k DirN ty xs(1) by (simp add: resolve_graph [OF i g] e batch_put_def comp_def)
    moreover have "set (map fst xs) = {x. T (p @ [x]) \<noteq> None}" using xs(3) by force
    moreover have "distinct (map fst xs)" using xs(2) by (simp add: strict_sorted_iff)
    ultimately show ?thesis using that by blast
  next
    case (ValN v)
    have "{x. T (p @ [x]) \<noteq> None} = {}" using tree_value_leaf [OF tr] k ValN by auto
    then show ?thesis
      using that [of "[]"] k ValN ty by (simp add: resolve_graph [OF i g] e batch_put_def)
  qed
qed

lemma rebuild_loop_tree:
  assumes i: "invar s" and g: "graph_rep T (bt_get (view s))"
  shows "\<forall>p \<in> set ps. T p \<noteq> None \<Longrightarrow> (\<Sum>p\<leftarrow>ps. card (subtree T p)) \<le> fuel \<Longrightarrow>
    \<exists>qs. rebuild_loop fuel S s (map DbPath ps) batch = Some (Inr (batch @ map (entry_put T) qs))
       \<and> set qs = (\<Union>p \<in> set ps. subtree T p)"
proof (induction fuel arbitrary: ps batch)
  case 0
  have tr: "tree_ok T" "nodes_rep T (bt_get (view s))" using g by (simp_all add: graph_rep_def)
  have "card (subtree T p) \<noteq> 0" if "p \<in> set ps" for p
  proof -
    have "p \<in> subtree T p" using that 0(1) by (simp add: subtree_def)
    moreover have "finite (subtree T p)"
      by (rule finite_subset [OF _ finite_tree(1) [OF tr]]) (auto simp: subtree_def)
    ultimately show ?thesis by auto
  qed
  with 0(2) have "ps = []" by (cases ps) auto
  then show ?case by simp
next
  case (Suc fuel)
  have tr: "tree_ok T" "nodes_rep T (bt_get (view s))" using g by (simp_all add: graph_rep_def)
  show ?case
  proof (cases ps)
    case Nil
    then show ?thesis by simp
  next
    case (Cons p rest)
    then have p: "T p \<noteq> None" using Suc.prems by simp
    obtain cs where cs: "set cs = {x. T (p @ [x]) \<noteq> None}" "distinct cs"
      "rebuild_loop (Suc fuel) S s (DbPath p # map DbPath rest) batch
       = rebuild_loop fuel S s (rev (map (\<lambda>x. DbPath (p @ [x])) cs) @ map DbPath rest) (batch @ [entry_put T p])"
      using rebuild_step [OF i g p, of fuel "map DbPath rest" batch] .
    let ?ps = "rev (map (\<lambda>x. p @ [x]) cs) @ rest"
    have "(\<Sum>p\<leftarrow>?ps. card (subtree T p)) = (\<Sum>x\<leftarrow>cs. card (subtree T (p @ [x]))) + (\<Sum>p\<leftarrow>rest. card (subtree T p))"
      by (simp add: comp_def sum_list_rev flip: rev_map)
    then have le: "(\<Sum>p\<leftarrow>?ps. card (subtree T p)) \<le> fuel"
      using card_children [OF tr(1) finite_tree(1) [OF tr] p cs(2,1)] Suc.prems(2) Cons by simp
    have nn: "\<forall>q \<in> set ?ps. T q \<noteq> None" using cs(1) Suc.prems(1) Cons by auto
    obtain qs where qs: "rebuild_loop fuel S s (map DbPath ?ps) (batch @ [entry_put T p])
        = Some (Inr ((batch @ [entry_put T p]) @ map (entry_put T) qs))" "set qs = (\<Union>q \<in> set ?ps. subtree T q)"
      using Suc.IH [OF nn le, of "batch @ [entry_put T p]"] by (elim exE conjE)
    have "set (p # qs) = (\<Union>q \<in> set ps. subtree T q)"
    proof -
      have "set qs = (\<Union>x \<in> set cs. subtree T (p @ [x])) \<union> (\<Union>q \<in> set rest. subtree T q)"
        unfolding qs(2) by (simp add: image_image)
      moreover have "subtree T p = insert p (\<Union>x \<in> set cs. subtree T (p @ [x]))"
        using subtree_unfold [OF tr(1) p] cs(1) by simp
      ultimately show ?thesis by (simp add: Cons Un_assoc)
    qed
    moreover have "rebuild_loop (Suc fuel) S s (map DbPath ps) batch
        = Some (Inr (batch @ map (entry_put T) (p # qs)))"
      using cs(3) qs(1) Cons by (simp add: rev_map comp_def)
    ultimately show ?thesis by blast
  qed
qed

lemma rebuild_type_index_tree:
  assumes i: "invar s" and g: "graph_rep T (bt_get (view s))" and n: "ids_rep T n (bt_get (view s))"
    and fuel: "length (view s) \<le> fuel"
  shows "\<exists>r s'. rebuild_type_index fuel S s = Some (r, s') \<and> invar s'
     \<and> (r = Inr () \<longrightarrow> ns_rep T n (bt_get (view s'))) \<and> (\<forall>e. r = Inl e \<longrightarrow> storage_failure e)"
proof -
  have tr: "tree_ok T" "nodes_rep T (bt_get (view s))" using g by (simp_all add: graph_rep_def)
  let ?rows = "filter (\<lambda>(k, v). starts_with k idx_prefix) (view s)"
  let ?dels = "map (\<lambda>(k, v). BatchOp.Delete k) ?rows"
  have dels: "fold (\<lambda>(k, _). batch_delete k) rows b = b @ map (\<lambda>(k, v). BatchOp.Delete k) rows"
    for rows :: ScanRows and b
    by (induction rows arbitrary: b) (auto simp: batch_delete_def)
  have "(\<Sum>p\<leftarrow>[[]]. card (subtree T p)) \<le> fuel"
    using finite_tree(2) [OF tr] fuel by (simp add: subtree_root)
  then obtain qs where qs: "rebuild_loop fuel S s [path_root] ?dels = Some (Inr (?dels @ map (entry_put T) qs))"
      "set qs = dom T"
    using rebuild_loop_tree [OF i g, of "[[]]" fuel ?dels] tree_root [OF tr(1)] subtree_root
    by (auto simp: path_root_def)
  let ?b = "?dels @ map (entry_put T) qs"
  obtain c s' where c: "st_commit S ?b s = (c, s')" by fastforce
  have run: "rebuild_type_index fuel S s = Some (map_err from_storage_error c, s')"
    using qs(1) c dels [of _ batch_new]
    by (simp add: rebuild_type_index_def store_scan_view [OF i] batch_new_def store_commit_def)
  have "ns_rep T n (bt_get (view s'))" if "c = Inr ()"
  proof -
    have "view s' = apply_ops (view s) ?b" by (rule commit_ok [OF i]) (use c that in simp)
    then have f': "bt_get (view s') = upds ?b (bt_get (view s))" by (simp only: get_batch [OF i])
    show ?thesis unfolding f' by (rule rebuilt_rep [OF g n view_sorted [OF i] qs(2)])
  qed
  then have "map_err from_storage_error c = Inr () \<longrightarrow> ns_rep T n (bt_get (view s'))" by simp
  moreover have "storage_failure e" if "map_err from_storage_error c = Inl e" for e
    using that by (auto simp: map_err_Inl_iff from_storage_error_def)
  ultimately show ?thesis using run commit_invar [OF i c] by blast
qed

lemma ensure_index_tree:
  assumes i: "invar s" and g: "graph_rep T (bt_get (view s))" and n: "ids_rep T n (bt_get (view s))"
    and v: "bt_get (view s) ver_key = Some (u64_to_be INDEX_VER) \<Longrightarrow> index_rep T (bt_get (view s))"
    and fuel: "length (view s) \<le> fuel"
  shows "\<exists>r s'. ensure_index fuel S s = Some (r, s') \<and> invar s' \<and> opened T n r (bt_get (view s'))"
proof (cases "bt_get (view s) ver_key = Some (u64_to_be INDEX_VER)")
  case True
  then have "ensure_index fuel S s = Some (Inr (), s)" by (simp add: ensure_index_def store_get_view [OF i])
  moreover have "opened T n (Inr ()) (bt_get (view s))"
    using v [OF True] g n True by (simp add: opened_def ns_rep_iff)
  ultimately show ?thesis using i by blast
next
  case False
  obtain r s1 where r: "rebuild_type_index fuel S s = Some (r, s1)" "invar s1"
      "r = Inr () \<longrightarrow> ns_rep T n (bt_get (view s1))" "\<forall>e. r = Inl e \<longrightarrow> storage_failure e"
    using rebuild_type_index_tree [OF i g n fuel] by blast
  let ?b = "[Put ver_key (u64_to_be INDEX_VER)]"
  have run: "ensure_index fuel S s = Some (then_at (r, s1) (\<lambda>_ s. store_commit S ?b s))"
    using False r(1) by (simp add: ensure_index_def store_get_view [OF i] batch_put_def batch_new_def)
  show ?thesis
  proof (cases r)
    case (Inl e)
    then show ?thesis using run r by (simp add: opened_def)
  next
    case ru: (Inr u)
    obtain c s2 where c: "st_commit S ?b s1 = (c, s2)" by fastforce
    have "opened T n (map_err from_storage_error c) (bt_get (view s2))"
    proof (cases c)
      case (Inr u)
      then have "view s2 = apply_ops (view s1) ?b" using commit_ok [OF r(2)] c by simp
      then have "bt_get (view s2) = (bt_get (view s1))(ver_key \<mapsto> u64_to_be INDEX_VER)"
        by (simp add: bt_get_insert)
      then show ?thesis using Inr r(3) ru by (simp add: opened_def ns_rep_ver)
    qed (simp add: opened_def from_storage_error_def)
    moreover have "ensure_index fuel S s = Some (map_err from_storage_error c, s2)"
      using run ru c by (simp add: store_commit_def)
    ultimately show ?thesis using commit_invar [OF r(2) c] by blast
  qed
qed

lemma db_open_tree:
  assumes i: "invar s" and g: "graph_rep T (bt_get (view s))" and n: "ids_rep T n (bt_get (view s))"
    and v: "bt_get (view s) ver_key = Some (u64_to_be INDEX_VER) \<Longrightarrow> index_rep T (bt_get (view s))"
    and fuel: "length (view s) \<le> fuel"
  shows "\<exists>r s'. db_open fuel S s = Some (r, s') \<and> invar s' \<and> opened T n r (bt_get (view s'))"
proof -
  have "bt_get (view s) (node_key ROOT_ID) \<noteq> None" "bt_get (view s) meta_next_id \<noteq> None"
    using g n nodes_repD tree_root unfolding graph_rep_def ids_rep_def by (fastforce, simp)
  then have "ensure_root S s = (Inr (), s)" by (auto simp: ensure_root_def store_get_view [OF i])
  then show ?thesis using ensure_index_tree [OF i g n v fuel] by (simp add: db_open_def)
qed

lemma db_open_empty:
  assumes i: "invar s" and e: "view s = []" and fuel: "3 \<le> fuel"
  shows "\<exists>r s'. db_open fuel S s = Some (r, s') \<and> invar s'
     \<and> (r = Inr () \<longrightarrow> stores empty_tree 2 (bt_get (view s'))) \<and> (\<forall>e. r = Inl e \<longrightarrow> storage_failure e)"
proof -
  obtain c s1 where c: "st_commit S root_batch s = (c, s1)" by fastforce
  have er: "ensure_root S s = (map_err from_storage_error c, s1)"
    using c by (simp add: ensure_root_def store_get_view [OF i] e store_commit_def root_batch_def batch_put_def
        batch_new_def ROOT_ID_def)
  show ?thesis
  proof (cases c)
    case (Inl err)
    then show ?thesis
      using er commit_invar [OF i c] by (simp add: db_open_def from_storage_error_def)
  next
    case (Inr u)
    have v1: "view s1 = apply_ops [] root_batch" using commit_ok [OF i, of root_batch s1] c Inr e by simp
    note r = root_rep [folded v1]
    have "length (view s1) \<le> fuel" using fuel length_root_batch by (simp add: v1)
    then obtain r s' where "ensure_index fuel S s1 = Some (r, s')" "invar s'" "opened root_tree 2 r (bt_get (view s'))"
      using ensure_index_tree [OF commit_invar [OF i c], of root_tree 2 fuel] r
      by (auto simp: ns_rep_iff)
    then show ?thesis
      using er Inr by (auto simp: db_open_def opened_def stores_def simp flip: abs_root_tree)
  qed
qed

end

end
