(* ===== verification/Ns_Theorems.thy ===== *)
theory Ns_Theorems
  imports Ns_Open
begin

text \<open>
  The properties of the namespace operations, over every store that meets the storage contract.
  The witnesses run them on the in-memory store that \<open>Database::open\<close> creates.
\<close>

definition mem_root :: MemoryStorage where
  "mem_root = \<lparr>mem_map = apply_ops [] root_batch\<rparr>"

lemma mem_root_state: "ns_state mem_map memory_inv empty_tree 2 mem_root"
proof -
  have "stores empty_tree 2 (bt_get (mem_map mem_root))"
    unfolding mem_root_def stores_def using root_rep by (auto simp flip: abs_root_tree)
  moreover have "memory_inv mem_root" unfolding memory_inv_def mem_root_def by simp
  ultimately show ?thesis by (simp add: ns_state_def)
qed

text \<open>Commits of the in-memory store never fail, so an operation the specification allows is acknowledged.\<close>

lemma mem_commit_ok [simp]: "\<exists>s'. store_commit memory_storage b s = (Inr (), s')"
  by (simp add: store_commit_def)

lemma mem_mkdir_ok:
  assumes "ns_state mem_map memory_inv t n s" "n \<noteq> - 1" "path_ok (segments path)" "spec_mkdir path t = Inr t'"
  obtains s' where "mkdir memory_storage path s = (Inr (), s')"
proof (cases "is_root path")
  case True
  then show ?thesis using that by (simp add: mkdir_def)
next
  case False
  have "\<exists>b. mkdir_batch memory_storage s path = Inr b"
    using mem.mkdir_batch_tree(2) [OF _ _ False assms(2-4)] assms(1) unfolding ns_state_def by blast
  then show ?thesis using that False by (auto simp: mkdir_def store_commit_def)
qed

lemma mem_set_ok:
  assumes "ns_state mem_map memory_inv t n s" "n \<noteq> - 1" "path_ok (segments path)" "wf_value v"
    and "spec_set path v t = Inr t'"
  obtains s' where "db_set memory_storage path v s = (Inr (), s')"
proof -
  have "\<exists>b. set_batch memory_storage s path v = Inr b"
    using mem.set_batch_tree(2) [OF _ _ assms(2-5)] assms(1) unfolding ns_state_def by blast
  then show ?thesis using that by (auto simp: db_set_def store_commit_def)
qed

lemma path_ok_ab [simp]: "path_ok [''a'']" "path_ok [''a'', ''b'']"
  by (simp_all add: path_ok_def wf_path_def utf8_path_def wf_segment_def utf8_string_ascii)

section \<open>Mutations\<close>

text \<open>
  \<open>mkdir\<close> refines the abstract operation: if it is acknowledged the stored tree is the old one
  with a new empty directory at the path (unchanged for the root), if it is refused it returns
  exactly the abstract error (\<open>AlreadyExists\<close>, \<open>ParentMissing\<close> or \<open>NotDirectory\<close> with the right
  path) and the tree is unchanged, and if the store fails the tree is the old or the new one.  The
  store keeps all its invariants.
\<close>

theorem mkdir_refines:
  assumes "storage S view invar" and "ns_state view invar t n s" and "n \<noteq> - 1"
    and "path_ok (segments path)" and "mkdir S path s = (r, s')"
  shows "\<exists>t' n'. ns_state view invar t' n' s' \<and> n' \<in> {n, n + 1} \<and> outcome (spec_mkdir path t) t r t'"
  using storage.mkdir_tree [OF assms(1) _ _ assms(3-5)] assms(2) by (fastforce simp: ns_state_def)

theorem mkdir_refines_witness:
  "\<exists>s' t' n'. mkdir memory_storage (DbPath [''a'']) mem_root = (Inr (), s')
     \<and> ns_state mem_map memory_inv t' n' s' \<and> t' = empty_tree([''a''] \<mapsto> DirN)"
proof -
  let ?p = "DbPath [''a'']"
  have sp: "spec_mkdir ?p empty_tree = Inr (empty_tree([''a''] \<mapsto> DirN))"
    by (simp add: spec_mkdir_def is_root_def empty_tree_def spec_parent_def)
  obtain s' where s': "mkdir memory_storage ?p mem_root = (Inr (), s')"
    by (rule mem_mkdir_ok [OF mem_root_state _ _ sp]) simp_all
  from mkdir_refines [OF mem.storage_axioms mem_root_state _ _ s'] s' sp show ?thesis by auto
qed

text \<open>
  C4. \<open>set\<close> refines the abstract operation: an acknowledged \<open>set\<close> stores the canonical form of the
  value at the path, replacing a value that was there, and changes nothing else in the tree; it is
  refused exactly for the root, a missing or non-directory parent and an existing directory; a
  store failure leaves the old or the new tree.
\<close>

theorem set_refines:
  assumes "storage S view invar" and "ns_state view invar t n s" and "n \<noteq> - 1"
    and "path_ok (segments path)" and "wf_value v" and "db_set S path v s = (r, s')"
  shows "\<exists>t' n'. ns_state view invar t' n' s' \<and> n' \<in> {n, n + 1} \<and> outcome (spec_set path v t) t r t'"
  using storage.set_tree [OF assms(1) _ _ assms(3-6)] assms(2) by (fastforce simp: ns_state_def)

lemma set_int_a:
  obtains s' where "db_set memory_storage (DbPath [''a'']) (value_int 5) mem_root = (Inr (), s')"
    "spec_set (DbPath [''a'']) (value_int 5) empty_tree = Inr (empty_tree([''a''] \<mapsto> ValN (value_int 5)))"
    "wf_value (value_int 5)"
proof -
  have sp: "spec_set (DbPath [''a'']) (value_int 5) empty_tree = Inr (empty_tree([''a''] \<mapsto> ValN (value_int 5)))"
      and wf: "wf_value (value_int 5)"
    by (simp_all add: spec_set_def is_root_def empty_tree_def spec_parent_def value_int_def)
  obtain s' where "db_set memory_storage (DbPath [''a'']) (value_int 5) mem_root = (Inr (), s')"
    by (rule mem_set_ok [OF mem_root_state _ _ wf sp]) simp_all
  then show ?thesis using that sp wf by blast
qed

theorem set_refines_witness:
  "\<exists>s' t' n'. db_set memory_storage (DbPath [''a'']) (value_int 5) mem_root = (Inr (), s')
     \<and> ns_state mem_map memory_inv t' n' s' \<and> t' = empty_tree([''a''] \<mapsto> ValN (value_int 5))"
proof -
  obtain s' where s': "db_set memory_storage (DbPath [''a'']) (value_int 5) mem_root = (Inr (), s')"
    "spec_set (DbPath [''a'']) (value_int 5) empty_tree = Inr (empty_tree([''a''] \<mapsto> ValN (value_int 5)))"
    "wf_value (value_int 5)" by (rule set_int_a)
  from set_refines [OF mem.storage_axioms mem_root_state _ _ s'(3,1)] s' show ?thesis by auto
qed

text \<open>
  \<open>delete\<close> refines the abstract operation: an acknowledged \<open>delete\<close> removes exactly the node at
  the path, which was a value or an empty directory; it is refused exactly for the root, a path
  that does not exist and a directory that has entries; a store failure leaves the old or the new
  tree.
\<close>

theorem delete_refines:
  assumes "storage S view invar" and "ns_state view invar t n s" and "db_delete S path s = (r, s')"
  shows "\<exists>t' n'. ns_state view invar t' n' s' \<and> n' \<in> {n, n + 1} \<and> outcome (spec_delete path t) t r t'"
  using storage.delete_tree [OF assms(1) _ _ assms(3)] assms(2) by (fastforce simp: ns_state_def)

theorem delete_refines_witness:
  "\<exists>s' t' n'. db_delete memory_storage (DbPath [''a'']) mem_root = (Inl (NotFound ''/a''), s')
     \<and> ns_state mem_map memory_inv t' n' s' \<and> t' = empty_tree"
proof -
  let ?p = "DbPath [''a'']"
  have "fst (db_delete memory_storage ?p mem_root) = Inl (NotFound ''/a'')" by code_simp
  then obtain s' where s': "db_delete memory_storage ?p mem_root = (Inl (NotFound ''/a''), s')"
    by (metis prod.collapse)
  from delete_refines [OF mem.storage_axioms mem_root_state s'] s' show ?thesis
    by (auto simp: outcome_def)
qed

section \<open>Reads\<close>

text \<open>
  C7. After an acknowledged \<open>set\<close>, \<open>get\<close> at the path returns the canonical form of the value, and
  \<open>get\<close> at every other path returns what it returned before, results and errors alike.
\<close>

theorem get_after_set:
  assumes "storage S view invar" and "ns_state view invar t n s" and "n \<noteq> - 1"
    and "path_ok (segments path)" and "wf_value v" and "db_set S path v s = (Inr (), s')"
  shows "db_get S s' path = Inr \<lparr>e_path = path, e_kind = EntryValue, e_value = Some (canon v)\<rparr>
         \<and> (\<forall>q. segments q \<noteq> segments path \<longrightarrow> db_get S s' q = db_get S s q)"
proof -
  obtain t' n' where t': "invar s'" "stores t' n' (bt_get (view s'))" "spec_set path v t = Inr t'"
    using storage.set_tree [OF assms(1) _ _ assms(3-6)] assms(2) by (fastforce simp: ns_state_def)
  have nr: "\<not> is_root path" using t'(3) by (auto simp: spec_set_def)
  have u: "t' = t(segments path \<mapsto> ValN (canon v))" using t'(3) by (simp add: spec_set_Inr [OF nr])
  have s: "invar s" "stores t n (bt_get (view s))" using assms(2) by (simp_all add: ns_state_def)
  show ?thesis
    by (simp add: storage.db_get_tree [OF assms(1) t'(1,2)] storage.db_get_tree [OF assms(1) s] u spec_get_def
        spec_entry_def)
qed

theorem get_after_set_witness:
  "\<exists>s'. db_set memory_storage (DbPath [''a'']) (value_int 5) mem_root = (Inr (), s')
     \<and> db_get memory_storage s' (DbPath [''a'']) =
         Inr \<lparr>e_path = DbPath [''a''], e_kind = EntryValue, e_value = Some (value_int 5)\<rparr>"
proof -
  obtain s' where s': "db_set memory_storage (DbPath [''a'']) (value_int 5) mem_root = (Inr (), s')"
    "wf_value (value_int 5)" by (rule set_int_a)
  from get_after_set [OF mem.storage_axioms mem_root_state _ _ s'(2,1)] s' show ?thesis
    by (auto simp: value_int_def)
qed

text \<open>
  \<open>list\<close> of a directory returns its children and nothing else: the names in strictly ascending
  order, each with the right kind.
\<close>

theorem list_exact:
  assumes "storage S view invar" and "ns_state view invar t n s" and "t (segments path) = Some DirN"
  shows "\<exists>xs. db_list S s path = Inr xs \<and> sorted_wrt (<) (map fst xs)
    \<and> (\<forall>x k. (x, k) \<in> set xs \<longleftrightarrow> (\<exists>nd. t (segments path @ [x]) = Some nd \<and> k = node_kind nd))"
proof -
  have "invar s" "stores t n (bt_get (view s))" using assms(2) by (simp_all add: ns_state_def)
  from storage.db_list_tree [OF assms(1) this assms(3)] show ?thesis .
qed

theorem list_exact_witness: "\<exists>xs. db_list memory_storage mem_root path_root = Inr xs \<and> set xs = {}"
proof -
  obtain xs where "db_list memory_storage mem_root path_root = Inr xs" "\<And>x k. (x, k) \<notin> set xs"
    using list_exact [OF mem.storage_axioms mem_root_state, of path_root]
    by (auto simp: path_root_def empty_tree_def)
  then show ?thesis by (metis equals0I old.prod.exhaust)
qed

text \<open>
  C8. The type index is exact: \<open>paths_with_type\<close> returns the paths of all nodes of that type, no
  path twice and no other path, in ascending order of the path strings.
\<close>

theorem type_index_exact:
  assumes "storage S view invar" and "ns_state view invar t n s" and "slash \<notin> set ty"
  shows "\<exists>ps. paths_with_type S s ty = Inr ps \<and> sorted_wrt (<) (map as_str ps)
    \<and> set ps = {path. \<exists>nd. t (segments path) = Some nd \<and> node_type nd = ty}"
proof -
  have s: "invar s" "stores t n (bt_get (view s))" using assms(2) by (simp_all add: ns_state_def)
  from storage.paths_with_type_tree [OF assms(1) s, of ty] assms(3) show ?thesis by blast
qed

theorem type_index_exact_witness:
  "\<exists>ps. paths_with_type memory_storage mem_root ''directory'' = Inr ps \<and> set ps = {path_root}"
proof -
  have "(\<exists>nd. empty_tree (segments path) = Some nd \<and> node_type nd = ''directory'') \<longleftrightarrow> path = path_root" for path
    by (cases path) (auto simp: empty_tree_def path_root_def split: if_splits)
  then show ?thesis
    using type_index_exact [OF mem.storage_axioms mem_root_state, of "''directory''"] by auto
qed

section \<open>Structure helpers\<close>

lemma bt_get_map_canon: "bt_get (map (\<lambda>(k, v). (k, canon v)) m) x = map_option canon (bt_get m x)"
  by (simp add: bt_get_def map_of_map)

text \<open>
  After an acknowledged \<open>hash_set\<close>, \<open>hash_get\<close> of the same field returns the canonical form of
  the value, and every other field of the hash reads as before (absent if the hash is new).
\<close>

theorem hash_get_after_hash_set:
  assumes "storage S view invar" and "ns_state view invar t n s" and "n \<noteq> - 1"
    and "path_ok (segments path)" and "spec_value as_hash ''hash'' [] path t = Inr m"
    and "wf_value (Hash (bt_insert key v m))" and "hash_set S path key v s = (Inr (), s')"
  shows "hash_get S s' path key = Inr (Some (canon v))
         \<and> (\<forall>k. k \<noteq> key \<longrightarrow> hash_get S s' path k = Inr (map_option canon (bt_get m k)))"
proof -
  have s: "invar s" "stores t n (bt_get (view s))" using assms(2) by (simp_all add: ns_state_def)
  have "db_set S path (Hash (bt_insert key v m)) s = (Inr (), s')"
    using assms(5,7) by (simp add: hash_set_def storage.value_at_tree [OF assms(1) s])
  from storage.set_tree [OF assms(1) s assms(3,4,6) this] obtain t' n' where
    t': "invar s'" "stores t' n' (bt_get (view s'))" "spec_set path (Hash (bt_insert key v m)) t = Inr t'" by auto
  have nr: "\<not> is_root path" using t'(3) by (auto simp: spec_set_def)
  have u: "t' = t(segments path \<mapsto> ValN (canon (Hash (bt_insert key v m))))"
    using t'(3) by (simp add: spec_set_Inr [OF nr])
  have "hash_get S s' path k = Inr (map_option canon (bt_get (bt_insert key v m) k))" for k
    by (simp add: hash_get_def storage.db_get_tree [OF assms(1) t'(1,2)] u spec_get_def spec_entry_def
        bt_get_map_canon)
  then show ?thesis by (simp add: bt_get_insert)
qed

theorem hash_get_after_hash_set_witness:
  "\<exists>s'. hash_set memory_storage (DbPath [''a'']) ''k'' (value_int 5) mem_root = (Inr (), s')
     \<and> hash_get memory_storage s' (DbPath [''a'']) ''k'' = Inr (Some (value_int 5))
     \<and> hash_get memory_storage s' (DbPath [''a'']) ''j'' = Inr None"
proof -
  let ?p = "DbPath [''a'']"
  have v: "spec_value as_hash ''hash'' [] ?p empty_tree = Inr []" by (simp add: spec_value_def empty_tree_def)
  have w: "wf_value (Hash (bt_insert ''k'' (value_int 5) []))"
    by (simp add: value_int_def len_ok_def utf8_string_ascii)
  have sp: "spec_set ?p (Hash (bt_insert ''k'' (value_int 5) [])) empty_tree
      = Inr (empty_tree([''a''] \<mapsto> ValN (canon (Hash (bt_insert ''k'' (value_int 5) [])))))"
    by (simp add: spec_set_def is_root_def empty_tree_def spec_parent_def)
  obtain s' where "db_set memory_storage ?p (Hash (bt_insert ''k'' (value_int 5) [])) mem_root = (Inr (), s')"
    by (rule mem_set_ok [OF mem_root_state _ _ w sp]) simp_all
  then have s': "hash_set memory_storage ?p ''k'' (value_int 5) mem_root = (Inr (), s')"
    using mem_root_state v
    by (simp add: hash_set_def ns_state_def mem.value_at_tree [where t = empty_tree and n = 2])
  from hash_get_after_hash_set [OF mem.storage_axioms mem_root_state _ _ v w s'] s' show ?thesis
    by (auto simp: value_int_def)
qed

section \<open>Opening\<close>

text \<open>
  Opening an empty store terminates and, unless the store fails, yields the tree with only the
  root directory and the first free identifier 2.
\<close>

theorem open_creates_empty_tree:
  assumes "storage S view invar" and "invar s" and "view s = []" and "3 \<le> fuel"
  shows "\<exists>r s'. db_open fuel S s = Some (r, s')
     \<and> (r = Inr () \<longrightarrow> ns_state view invar empty_tree 2 s') \<and> (\<forall>e. r = Inl e \<longrightarrow> storage_failure e)"
  using storage.db_open_empty [OF assms] by (auto simp: ns_state_def)

theorem open_creates_empty_tree_witness:
  "\<exists>s'. db_open 3 memory_storage memory_new = Some (Inr (), s') \<and> ns_state mem_map memory_inv empty_tree 2 s'"
proof -
  have "map_option fst (db_open 3 memory_storage memory_new) = Some (Inr ())" by code_simp
  then obtain s' where s': "db_open 3 memory_storage memory_new = Some (Inr (), s')" by auto
  from open_creates_empty_tree [OF mem.storage_axioms memory_new_inv, of 3] s' show ?thesis
    by (auto simp: memory_new_def)
qed

text \<open>
  C10. Opening a store whose directory graph is intact terminates within as many steps of the index
  loop as the store has rows.  Whatever the state of the type index was (missing, stale, or from an
  older version), after an acknowledged open the store holds exactly the same tree with an exact
  type index; an index whose version is current is trusted and left alone.
\<close>

theorem open_restores_type_index:
  assumes "storage S view invar" and "invar s" and "graph_rep T (bt_get (view s))"
    and "ids_rep T n (bt_get (view s))"
    and "bt_get (view s) ver_key = Some (u64_to_be INDEX_VER) \<longrightarrow> index_rep T (bt_get (view s))"
    and "length (view s) \<le> fuel"
  shows "\<exists>r s'. db_open fuel S s = Some (r, s')
     \<and> (r = Inr () \<longrightarrow> ns_state view invar (abs_tree T) n s') \<and> (\<forall>e. r = Inl e \<longrightarrow> storage_failure e)"
proof -
  obtain r s' where "db_open fuel S s = Some (r, s')" "invar s'" "opened T n r (bt_get (view s'))"
    using storage.db_open_tree [OF assms(1-4) _ assms(6)] assms(5) by blast
  then show ?thesis by (auto simp: ns_state_def opened_def stores_def)
qed

theorem open_restores_type_index_witness:
  "\<exists>r s'. db_open 3 memory_storage mem_root = Some (r, s')
     \<and> (r = Inr () \<longrightarrow> ns_state mem_map memory_inv (abs_tree root_tree) 2 s')"
proof -
  have r: "ns_rep root_tree 2 (bt_get (mem_map mem_root))" using root_rep by (simp add: mem_root_def)
  have "length (mem_map mem_root) \<le> 3" using length_root_batch unfolding mem_root_def by simp
  moreover have "memory_inv mem_root" using mem_root_state by (simp add: ns_state_def)
  ultimately show ?thesis
    using open_restores_type_index [OF mem.storage_axioms, of mem_root root_tree 2 3] r
    by (auto simp: ns_rep_iff)
qed

end
