(* ===== verification/Txn_Refine.thy ===== *)
theory Txn_Refine
  imports Txn Ns_Theorems
begin

text \<open>
  Transactions implement the sequence of the abstract operations, all or nothing.  The overlay is a
  map over the stored map; every overlay operation changes it exactly as the direct operation would
  change the store, and committing the overlay's batch makes it the stored map.
\<close>

section \<open>Abstract transactions\<close>

fun spec_op :: "TxnOp \<Rightarrow> ns_tree \<Rightarrow> NsError + ns_tree" where
  "spec_op (TMkdir path) t = spec_mkdir path t"
| "spec_op (TSet path v) t = spec_set path v t"
| "spec_op (TDelete path) t = spec_delete path t"
| "spec_op (THashSet path key v) t =
     and_then (spec_value as_hash ''hash'' [] path t) (\<lambda>m. spec_set path (Hash (bt_insert key v m)) t)"
| "spec_op (TListPush path v) t =
     and_then (spec_value as_list ''list'' [] path t) (\<lambda>items. spec_set path (List (items @ [v])) t)"
| "spec_op (TSetAdd path v) t =
     and_then (spec_value as_set ''set'' [] path t) (\<lambda>members. spec_set path (Set (set_insert v members)) t)"
| "spec_op (TTreeSet path key v) t =
     and_then (spec_value as_tree ''tree'' [] path t) (\<lambda>m. spec_set path (Tree (bt_insert key v m)) t)"

fun spec_txn :: "TxnOp list \<Rightarrow> ns_tree \<Rightarrow> NsError + ns_tree" where
  "spec_txn [] t = Inr t"
| "spec_txn (op # ops) t = and_then (spec_op op t) (spec_txn ops)"

text \<open>The arguments are well formed: a parsed path, and a new value within the codec's bounds.\<close>

fun op_wf :: "TxnOp \<Rightarrow> ns_tree \<Rightarrow> bool" where
  "op_wf (TMkdir path) t = path_ok (segments path)"
| "op_wf (TSet path v) t = (path_ok (segments path) \<and> wf_value v)"
| "op_wf (TDelete path) t = True"
| "op_wf (THashSet path key v) t = (path_ok (segments path)
     \<and> (\<forall>m. spec_value as_hash ''hash'' [] path t = Inr m \<longrightarrow> wf_value (Hash (bt_insert key v m))))"
| "op_wf (TListPush path v) t = (path_ok (segments path)
     \<and> (\<forall>items. spec_value as_list ''list'' [] path t = Inr items \<longrightarrow> wf_value (List (items @ [v]))))"
| "op_wf (TSetAdd path v) t = (path_ok (segments path)
     \<and> (\<forall>members. spec_value as_set ''set'' [] path t = Inr members \<longrightarrow> wf_value (Set (set_insert v members))))"
| "op_wf (TTreeSet path key v) t = (path_ok (segments path)
     \<and> (\<forall>m. spec_value as_tree ''tree'' [] path t = Inr m \<longrightarrow> wf_value (Tree (bt_insert key v m))))"

fun txn_wf :: "TxnOp list \<Rightarrow> ns_tree \<Rightarrow> bool" where
  "txn_wf [] t = True"
| "txn_wf (op # ops) t = (op_wf op t \<and> (\<forall>t'. spec_op op t = Inr t' \<longrightarrow> txn_wf ops t'))"

section \<open>The overlay as a map\<close>

definition ov_map :: "kv_map \<Rightarrow> 's Overlay \<Rightarrow> kv_map" where
  "ov_map f ov k = (case bt_get (pending ov) k of Some v \<Rightarrow> v | None \<Rightarrow> f k)"

lemma ov_map_new [simp]: "ov_map f (ov_new s) = f"
  by (simp add: ov_map_def ov_new_def fun_eq_iff)

lemma ov_map_put [simp]: "ov_map f (ov_put k v ov) = (ov_map f ov)(k \<mapsto> v)"
  by (simp add: ov_map_def ov_put_def bt_get_insert fun_eq_iff)

lemma ov_map_delete [simp]: "ov_map f (ov_delete k ov) = (ov_map f ov)(k := None)"
  by (simp add: ov_map_def ov_delete_def bt_get_insert fun_eq_iff)

lemma ov_frame [simp]:
  "ov_store (ov_put k v ov) = ov_store ov" "ov_store (ov_delete k ov) = ov_store ov"
  "ov_store (ov_new s) = s"
  "bt_sorted (pending ov) \<Longrightarrow> bt_sorted (pending (ov_put k v ov))"
  "bt_sorted (pending ov) \<Longrightarrow> bt_sorted (pending (ov_delete k ov))"
  "bt_sorted (pending (ov_new s))"
  by (simp_all add: ov_put_def ov_delete_def ov_new_def bt_sorted_insert)

text \<open>The batch of the overlay turns the stored map into the overlay's map.\<close>

lemma into_batch_eq:
  "into_batch ov = map (\<lambda>(k, v). case v of Some val \<Rightarrow> Put k val | None \<Rightarrow> Delete k) (pending ov)"
proof -
  have "fold (\<lambda>(k, v) batch. case v of Some val \<Rightarrow> batch_put k val batch | None \<Rightarrow> batch_delete k batch) rows b
      = b @ map (\<lambda>(k, v). case v of Some val \<Rightarrow> Put k val | None \<Rightarrow> Delete k) rows" for rows b
    by (induction rows arbitrary: b) (auto simp: batch_put_def batch_delete_def split: option.splits)
  then show ?thesis by (simp add: into_batch_def batch_new_def)
qed

lemma upds_into_batch:
  assumes "bt_sorted (pending ov)"
  shows "upds (into_batch ov) f = ov_map f ov"
proof
  fix k
  have e: "op_key (case v of Some val \<Rightarrow> Put k val | None \<Rightarrow> Delete k) = k"
    "op_result (case v of Some val \<Rightarrow> Put k val | None \<Rightarrow> Delete k) = v" for k v
    by (simp_all split: option.split)
  have "map op_key (into_batch ov) = map fst (pending ov)"
    by (simp add: into_batch_eq e case_prod_beta comp_def)
  then have keys: "op_key ` set (into_batch ov) = fst ` set (pending ov)" by (metis set_map)
  show "upds (into_batch ov) f k = ov_map f ov k"
  proof (cases "bt_get (pending ov) k")
    case None
    then have "k \<notin> op_key ` set (into_batch ov)" using keys by (simp add: bt_get_None_iff)
    then show ?thesis using None upds_other by (simp add: ov_map_def)
  next
    case (Some v)
    let ?op = "case v of Some val \<Rightarrow> Put k val | None \<Rightarrow> Delete k"
    have "(k, v) \<in> set (pending ov)" using Some bt_get_iff [OF assms] by simp
    then have o: "?op \<in> set (into_batch ov)" by (force simp: into_batch_eq)
    have "op_result op' = op_result ?op" if h: "op' \<in> set (into_batch ov)" "op_key op' = op_key ?op" for op'
    proof -
      obtain k' v' where "(k', v') \<in> set (pending ov)" "op' = (case v' of Some val \<Rightarrow> Put k' val | None \<Rightarrow> Delete k')"
        using h(1) by (auto simp: into_batch_eq)
      with h(2) Some bt_get_iff [OF assms] show ?thesis by (metis e option.inject)
    qed
    from upds_hit [OF o this] show ?thesis using Some by (simp add: ov_map_def e)
  qed
qed

lemma scan_pending_get:
  "bt_sorted m \<Longrightarrow> bt_sorted (fold (scan_pending pre) rows m)
   \<and> bt_get (fold (scan_pending pre) rows m) k
     = (if starts_with k pre then (case map_of (rev rows) k of Some v \<Rightarrow> v | None \<Rightarrow> bt_get m k) else bt_get m k)"
proof (induction rows arbitrary: m)
  case (Cons r rows)
  obtain k' v where r: "r = (k', v)" by fastforce
  have s: "bt_sorted (scan_pending pre r m)"
    using Cons.prems by (auto simp: scan_pending_def r bt_laws split: option.splits)
  have "bt_get (scan_pending pre r m) k = (if starts_with k pre \<and> k = k' then v else bt_get m k)"
    using Cons.prems by (auto simp: scan_pending_def r bt_laws split: option.splits)
  then show ?case using Cons.IH [OF s] by (auto simp: r map_add_def split: option.splits)
qed simp

text \<open>What an overlay operation must do to implement the abstract result \<open>spec\<close>.\<close>

definition ov_step :: "('s \<Rightarrow> kv) \<Rightarrow> NsError + ns_tree \<Rightarrow> u64 \<Rightarrow> 's Overlay \<Rightarrow> NsError + 's Overlay \<Rightarrow> bool" where
  "ov_step view spec n ov r \<longleftrightarrow>
     (case spec of
        Inl e \<Rightarrow> r = Inl e
      | Inr t' \<Rightarrow> \<exists>ov' n'. r = Inr ov' \<and> ov_store ov' = ov_store ov \<and> bt_sorted (pending ov')
          \<and> n' \<in> {n, n + 1} \<and> stores t' n' (ov_map (bt_get (view (ov_store ov))) ov'))"

lemma ov_step_ok:
  "ov_store ov' = ov_store ov \<Longrightarrow> bt_sorted (pending ov') \<Longrightarrow> n' \<in> {n, n + 1} \<Longrightarrow>
   stores t' n' (ov_map (bt_get (view (ov_store ov))) ov') \<Longrightarrow> ov_step view (Inr t') n ov (Inr ov')"
  by (auto simp: ov_step_def)

context storage
begin

lemma ov_get_map: "invar (ov_store ov) \<Longrightarrow> ov_get S ov = (\<lambda>k. Inr (ov_map (bt_get (view (ov_store ov))) ov k))"
  by (auto simp: ov_get_def ov_map_def store_get_view fun_eq_iff split: option.splits)

lemma ov_scan_empty:
  assumes i: "invar (ov_store ov)" and p: "bt_sorted (pending ov)"
  shows "ov_scan_prefix S ov pre = Inr [] \<longleftrightarrow>
    (\<forall>k. starts_with k pre \<longrightarrow> ov_map (bt_get (view (ov_store ov))) ov k = None)"
    and "\<exists>rows. ov_scan_prefix S ov pre = Inr rows"
proof -
  let ?m = "view (ov_store ov)"
  let ?rows = "filter (\<lambda>(k, v). starts_with k pre) ?m"
  let ?base = "fold (\<lambda>(k, v). bt_insert k v) ?rows []"
  let ?out = "fold (scan_pending pre) (pending ov) ?base"
  have srt: "bt_sorted ?rows" using view_sorted [OF i] by (simp add: sorted_wrt_map sorted_wrt_filter)
  have b: "?base = ?rows" using fold_bt_insert_rebuild [OF srt] .
  have out: "ov_scan_prefix S ov pre = Inr ?out"
    by (simp add: ov_scan_prefix_def store_scan_view [OF i])
  have rev: "map_of (rev (pending ov)) = bt_get (pending ov)"
    using map_of_rev_distinct [OF bt_sorted_distinct [OF p]] by (simp add: bt_get_def fun_eq_iff)
  have rg: "bt_get ?rows k = (if starts_with k pre then bt_get ?m k else None)" for k
  proof -
    have "bt_get ?rows k = Some v \<longleftrightarrow> (if starts_with k pre then bt_get ?m k else None) = Some v" for v
      using bt_get_iff [OF srt] bt_get_iff [OF view_sorted [OF i]] by auto
    then show ?thesis by (metis option.exhaust)
  qed
  have g: "bt_sorted ?out \<and> bt_get ?out k = (if starts_with k pre then ov_map (bt_get ?m) ov k else None)" for k
    using scan_pending_get [OF srt, of pre "pending ov" k]
    by (auto simp: b rg rev ov_map_def split: option.splits)
  have "?out = [] \<longleftrightarrow> (\<forall>k. bt_get ?out k = None)"
    by (metis bt_get_Nil bt_get_None_iff empty_iff equals0I image_is_empty set_empty)
  with g out show "ov_scan_prefix S ov pre = Inr [] \<longleftrightarrow>
    (\<forall>k. starts_with k pre \<longrightarrow> ov_map (bt_get (view (ov_store ov))) ov k = None)" by simp
  show "\<exists>rows. ov_scan_prefix S ov pre = Inr rows" using out by blast
qed

section \<open>Operations on the overlay\<close>

lemma resolve_ov_map:
  "invar (ov_store ov) \<Longrightarrow>
   resolve_ov S ov path = resolve_with (\<lambda>k. Inr (ov_map (bt_get (view (ov_store ov))) ov k)) path"
  by (simp add: resolve_ov_def ov_get_map)

lemma mkdir_ov_tree:
  assumes i: "invar (ov_store ov)" and p: "bt_sorted (pending ov)"
    and st: "stores t n (ov_map (bt_get (view (ov_store ov))) ov)" and n: "n \<noteq> - 1" "path_ok (segments path)"
  shows "ov_step view (spec_mkdir path t) n ov (mkdir_ov S path ov)"
proof (cases "is_root path")
  case True
  then show ?thesis using p st by (auto simp: mkdir_ov_def spec_mkdir_def ov_step_def)
next
  case nr: False
  let ?F = "ov_map (bt_get (view (ov_store ov))) ov"
  have pp: "path_parent path = Some (DbPath (butlast (segments path)))" "path_name path = Some (last (segments path))"
    using nr by (simp_all add: path_parent_def path_name_def is_root_def)
  note unf = mkdir_ov_def resolve_ov_map [OF i] ov_get_map [OF i] next_id_ov_def Let_def
  have ex: "is_ok (resolve_with (\<lambda>k. Inr (?F k)) path) \<longleftrightarrow> t (segments path) \<noteq> None"
    using st by (auto simp: stores_def resolve_ns_rep abs_tree_def split: option.splits)
  show ?thesis
  proof (cases "spec_mkdir path t")
    case (Inl e)
    then show ?thesis
      using nr parent_dir_refused [OF st, of path e]
      by (auto simp: ov_step_def unf pp ex spec_mkdir_def and_then_Inl_iff split: if_splits)
  next
    case (Inr t')
    obtain j where j: "parent_dir (DbPath (butlast (segments path)))
          (resolve_with (\<lambda>k. Inr (?F k)) (DbPath (butlast (segments path)))) = Inr j"
        "?F meta_next_id = Some (encode_id n)" "stores t' (n + 1) (put_new j (segments path) n DirN ?F)"
      using mkdir_core [OF st n nr Inr] by blast
    have "t (segments path) = None" using Inr by (simp add: spec_mkdir_Inr [OF nr])
    then show ?thesis
      using j nr p unfolding Inr
      by (simp add: unf pp ex) (rule ov_step_ok, simp_all add: put_new_def)
  qed
qed

lemma set_ov_tree:
  assumes i: "invar (ov_store ov)" and p: "bt_sorted (pending ov)"
    and st: "stores t n (ov_map (bt_get (view (ov_store ov))) ov)"
    and n: "n \<noteq> - 1" "path_ok (segments path)" "wf_value v"
  shows "ov_step view (spec_set path v t) n ov (set_ov S path v ov)"
proof -
  let ?F = "ov_map (bt_get (view (ov_store ov))) ov"
  let ?q = "DbPath (butlast (segments path))" and ?x = "last (segments path)"
  have pp: "path_parent path = Some ?q" "path_name path = Some ?x" if "\<not> is_root path"
    using that by (simp_all add: path_parent_def path_name_def is_root_def)
  note unf = set_ov_def resolve_ov_map [OF i] ov_get_map [OF i] next_id_ov_def Let_def id_of_def
  show ?thesis
  proof (cases "spec_set path v t")
    case (Inl e)
    have "set_ov S path v ov = Inl e"
    proof (cases "is_root path")
      case True
      then show ?thesis using Inl by (simp add: set_ov_def spec_set_def)
    next
      case nr: False
      from st nr Inl show ?thesis by (cases rule: set_refused) (use nr in \<open>simp_all add: unf pp\<close>)
    qed
    then show ?thesis using Inl by (simp add: ov_step_def)
  next
    case (Inr t')
    then have nr: "\<not> is_root path" by (auto simp: spec_set_def)
    from st n nr Inr show ?thesis
    proof (cases rule: set_core)
      case (new j)
      then show ?thesis
        using nr p unfolding Inr
        by (simp add: unf pp) (rule ov_step_ok, simp_all add: put_new_def del: node_bytes.simps)
    next
      case (old j k w)
      let ?ov = "if typename w \<noteq> typename v then ov_delete (type_index_key (typename w) k) ov else ov"
      let ?ov' = "ov_put (type_index_key (typename v) k) (as_bytes (as_str path))
        (ov_put (node_key k) (encode_value_node (encode v)) ?ov)"
      have "set_ov S path v ov = Inr ?ov'" using old nr by (simp add: unf pp)
      moreover have "ov_map (bt_get (view (ov_store ov))) ?ov' = put_value k (segments path) w (canon v) ?F"
        unfolding put_value_def by (auto simp: fun_eq_iff simp del: node_bytes.simps)
      ultimately show ?thesis
        unfolding Inr by (simp only:) (rule ov_step_ok [where n' = n], use old(5) p in simp_all)
    qed
  qed
qed

lemma delete_ov_tree:
  assumes i: "invar (ov_store ov)" and p: "bt_sorted (pending ov)"
    and st: "stores t n (ov_map (bt_get (view (ov_store ov))) ov)"
  shows "ov_step view (spec_delete path t) n ov (delete_ov S path ov)"
proof -
  let ?F = "ov_map (bt_get (view (ov_store ov))) ov"
  note unf = delete_ov_def resolve_ov_map [OF i] Let_def
  have scan: "ov_scan_prefix S ov (child_prefix k) = Inr [] \<longleftrightarrow> (\<forall>x. ?F (child_key k x) = None)" for k
    using ov_scan_empty(1) [OF i p] by (auto simp: starts_with_child_prefix)
  show ?thesis
  proof (cases "spec_delete path t")
    case (Inl e)
    have "delete_ov S path ov = Inl e"
    proof (cases "is_root path")
      case True
      then show ?thesis using Inl by (simp add: delete_ov_def spec_delete_def)
    next
      case nr: False
      from st nr Inl show ?thesis
      proof (cases rule: delete_refused)
        case 1
        then show ?thesis using nr by (simp add: unf)
      next
        case (2 k x)
        then obtain rows where "ov_scan_prefix S ov (child_prefix k) = Inr rows" "rows \<noteq> []"
          using scan ov_scan_empty(2) [OF i p] by metis
        then show ?thesis using 2 nr by (simp add: unf)
      qed
    qed
    then show ?thesis using Inl by (simp add: ov_step_def)
  next
    case (Inr t')
    then have nr: "\<not> is_root path" by (auto simp: spec_delete_def)
    from st nr Inr show ?thesis
    proof (cases rule: delete_core)
      case (1 j k nd m)
      let ?ov' = "ov_delete (node_key k) (ov_delete (child_key j (last (segments path)))
        (ov_delete (type_index_key (node_type nd) k) ov))"
      have "nd = DirN \<Longrightarrow> ov_scan_prefix S ov (child_prefix k) = Inr []" using 1(2) scan by simp
      then have "delete_ov S path ov = Inr ?ov'"
        using 1 nr by (cases nd) (simp_all add: unf)
      moreover have "stores t' n (ov_map (bt_get (view (ov_store ov))) ?ov')"
        using 1(5) by (simp add: drop_node_def)
      ultimately show ?thesis
        unfolding Inr by (simp only:) (rule ov_step_ok [where n' = n], use p in simp_all)
    qed
  qed
qed

lemma value_ov_tree:
  assumes "invar (ov_store ov)" "stores t n (ov_map (bt_get (view (ov_store ov))) ov)"
  shows "value_ov select what none S ov path = spec_value select what none path t"
proof -
  obtain T where T: "ns_rep T n (ov_map (bt_get (view (ov_store ov))) ov)" "t = abs_tree T"
    using assms(2) by (auto simp: stores_def)
  show ?thesis
  proof (cases "T (segments path)")
    case None
    then have "t (segments path) = None" using T(2) by simp
    with None show ?thesis
      by (simp add: value_ov_def get_value_ov_def resolve_ov_map [OF assms(1)] resolve_ns_rep [OF T(1)] spec_value_def)
  next
    case (Some r)
    obtain k nd where r: "r = (k, nd)" by fastforce
    then have "t (segments path) = Some nd" "node_ok nd"
      using T(2) Some tree_node [OF ns_rep_parts(1) [OF T(1)]] by (auto simp: abs_tree_Some)
    then show ?thesis
      using Some r node_ok_decode
      by (cases nd) (simp_all add: value_ov_def get_value_ov_def resolve_ov_map [OF assms(1)]
          resolve_ns_rep [OF T(1)] spec_value_def)
  qed
qed

lemma update_ov_tree:
  assumes "invar (ov_store ov)" "bt_sorted (pending ov)"
    and "stores t n (ov_map (bt_get (view (ov_store ov))) ov)" and "n \<noteq> - 1" "path_ok (segments path)"
    and "\<And>c. spec_value select what none path t = Inr c \<Longrightarrow> wf_value (mk c)"
  shows "ov_step view (and_then (spec_value select what none path t) (\<lambda>c. spec_set path (mk c) t)) n ov
    (and_then (value_ov select what none S ov path) (\<lambda>c. set_ov S path (mk c) ov))"
proof (cases "spec_value select what none path t")
  case (Inl e)
  then show ?thesis by (simp add: value_ov_tree [OF assms(1,3)] ov_step_def)
next
  case (Inr c)
  then show ?thesis using set_ov_tree [OF assms(1-5) assms(6)] by (simp add: value_ov_tree [OF assms(1,3)])
qed

lemma apply_one_tree:
  assumes "invar (ov_store ov)" "bt_sorted (pending ov)"
    and "stores t n (ov_map (bt_get (view (ov_store ov))) ov)" and "n \<noteq> - 1" "op_wf op t"
  shows "ov_step view (spec_op op t) n ov (apply_one S op ov)"
  using assms mkdir_ov_tree [OF assms(1-4)] set_ov_tree [OF assms(1-4)] delete_ov_tree [OF assms(1-3)]
  by (cases op) (simp_all add: update_ov_tree)

lemma apply_all_tree:
  assumes "invar s"
  shows "ov_store ov = s \<Longrightarrow> bt_sorted (pending ov) \<Longrightarrow> stores t n (ov_map (bt_get (view s)) ov) \<Longrightarrow>
    unat n + length ops < 2 ^ 64 \<Longrightarrow> txn_wf ops t \<Longrightarrow>
    (case spec_txn ops t of
       Inl e \<Rightarrow> apply_all S ops ov = Inl e
     | Inr t' \<Rightarrow> \<exists>ov' n'. apply_all S ops ov = Inr ov' \<and> ov_store ov' = s \<and> bt_sorted (pending ov')
         \<and> unat n' \<le> unat n + length ops \<and> stores t' n' (ov_map (bt_get (view s)) ov'))"
proof (induction ops arbitrary: ov t n)
  case Nil
  then show ?case by auto
next
  case (Cons op ops)
  have n: "n \<noteq> - 1" using Cons.prems(4) unat_minus_1 by auto
  note step = apply_one_tree [of ov t n op]
  have st: "ov_step view (spec_op op t) n ov (apply_one S op ov)"
    using step Cons.prems n assms by simp
  show ?case
  proof (cases "spec_op op t")
    case (Inl e)
    then show ?thesis using st by (simp add: ov_step_def)
  next
    case (Inr t1)
    then obtain ov1 n1 where o: "apply_one S op ov = Inr ov1" "ov_store ov1 = s" "bt_sorted (pending ov1)"
        "n1 \<in> {n, n + 1}" "stores t1 n1 (ov_map (bt_get (view s)) ov1)"
      using st Cons.prems(1) by (auto simp: ov_step_def)
    have u: "unat n1 \<le> unat n + 1" using o(4) unat_succ [OF n] by auto
    then have "unat n1 + length ops < 2 ^ 64" "txn_wf ops t1" using Cons.prems Inr by simp_all
    note IH = Cons.IH [OF o(2,3,5) this]
    show ?thesis
    proof (cases "spec_txn ops t1")
      case (Inl e)
      then show ?thesis using IH o(1) \<open>spec_op op t = Inr t1\<close> by simp
    next
      case (Inr t2)
      then obtain ov' n' where "apply_all S ops ov1 = Inr ov'" "ov_store ov' = s" "bt_sorted (pending ov')"
          "unat n' \<le> unat n1 + length ops" "stores t2 n' (ov_map (bt_get (view s)) ov')"
        using IH by auto
      then show ?thesis
        using o(1) \<open>spec_op op t = Inr t1\<close> Inr u by (simp, intro exI [of _ ov'] exI [of _ n']) simp
    qed
  qed
qed

lemma apply_txn_tree:
  assumes i: "invar s" and st: "stores t n (bt_get (view s))" and n: "unat n + length ops < 2 ^ 64" "txn_wf ops t"
    and run: "apply_txn S ops s = (r, s')"
  shows "\<exists>t' n'. invar s' \<and> unat n' \<le> unat n + length ops \<and> stores t' n' (bt_get (view s'))
     \<and> outcome (spec_txn ops t) t r t' \<and> (\<forall>e. r = Inl e \<and> \<not> storage_failure e \<longrightarrow> s' = s)"
proof (cases "ops = []")
  case True
  then have "r = Inr ()" "s' = s" using run by (simp_all add: apply_txn_def)
  then show ?thesis using i st True by auto
next
  case False
  have all: "case spec_txn ops t of Inl e \<Rightarrow> apply_all S ops (ov_new s) = Inl e
     | Inr t' \<Rightarrow> \<exists>ov' n'. apply_all S ops (ov_new s) = Inr ov' \<and> ov_store ov' = s \<and> bt_sorted (pending ov')
         \<and> unat n' \<le> unat n + length ops \<and> stores t' n' (ov_map (bt_get (view s)) ov')"
    using apply_all_tree [OF i, of "ov_new s" t n ops] st n by simp
  show ?thesis
  proof (cases "spec_txn ops t")
    case (Inl e)
    then have "r = Inl e" "s' = s" using all run False by (simp_all add: apply_txn_def)
    then show ?thesis using i st Inl outcome_refused by (intro exI [of _ t] exI [of _ n]) simp
  next
    case (Inr t')
    then obtain ov n' where o: "apply_all S ops (ov_new s) = Inr ov" "bt_sorted (pending ov)"
        "unat n' \<le> unat n + length ops" "stores t' n' (ov_map (bt_get (view s)) ov)"
      using all by auto
    have f': "bt_get (apply_ops (view s) (into_batch ov)) = ov_map (bt_get (view s)) ov"
      using get_batch [OF i] upds_into_batch [OF o(2)] by simp
    show ?thesis
    proof (cases "into_batch ov = []")
      case True
      then have "r = Inr ()" "s' = s" using run False o(1) by (simp_all add: apply_txn_def)
      then show ?thesis using True i o(3,4) f' Inr by auto
    next
      case ne: False
      obtain c where c: "st_commit S (into_batch ov) s = (c, s')" "r = map_err from_storage_error c"
        using run False o(1) ne by (auto simp: apply_txn_def Let_def store_commit_def split: prod.splits)
      have i': "invar s'" using commit_invar [OF i c(1)] .
      show ?thesis
      proof (cases c)
        case (Inl e)
        then have r: "r = Inl (from_storage_error e)" "storage_failure (from_storage_error e)"
          using c(2) by (simp_all add: from_storage_error_def)
        consider "view s' = view s" | "view s' = apply_ops (view s) (into_batch ov)"
          using commit_err [OF i] c(1) Inl by blast
        then show ?thesis
        proof cases
          case 1
          then show ?thesis using r i' st by (intro exI [of _ t] exI [of _ n]) (simp add: outcome_def)
        next
          case 2
          then show ?thesis
            using r i' o(3,4) f' \<open>spec_txn ops t = Inr t'\<close>
            by (intro exI [of _ t'] exI [of _ n']) (simp add: outcome_def)
        qed
      next
        case (Inr u)
        then have "view s' = apply_ops (view s) (into_batch ov)" using commit_ok [OF i] c(1) by simp
        then show ?thesis
          using Inr c(2) i' o(3,4) f' \<open>spec_txn ops t = Inr t'\<close> by (intro exI [of _ t'] exI [of _ n']) simp
      qed
    qed
  qed
qed

end

end
