(* ===== verification/Txn_Theorems.thy ===== *)
theory Txn_Theorems
  imports Txn_Refine
begin

text \<open>
  The properties of transactions: \<open>apply_txn\<close> against the abstract sequence of operations, and
  against the same operations issued one after another on the database.
\<close>

section \<open>The operations issued directly\<close>

fun direct_op :: "'s Storage \<Rightarrow> TxnOp \<Rightarrow> 's \<Rightarrow> (NsError + unit) \<times> 's" where
  "direct_op S (TMkdir path) s = mkdir S path s"
| "direct_op S (TSet path v) s = db_set S path v s"
| "direct_op S (TDelete path) s = db_delete S path s"
| "direct_op S (THashSet path key v) s = hash_set S path key v s"
| "direct_op S (TListPush path v) s = list_push S path v s"
| "direct_op S (TSetAdd path v) s = set_add S path v s"
| "direct_op S (TTreeSet path key v) s = tree_set S path key v s"

fun direct_seq :: "'s Storage \<Rightarrow> TxnOp list \<Rightarrow> 's \<Rightarrow> (NsError + unit) \<times> 's" where
  "direct_seq S [] s = (Inr (), s)"
| "direct_seq S (op # ops) s = then_at (direct_op S op s) (\<lambda>_. direct_seq S ops)"

context storage
begin

lemma direct_op_tree:
  assumes "invar s" "stores t n (bt_get (view s))" "n \<noteq> - 1" "op_wf op t" "direct_op S op s = (r, s')"
  shows "\<exists>t' n'. invar s' \<and> n' \<in> {n, n + 1} \<and> stores t' n' (bt_get (view s')) \<and> outcome (spec_op op t) t r t'"
proof (cases op)
  case (TMkdir path)
  then show ?thesis using mkdir_tree [OF assms(1-3)] assms(4,5) by simp
next
  case (TSet path v)
  then show ?thesis using set_tree [OF assms(1-3), of path v] assms(4,5) by simp
next
  case (TDelete path)
  then show ?thesis using delete_tree [OF assms(1,2)] assms(5) by simp
next
  case (THashSet path key v)
  then show ?thesis
    using update_tree [OF assms(1-3), where mk = "\<lambda>m. Hash (bt_insert key v m)" and select = as_hash
      and path = path and what = "''hash''" and none = "[]"] assms(4,5)
    by (simp add: hash_set_def del: wf_value.simps)
next
  case (TListPush path v)
  then show ?thesis
    using update_tree [OF assms(1-3), where mk = "\<lambda>m. List (m @ [v])" and select = as_list
      and path = path and what = "''list''" and none = "[]"] assms(4,5)
    by (simp add: list_push_def del: wf_value.simps)
next
  case (TSetAdd path v)
  then show ?thesis
    using update_tree [OF assms(1-3), where mk = "\<lambda>m. Set (set_insert v m)" and select = as_set
      and path = path and what = "''set''" and none = "[]"] assms(4,5)
    by (simp add: set_add_def del: wf_value.simps)
next
  case (TTreeSet path key v)
  then show ?thesis
    using update_tree [OF assms(1-3), where mk = "\<lambda>m. Tree (bt_insert key v m)" and select = as_tree
      and path = path and what = "''tree''" and none = "[]"] assms(4,5)
    by (simp add: tree_set_def del: wf_value.simps)
qed

lemma direct_seq_tree:
  "invar s \<Longrightarrow> stores t n (bt_get (view s)) \<Longrightarrow> unat n + length ops < 2 ^ 64 \<Longrightarrow> txn_wf ops t \<Longrightarrow>
   direct_seq S ops s = (r, s') \<Longrightarrow> \<forall>e. r = Inl e \<longrightarrow> \<not> storage_failure e \<Longrightarrow>
   case spec_txn ops t of
     Inl e \<Rightarrow> r = Inl e
   | Inr t' \<Rightarrow> r = Inr () \<and> (\<exists>n'. invar s' \<and> stores t' n' (bt_get (view s')))"
proof (induction ops arbitrary: s t n)
  case Nil
  then show ?case by auto
next
  case (Cons op ops)
  obtain r1 s1 where one: "direct_op S op s = (r1, s1)" by fastforce
  have n: "n \<noteq> - 1" using Cons.prems(3) unat_minus_1 by auto
  from direct_op_tree [OF Cons.prems(1,2) n _ one] Cons.prems(4) obtain t1 n1 where
    t1: "invar s1" "n1 \<in> {n, n + 1}" "stores t1 n1 (bt_get (view s1))" "outcome (spec_op op t) t r1 t1" by auto
  show ?case
  proof (cases r1)
    case (Inl e)
    then have "r = Inl e" using Cons.prems(5) one by simp
    then show ?thesis using Cons.prems(6) t1(4) Inl by (auto simp: outcome_def)
  next
    case (Inr u)
    then have sp: "spec_op op t = Inr t1" using t1(4) by simp
    have "unat n1 + length ops < 2 ^ 64" using t1(2) unat_succ [OF n] Cons.prems(3) by auto
    then show ?thesis
      using Cons.IH [OF t1(1,3) _ _ _ Cons.prems(6)] Cons.prems(4,5) one Inr sp by simp
  qed
qed

end

section \<open>Properties\<close>


lemma push_spec:
  "spec_op (TListPush (DbPath [''a'']) (value_int 5)) empty_tree = Inr (empty_tree([''a''] \<mapsto> ValN (List [value_int 5])))"
  by (simp add: spec_value_def spec_set_def is_root_def empty_tree_def spec_parent_def value_int_def)

lemma push_wf: "op_wf (TListPush (DbPath [''a'']) (value_int 5)) empty_tree"
  by (auto simp: spec_value_def empty_tree_def value_int_def len_ok_def)


text \<open>
  C32. A transaction refines the sequence of its abstract operations: if it is acknowledged the
  stored tree is the one after all of them; if it is refused the error is the one of the first
  operation that the tree at that point does not allow, and the tree is unchanged; a store failure
  leaves the tree from before or from after the whole transaction, never one in between.
\<close>

theorem txn_refines:
  assumes "storage S view invar" and "ns_state view invar t n s" and "unat n + length ops < 2 ^ 64"
    and "txn_wf ops t" and "apply_txn S ops s = (r, s')"
  shows "\<exists>t' n'. ns_state view invar t' n' s' \<and> unat n' \<le> unat n + length ops \<and> outcome (spec_txn ops t) t r t'"
  using storage.apply_txn_tree [OF assms(1) _ _ assms(3-5)] assms(2) by (fastforce simp: ns_state_def)

definition two_ops :: "TxnOp list" where
  "two_ops = [TMkdir (DbPath [''a'']), TSet (DbPath [''a'', ''b'']) (value_int 5)]"

lemma two_ops_spec:
  "spec_txn two_ops empty_tree = Inr (empty_tree([''a''] \<mapsto> DirN, [''a'', ''b''] \<mapsto> ValN (value_int 5)))"
  by (simp add: two_ops_def spec_mkdir_def spec_set_def is_root_def empty_tree_def spec_parent_def value_int_def)

lemma two_ops_wf: "txn_wf two_ops empty_tree" "unat (2 :: u64) + length two_ops < 2 ^ 64"
  by (simp_all add: two_ops_def value_int_def)

lemma mem_txn_ok:
  assumes "ns_state mem_map memory_inv t n s" "unat n + length ops < 2 ^ 64" "txn_wf ops t" "spec_txn ops t = Inr t'"
  obtains s' where "apply_txn memory_storage ops s = (Inr (), s')"
proof -
  obtain r s' where run: "apply_txn memory_storage ops s = (r, s')" by fastforce
  from storage.apply_all_tree [OF mem.storage_axioms, of s "ov_new s" t n ops] assms
  obtain ov where "apply_all memory_storage ops (ov_new s) = Inr ov" by (auto simp: ns_state_def)
  then have "r = Inr ()" using run by (auto simp: apply_txn_def store_commit_def Let_def split: if_splits)
  then show ?thesis using that run by blast
qed

theorem txn_refines_witness:
  "\<exists>s' n'. apply_txn memory_storage two_ops mem_root = (Inr (), s')
     \<and> ns_state mem_map memory_inv (empty_tree([''a''] \<mapsto> DirN, [''a'', ''b''] \<mapsto> ValN (value_int 5))) n' s'"
proof -
  obtain s' where s': "apply_txn memory_storage two_ops mem_root = (Inr (), s')"
    by (rule mem_txn_ok [OF mem_root_state two_ops_wf(2,1) two_ops_spec])
  from txn_refines [OF mem.storage_axioms mem_root_state two_ops_wf(2,1) s'] s' show ?thesis
    unfolding two_ops_spec by auto
qed

text \<open>
  A refused transaction writes nothing: unless the store itself fails, an error means that the
  store is exactly what it was, whatever operations came before the one that is refused.
\<close>

theorem txn_refused_writes_nothing:
  assumes "apply_txn S ops s = (Inl e, s')" and "\<not> storage_failure e"
  shows "s' = s"
proof (cases "apply_all S ops (ov_new s)")
  case (Inl d)
  then show ?thesis using assms(1) by (simp add: apply_txn_def split: if_splits)
next
  case (Inr ov)
  have "storage_failure (from_storage_error x)" for x by (simp add: from_storage_error_def)
  then show ?thesis
    using assms Inr by (auto simp: apply_txn_def Let_def store_commit_def map_err_Inl_iff split: if_splits prod.splits)
qed

theorem txn_refused_writes_nothing_witness:
  "apply_txn memory_storage [TMkdir (DbPath [''a'']), TDelete path_root] mem_root
     = (Inl (Invalid ''cannot delete root''), mem_root)"
proof -
  let ?ops = "[TMkdir (DbPath [''a'']), TDelete path_root]"
  have "spec_txn ?ops empty_tree = Inl (Invalid ''cannot delete root'')" "txn_wf ?ops empty_tree"
    by (simp_all add: spec_mkdir_def spec_delete_def is_root_def empty_tree_def spec_parent_def path_root_def)
  then have "apply_all memory_storage ?ops (ov_new mem_root) = Inl (Invalid ''cannot delete root'')"
    using storage.apply_all_tree [OF mem.storage_axioms, of mem_root "ov_new mem_root" empty_tree 2 ?ops]
      mem_root_state by (simp add: ns_state_def)
  then obtain s' where "apply_txn memory_storage ?ops mem_root = (Inl (Invalid ''cannot delete root''), s')"
    by (simp add: apply_txn_def)
  with txn_refused_writes_nothing [OF this] show ?thesis by simp
qed

text \<open>
  C33. A transaction is equivalent to its operations issued one after another.  When the store does
  not fail, both return the same result; if that is success both end with the same tree.  (They
  differ after a refusal: the transaction then keeps none of the earlier operations.)
\<close>

theorem txn_equals_sequence:
  assumes "storage S view invar" and "ns_state view invar t n s" and "unat n + length ops < 2 ^ 64"
    and "txn_wf ops t" and "apply_txn S ops s = (r, s1)" and "direct_seq S ops s = (q, s2)"
    and "\<forall>e. r = Inl e \<or> q = Inl e \<longrightarrow> \<not> storage_failure e"
  shows "r = q \<and> (r = Inr () \<longrightarrow>
    (\<exists>t' n1 n2. ns_state view invar t' n1 s1 \<and> ns_state view invar t' n2 s2))"
proof -
  have s: "invar s" "stores t n (bt_get (view s))" using assms(2) by (simp_all add: ns_state_def)
  obtain t' n' where txn: "invar s1" "stores t' n' (bt_get (view s1))" "outcome (spec_txn ops t) t r t'"
    using storage.apply_txn_tree [OF assms(1) s assms(3-5)] by auto
  have seq: "case spec_txn ops t of Inl e \<Rightarrow> q = Inl e
      | Inr t' \<Rightarrow> q = Inr () \<and> (\<exists>n'. invar s2 \<and> stores t' n' (bt_get (view s2)))"
    using storage.direct_seq_tree [OF assms(1) s assms(3,4,6)] assms(7) by blast
  show ?thesis
  proof (cases r)
    case (Inl e)
    then have "spec_txn ops t = Inl e" using txn(3) assms(7) by (auto simp: outcome_def)
    then show ?thesis using seq Inl by simp
  next
    case (Inr u)
    then show ?thesis using seq txn by (auto simp: ns_state_def)
  qed
qed

theorem txn_equals_sequence_witness:
  "\<exists>s1 s2 t' n1 n2. apply_txn memory_storage [TMkdir (DbPath [''a''])] mem_root = (Inr (), s1)
     \<and> direct_seq memory_storage [TMkdir (DbPath [''a''])] mem_root = (Inr (), s2)
     \<and> ns_state mem_map memory_inv t' n1 s1 \<and> ns_state mem_map memory_inv t' n2 s2"
proof -
  let ?ops = "[TMkdir (DbPath [''a''])]"
  have sp: "spec_mkdir (DbPath [''a'']) empty_tree = Inr (empty_tree([''a''] \<mapsto> DirN))"
    by (simp add: spec_mkdir_def is_root_def empty_tree_def spec_parent_def)
  have wf: "txn_wf ?ops empty_tree" "unat (2 :: u64) + length ?ops < 2 ^ 64" by simp_all
  obtain s1 where s1: "apply_txn memory_storage ?ops mem_root = (Inr (), s1)"
    by (rule mem_txn_ok [OF mem_root_state wf(2,1)]) (simp add: sp)
  obtain s2 where "mkdir memory_storage (DbPath [''a'']) mem_root = (Inr (), s2)"
    by (rule mem_mkdir_ok [OF mem_root_state _ _ sp]) simp_all
  then have s2: "direct_seq memory_storage ?ops mem_root = (Inr (), s2)" by simp
  from txn_equals_sequence [OF mem.storage_axioms mem_root_state wf(2,1) s1 s2] s1 s2 show ?thesis by blast
qed

end
