(* ===== verification/Rust_Text.thy ===== *)
theory Rust_Text
  imports Prelude
begin

text \<open>
  The text functions of Rust's standard library that the query language, the server and the file
  system projection call: iterating over characters, ASCII classification, and parsing numbers.
  A \<open>char\<close> of Rust is a Unicode scalar value; here it is the UTF-8 encoding of it.
\<close>

section \<open>Characters\<close>

type_synonym rchar = string \<comment> \<open>one Rust \<open>char\<close>, as its UTF-8 bytes\<close>

text \<open>\<open>str::chars\<close>.  The last case is for bytes that are not UTF-8, which no \<open>str\<close> holds.\<close>

function chars :: "string \<Rightarrow> rchar list" where
  "chars [] = []"
| "chars (c # cs) =
     (case utf8_rest (byte_of_char c) (as_bytes cs) of
        Some r \<Rightarrow> (c # take (length cs - length r) cs) # chars (drop (length cs - length r) cs)
      | None \<Rightarrow> [c] # chars cs)"
  by pat_completeness auto
termination
  by (relation "measure length") (auto dest: utf8_rest_le)

definition is_ascii_char :: "char \<Rightarrow> bool" where
  "is_ascii_char c \<longleftrightarrow> (of_char c :: nat) < 128"

fun is_ascii_whitespace :: "rchar \<Rightarrow> bool" where
  "is_ascii_whitespace [c] = (of_char c \<in> {9 :: nat, 10, 12, 13, 32})"
| "is_ascii_whitespace _ = False"

fun is_ascii_digit :: "rchar \<Rightarrow> bool" where
  "is_ascii_digit [c] = (48 \<le> (of_char c :: nat) \<and> (of_char c :: nat) \<le> 57)"
| "is_ascii_digit _ = False"

fun is_ascii_alphabetic :: "rchar \<Rightarrow> bool" where
  "is_ascii_alphabetic [c] =
     (65 \<le> (of_char c :: nat) \<and> (of_char c :: nat) \<le> 90 \<or> 97 \<le> (of_char c :: nat) \<and> (of_char c :: nat) \<le> 122)"
| "is_ascii_alphabetic _ = False"

definition is_ascii_alphanumeric :: "rchar \<Rightarrow> bool" where
  "is_ascii_alphanumeric c \<longleftrightarrow> is_ascii_alphabetic c \<or> is_ascii_digit c"

lemma concat_chars [simp]: "concat (chars s) = s"
  by (induction s rule: chars.induct) (auto split: option.splits)

lemma chars_Nil_iff [simp]: "chars s = [] \<longleftrightarrow> s = []"
  by (cases s) (auto split: option.splits)

lemma chars_inject: "chars s = chars t \<longleftrightarrow> s = t"
  by (metis concat_chars)

lemma chars_nonempty: "c \<in> set (chars s) \<Longrightarrow> c \<noteq> []"
  by (induction s rule: chars.induct) (auto split: option.splits)

lemma chars_ascii_Cons [simp]: "is_ascii_char c \<Longrightarrow> chars (c # s) = [c] # chars s"
  by (simp add: is_ascii_char_def utf8_rest_def byte_of_char_def word_less_nat_alt)

lemma chars_ascii: "list_all is_ascii_char s \<Longrightarrow> chars s = map (\<lambda>c. [c]) s"
  by (induction s) (simp_all del: chars.simps(2))

lemma chars_ascii_append: "list_all is_ascii_char s \<Longrightarrow> chars (s @ t) = chars s @ chars t"
  by (induction s) (simp_all del: chars.simps(2))

lemma utf8_rest_suffix: "utf8_rest b bs = Some r \<Longrightarrow> \<exists>p. bs = p @ r"
  by (auto simp: utf8_rest_def split: if_splits list.splits)

lemma chars_append:
  assumes "utf8_string s"
  shows "chars (s @ t) = chars s @ chars t"
  using assms
proof (induction s rule: chars.induct)
  case (2 c cs)
  then obtain r where r: "utf8_rest (byte_of_char c) (as_bytes cs) = Some r" "valid_utf8 r"
    by (auto simp: utf8_string_def split: option.splits)
  then have r': "utf8_rest (byte_of_char c) (as_bytes (cs @ t)) = Some (r @ as_bytes t)"
    by (simp add: utf8_rest_append)
  obtain p where p: "as_bytes cs = p @ r" using utf8_rest_suffix [OF r(1)] by blast
  let ?k = "length cs - length r"
  have len: "length cs = length p + length r" using p by (metis length_append length_as_bytes)
  have "as_bytes (drop ?k cs) = r"
    using p len by (simp add: as_bytes_def flip: drop_map)
  then have "utf8_string (drop ?k cs)" using r(2) by (simp add: utf8_string_def)
  then have "chars (drop ?k cs @ t) = chars (drop ?k cs) @ chars t" using 2(2) r(1) by blast
  then show ?case using r r' len by simp
qed simp

declare chars.simps(2) [simp del]

text \<open>One character.\<close>

definition is_char :: "rchar \<Rightarrow> bool" where
  "is_char c \<longleftrightarrow> utf8_string c \<and> chars c = [c]"

lemma is_char_ascii [simp]: "is_ascii_char c \<Longrightarrow> is_char [c]"
  by (simp add: is_char_def utf8_string_ascii is_ascii_char_def)

lemma chars_concat: "list_all is_char cs \<Longrightarrow> chars (concat cs) = cs"
  by (induction cs) (auto simp: is_char_def chars_append)

lemma utf8_concat: "list_all is_char cs \<Longrightarrow> utf8_string (concat cs)"
  by (induction cs) (auto simp: is_char_def utf8_string_def valid_utf8_append)

lemma utf8_rest_exact: "utf8_rest b (p @ r) = Some r \<Longrightarrow> utf8_rest b p = Some []"
  by (cases p; cases "tl p"; cases "tl (tl p)") (auto simp: utf8_rest_def split: if_splits list.splits)

lemma chars_is_char: "utf8_string s \<Longrightarrow> list_all is_char (chars s)"
proof (induction s rule: chars.induct)
  case (2 c cs)
  then obtain r where r: "utf8_rest (byte_of_char c) (as_bytes cs) = Some r" "valid_utf8 r"
    by (auto simp: utf8_string_def split: option.splits)
  let ?k = "length cs - length r"
  obtain p where p: "as_bytes cs = p @ r" using utf8_rest_suffix [OF r(1)] by blast
  have len: "length cs = length p + length r" using p by (metis length_append length_as_bytes)
  have pr: "as_bytes (take ?k cs) = p" "as_bytes (drop ?k cs) = r"
    using p len by (simp_all add: as_bytes_def flip: drop_map take_map)
  then have "utf8_string (drop ?k cs)" using r(2) by (simp add: utf8_string_def)
  then have "list_all is_char (chars (drop ?k cs))" using 2(2) r(1) by blast
  moreover have "utf8_rest (byte_of_char c) (as_bytes (take ?k cs)) = Some []"
    using utf8_rest_exact [of "byte_of_char c" p r] r(1) p pr by simp
  then have "is_char (c # take ?k cs)" by (simp add: is_char_def utf8_string_def chars.simps(2))
  ultimately show ?case using r(1) by (simp add: chars.simps(2))
qed simp

text \<open>An ASCII byte is a character of its own.\<close>

lemma is_char_ascii_mem:
  assumes "is_char w" "is_ascii_char c" "c \<in> set w"
  shows "w = [c]"
proof -
  obtain d ds where w: "w = d # ds" using assms(3) by (cases w) auto
  have v: "utf8_string w" "chars w = [w]" using assms(1) by (simp_all add: is_char_def)
  obtain r where r: "utf8_rest (byte_of_char d) (as_bytes ds) = Some r"
    using v(1) w by (auto simp: utf8_string_def split: option.splits)
  have "length ds - length r = length ds" using v(2) w r by (auto simp: chars.simps(2))
  moreover have "length r \<le> length ds" using utf8_rest_le [OF r] by simp
  ultimately have r0: "utf8_rest (byte_of_char d) (as_bytes ds) = Some []" using r by (cases r) auto
  have c: "byte_of_char c < 0x80" using assms(2) by (simp add: is_ascii_char_def byte_of_char_def word_less_nat_alt)
  show ?thesis
  proof (cases "byte_of_char d < 0x80")
    case True
    then have "ds = []" using r0 by (auto simp: utf8_rest_def as_bytes_def)
    then show ?thesis using w assms(3) by simp
  next
    case False
    then have "\<forall>b \<in> set (as_bytes ds). is_cont b"
      using r0 by (auto simp: utf8_rest_def split: if_splits list.splits)
    then have "byte_of_char c \<notin> set (as_bytes w)" using not_cont_ascii [OF c] False c w by auto
    then show ?thesis using assms(3) by (auto simp: as_bytes_def)
  qed
qed

lemma takeWhile_stop: "list_all P xs \<Longrightarrow> \<not> P y \<Longrightarrow> takeWhile P (xs @ y # ys) = xs \<and> dropWhile P (xs @ y # ys) = y # ys"
  by (induction xs) auto

lemma concat_singletons [simp]: "concat (map (\<lambda>c. [c]) s) = s"
  by (induction s) auto

section \<open>White space\<close>

text \<open>The characters with the Unicode property White\_Space, which \<open>str::trim\<close> removes.\<close>

definition is_whitespace :: "rchar \<Rightarrow> bool" where
  "is_whitespace c \<longleftrightarrow>
     as_bytes c \<in> {[0x09], [0x0A], [0x0B], [0x0C], [0x0D], [0x20], [0xC2, 0x85], [0xC2, 0xA0], [0xE1, 0x9A, 0x80],
       [0xE2, 0x80, 0xA8], [0xE2, 0x80, 0xA9], [0xE2, 0x80, 0xAF], [0xE2, 0x81, 0x9F], [0xE3, 0x80, 0x80],
       [0xE2, 0x80, 0x80], [0xE2, 0x80, 0x81], [0xE2, 0x80, 0x82], [0xE2, 0x80, 0x83], [0xE2, 0x80, 0x84], [0xE2, 0x80, 0x85],
       [0xE2, 0x80, 0x86], [0xE2, 0x80, 0x87], [0xE2, 0x80, 0x88], [0xE2, 0x80, 0x89], [0xE2, 0x80, 0x8A]}"

definition trim :: "string \<Rightarrow> string" where
  "trim s = concat (rev (dropWhile is_whitespace (rev (dropWhile is_whitespace (chars s)))))"

lemma trim_id:
  assumes "s = [] \<or> \<not> is_whitespace (hd (chars s)) \<and> \<not> is_whitespace (last (chars s))"
  shows "trim s = s"
proof (cases "s = []")
  case False
  then have ne: "chars s \<noteq> []" by simp
  then have "dropWhile is_whitespace (chars s) = chars s"
    using assms False by (cases "chars s") auto
  moreover have "dropWhile is_whitespace (rev (chars s)) = rev (chars s)"
    using assms False ne by (cases "chars s" rule: rev_cases) auto
  ultimately show ?thesis by (simp add: trim_def)
qed (simp add: trim_def)

section \<open>Escaping\<close>

text \<open>A backslash before every quote and backslash.\<close>

abbreviation quote :: rchar where "quote \<equiv> [CHR 0x22]"
abbreviation backslash :: rchar where "backslash \<equiv> [CHR 0x5C]"

fun escape :: "rchar list \<Rightarrow> rchar list" where
  "escape [] = []"
| "escape (c # cs) = (if c = quote \<or> c = backslash then [backslash, c] else [c]) @ escape cs"

lemma escape_is_char: "list_all is_char cs \<Longrightarrow> list_all is_char (escape cs)"
  by (induction cs) (auto simp: is_ascii_char_def)

section \<open>Integers\<close>

datatype IntErrorKind = EmptyInt | InvalidDigit | PosOverflow | NegOverflow

fun show_int_error :: "IntErrorKind \<Rightarrow> string" where
  "show_int_error EmptyInt = ''cannot parse integer from empty string''"
| "show_int_error InvalidDigit = ''invalid digit found in string''"
| "show_int_error PosOverflow = ''number too large to fit in target type''"
| "show_int_error NegOverflow = ''number too small to fit in target type''"

definition to_digit :: "char \<Rightarrow> int option" where
  "to_digit c = (if 48 \<le> (of_char c :: nat) \<and> (of_char c :: nat) \<le> 57 then Some (of_char c - 48) else None)"

text \<open>The digit loop of \<open>from_str_radix\<close> with a type's smallest and largest value.\<close>

fun digits_pos :: "int \<Rightarrow> int \<Rightarrow> string \<Rightarrow> IntErrorKind + int" where
  "digits_pos hi acc [] = Inr acc"
| "digits_pos hi acc (c # cs) =
     (case to_digit c of
        None \<Rightarrow> Inl InvalidDigit
      | Some d \<Rightarrow> if hi < acc * 10 + d then Inl PosOverflow else digits_pos hi (acc * 10 + d) cs)"

fun digits_neg :: "int \<Rightarrow> int \<Rightarrow> string \<Rightarrow> IntErrorKind + int" where
  "digits_neg lo acc [] = Inr acc"
| "digits_neg lo acc (c # cs) =
     (case to_digit c of
        None \<Rightarrow> Inl InvalidDigit
      | Some d \<Rightarrow> if acc * 10 - d < lo then Inl NegOverflow else digits_neg lo (acc * 10 - d) cs)"

definition parse_i64 :: "string \<Rightarrow> IntErrorKind + i64" where
  "parse_i64 s =
     map_sum id word_of_int
       (if s = [] then Inl EmptyInt
        else if s = ''+'' \<or> s = ''-'' then Inl InvalidDigit
        else if hd s = CHR ''-'' then digits_neg (- (2 ^ 63)) 0 (tl s)
        else digits_pos (2 ^ 63 - 1) 0 (if hd s = CHR ''+'' then tl s else s))"

definition parse_usize :: "string \<Rightarrow> IntErrorKind + u64" where
  "parse_usize s =
     map_sum id word_of_int
       (if s = [] then Inl EmptyInt
        else if s = ''+'' \<or> s = ''-'' then Inl InvalidDigit
        else digits_pos (2 ^ 64 - 1) 0 (if hd s = CHR ''+'' then tl s else s))"

fun digits_value :: "string \<Rightarrow> int \<Rightarrow> int" where
  "digits_value [] acc = acc"
| "digits_value (c # cs) acc = digits_value cs (acc * 10 + (of_char c - 48))"

lemma of_digit_char: "d < 10 \<Longrightarrow> of_char (digit_char d) = (48 + d :: nat)"
  by (simp add: digit_char_def)

lemma to_digit_char [simp]: "d < 10 \<Longrightarrow> to_digit (digit_char d) = Some (int d)"
proof -
  assume d: "d < 10"
  have "(of_char (digit_char d) :: int) = int (of_char (digit_char d))" by (simp add: of_nat_of_char)
  then show ?thesis using of_digit_char [OF d] d by (simp add: to_digit_def)
qed

lemma is_ascii_digit_char [simp]: "d < 10 \<Longrightarrow> is_ascii_digit [digit_char d]"
  by (simp add: of_digit_char)

lemma digits_pos_append:
  "digits_pos hi acc (xs @ ys) = and_then (digits_pos hi acc xs) (\<lambda>a. digits_pos hi a ys)"
  by (induction xs arbitrary: acc) (auto split: option.splits)

lemma digits_neg_append:
  "digits_neg lo acc (xs @ ys) = and_then (digits_neg lo acc xs) (\<lambda>a. digits_neg lo a ys)"
  by (induction xs arbitrary: acc) (auto split: option.splits)

lemma digits_pos_show: "int n \<le> hi \<Longrightarrow> digits_pos hi 0 (show_nat n) = Inr (int n)"
  unfolding show_nat_def
proof (induction "10 :: nat" n rule: show_nat_base.induct)
  case (1 n)
  show ?case
  proof (cases "n < 10")
    case False
    have "int (n div 10) \<le> hi" using 1(2) by linarith
    then have "digits_pos hi 0 (show_nat_base 10 (n div 10)) = Inr (int (n div 10))" using 1(1) False by simp
    moreover have "int (n div 10) * 10 + int (n mod 10) = int n" by presburger
    ultimately show ?thesis using False 1(2) by (simp add: show_nat_base.simps [of 10 n] digits_pos_append)
  qed (use 1(2) in \<open>simp add: show_nat_base.simps [of 10 n]\<close>)
qed

lemma digits_neg_show: "lo \<le> - int n \<Longrightarrow> digits_neg lo 0 (show_nat n) = Inr (- int n)"
  unfolding show_nat_def
proof (induction "10 :: nat" n rule: show_nat_base.induct)
  case (1 n)
  show ?case
  proof (cases "n < 10")
    case False
    have "lo \<le> - int (n div 10)" using 1(2) by linarith
    then have "digits_neg lo 0 (show_nat_base 10 (n div 10)) = Inr (- int (n div 10))" using 1(1) False by simp
    moreover have "- int (n div 10) * 10 - int (n mod 10) = - int n" by presburger
    ultimately show ?thesis using False 1(2) by (simp add: show_nat_base.simps [of 10 n] digits_neg_append)
  qed (use 1(2) in \<open>simp add: show_nat_base.simps [of 10 n]\<close>)
qed

lemma show_nat_digits: "c \<in> set (show_nat n) \<Longrightarrow> is_ascii_digit [c]"
  unfolding show_nat_def
proof (induction "10 :: nat" n rule: show_nat_base.induct)
  case (1 n)
  then show ?case by (cases "n < 10") (auto simp: show_nat_base.simps [of 10 n] of_digit_char)
qed

lemma show_nat_ne [simp]: "show_nat n \<noteq> []"
  unfolding show_nat_def by (subst show_nat_base.simps) simp

lemma show_int_ne [simp]: "show_int i \<noteq> []"
  by (simp add: show_int_def)

lemma hd_show_nat: "is_ascii_digit [hd (show_nat n)]"
  using show_nat_digits [of "hd (show_nat n)" n] by simp

lemma digit_not_sign: "is_ascii_digit [c] \<Longrightarrow> c \<noteq> CHR ''-'' \<and> c \<noteq> CHR ''+''"
  by auto

lemma parse_show_i64 [simp]: "parse_i64 (show_int (sint (n :: i64))) = Inr n"
proof (cases "sint n < 0")
  case True
  have "- (2 ^ 63) \<le> sint n" using sint_greater_eq [of n] by simp
  then have "digits_neg (- (2 ^ 63)) 0 (show_nat (nat (- sint n))) = Inr (sint n)"
    using digits_neg_show [of "- (2 ^ 63)" "nat (- sint n)"] True by simp
  then show ?thesis using True by (simp add: parse_i64_def show_int_def)
next
  case False
  let ?s = "show_nat (nat (sint n))"
  have "sint n \<le> 2 ^ 63 - 1" using sint_less [of n] by simp
  then have d: "digits_pos (2 ^ 63 - 1) 0 ?s = Inr (sint n)"
    using digits_pos_show [of "nat (sint n)" "2 ^ 63 - 1"] False by simp
  have h: "hd ?s \<noteq> CHR ''-''" "hd ?s \<noteq> CHR ''+''" using digit_not_sign [OF hd_show_nat] by auto
  then have "?s \<noteq> ''+''" "?s \<noteq> ''-''" by (metis list.sel(1))+
  then show ?thesis using d h False by (simp add: parse_i64_def show_int_def)
qed

lemma parse_show_usize [simp]: "n < 2 ^ 64 \<Longrightarrow> parse_usize (show_nat n) = Inr (word_of_nat n)"
proof -
  assume n: "n < 2 ^ 64"
  let ?s = "show_nat n"
  have d: "digits_pos (2 ^ 64 - 1) 0 ?s = Inr (int n)"
    by (rule digits_pos_show) (use n in simp)
  have h: "hd ?s \<noteq> CHR ''-''" "hd ?s \<noteq> CHR ''+''" using digit_not_sign [OF hd_show_nat] by auto
  then have "?s \<noteq> ''+''" "?s \<noteq> ''-''" by (metis list.sel(1))+
  then show ?thesis using d h by (simp add: parse_usize_def)
qed

end
