(* ===== verification/Rust_Float.thy ===== *)
theory Rust_Float
  imports Rust_Text
begin

text \<open>
  Parsing and printing of \<open>f64\<close> as Rust's standard library does it.  A float is its bit pattern.
  \<open>parse_f64\<close> rounds the decimal value to the nearest double, ties to even; \<open>show_f64\<close> prints the
  shortest decimal that parses back to the same double, without an exponent.
\<close>

section \<open>Rounding a ratio to a double\<close>

definition f64_inf :: u64 where "f64_inf = 0x7FF0000000000000"
definition f64_nan :: u64 where "f64_nan = 0x7FF8000000000000"
definition f64_sign :: u64 where "f64_sign = 0x8000000000000000"

function bit_length :: "int \<Rightarrow> int" where
  "bit_length n = (if n \<le> 0 then 0 else 1 + bit_length (n div 2))"
  by pat_completeness auto
termination
  by (relation "measure nat") auto

declare bit_length.simps [simp del]

definition round_half_even :: "int \<Rightarrow> int \<Rightarrow> int" where
  "round_half_even a b =
     (let q = a div b; r = a mod b
      in if 2 * r < b \<or> 2 * r = b \<and> even q then q else q + 1)"

text \<open>\<open>num / den * 2 ^ (- e)\<close> as a ratio.\<close>

definition scaled :: "int \<Rightarrow> int \<Rightarrow> int \<Rightarrow> int \<times> int" where
  "scaled num den e = (if 0 \<le> e then (num, den * 2 ^ nat e) else (num * 2 ^ nat (- e), den))"

text \<open>
  The exponent is chosen so that the mantissa has 53 bits, or is the smallest one (subnormal
  numbers).  Adding the rounded mantissa to the exponent field carries into it when rounding
  reaches the next power of two; everything past the largest finite number is infinity.
\<close>

definition f64_exponent :: "int \<Rightarrow> int \<Rightarrow> int" where
  "f64_exponent num den =
     (let e = bit_length num - bit_length den - 53
      in max (- 1074) (case scaled num den e of (a, b) \<Rightarrow> if 2 ^ 53 * b \<le> a then e + 1 else e))"

definition f64_of_ratio :: "int \<Rightarrow> int \<Rightarrow> u64" where
  "f64_of_ratio num den =
     (if num = 0 then 0
      else
        let e = f64_exponent num den;
            m = (case scaled num den e of (a, b) \<Rightarrow> round_half_even a b)
        in word_of_int (min (uint f64_inf) ((e + 1074) * 2 ^ 52 + m)))"

section \<open>Parsing\<close>

datatype FloatErrorKind = EmptyFloat | InvalidFloat

fun show_float_error :: "FloatErrorKind \<Rightarrow> string" where
  "show_float_error EmptyFloat = ''cannot parse float from empty string''"
| "show_float_error InvalidFloat = ''invalid float literal''"

definition is_digit :: "char \<Rightarrow> bool" where
  "is_digit c \<longleftrightarrow> is_ascii_digit [c]"

fun exponent_digits :: "string \<Rightarrow> int \<Rightarrow> int" where
  "exponent_digits [] acc = acc"
| "exponent_digits (c # cs) acc =
     exponent_digits cs (if acc < 0x10000 then acc * 10 + (of_char c - 48) else acc)"

definition parse_scientific :: "string \<Rightarrow> int option" where
  "parse_scientific s =
     (let neg = (s \<noteq> [] \<and> hd s = CHR ''-'');
          ds = (if s \<noteq> [] \<and> (hd s = CHR ''-'' \<or> hd s = CHR ''+'') then tl s else s)
      in if ds = [] \<or> \<not> list_all is_digit ds then None
         else Some (if neg then - exponent_digits ds 0 else exponent_digits ds 0))"

text \<open>The digits without the point, and the power of ten they are multiplied with.\<close>

definition parse_decimal :: "string \<Rightarrow> (int \<times> int) option" where
  "parse_decimal s =
     (let ip = takeWhile is_digit s; r = dropWhile is_digit s;
          (fp, r) = (if r \<noteq> [] \<and> hd r = CHR ''.'' then (takeWhile is_digit (tl r), dropWhile is_digit (tl r)) else ([], r))
      in if ip = [] \<and> fp = [] then None
         else
           map_option (\<lambda>e. (digits_value (ip @ fp) 0, e - int (length fp)))
             (if r = [] then Some 0
              else if hd r = CHR ''e'' \<or> hd r = CHR ''E'' then parse_scientific (tl r)
              else None))"

definition f64_of_decimal :: "int \<Rightarrow> int \<Rightarrow> u64" where
  "f64_of_decimal m e = (if 0 \<le> e then f64_of_ratio (m * 10 ^ nat e) 1 else f64_of_ratio m (10 ^ nat (- e)))"

definition ascii_lower :: "char \<Rightarrow> char" where
  "ascii_lower c = (if 65 \<le> (of_char c :: nat) \<and> (of_char c :: nat) \<le> 90 then char_of (of_char c + 32 :: nat) else c)"

definition parse_inf_nan :: "string \<Rightarrow> u64 option" where
  "parse_inf_nan s =
     (let l = map ascii_lower s
      in if l = ''nan'' then Some f64_nan
         else if l = ''inf'' \<or> l = ''infinity'' then Some f64_inf
         else None)"

definition parse_f64 :: "string \<Rightarrow> FloatErrorKind + u64" where
  "parse_f64 s =
     (if s = [] then Inl EmptyFloat
      else
        let neg = (hd s = CHR ''-'');
            t = (if hd s = CHR ''-'' \<or> hd s = CHR ''+'' then tl s else s);
            signed = (\<lambda>b. if neg then or b f64_sign else b)
        in case parse_decimal t of
             Some (m, e) \<Rightarrow> Inr (signed (f64_of_decimal m e))
           | None \<Rightarrow>
               (case parse_inf_nan t of
                  Some b \<Rightarrow> Inr (signed b)
                | None \<Rightarrow> Inl InvalidFloat))"

section \<open>Printing\<close>

text \<open>A finite positive double as a ratio.\<close>

definition f64_ratio :: "u64 \<Rightarrow> int \<times> int" where
  "f64_ratio bits =
     (let ef = uint bits div 2 ^ 52 mod 2048; mf = uint bits mod 2 ^ 52;
          m = (if ef = 0 then mf else mf + 2 ^ 52); e = (if ef = 0 then - 1074 else ef - 1075)
      in if 0 \<le> e then (m * 2 ^ nat e, 1) else (m, 2 ^ nat (- e)))"

text \<open>The \<open>k\<close> with \<open>10 ^ (k - 1) \<le> num / den < 10 ^ k\<close>; a double below 1 has at most 324 leading zeros.\<close>

fun decimal_scale :: "nat \<Rightarrow> int \<Rightarrow> int \<Rightarrow> int" where
  "decimal_scale 0 num den = 0"
| "decimal_scale (Suc fuel) num den =
     (if den \<le> num then int (length (show_int (num div den))) else decimal_scale fuel (num * 10) den - 1)"

text \<open>
  With \<open>n\<close> significant digits the decimals around the value are \<open>d\<close> and \<open>d + 1\<close> units; the one that
  parses back is taken, the closer one if both do.
\<close>

definition shortest_with :: "u64 \<Rightarrow> int \<times> int \<Rightarrow> int \<Rightarrow> nat \<Rightarrow> (int \<times> int) option" where
  "shortest_with bits v k n =
     (let u = k - int n;
          (a, b) = (if 0 \<le> u then (fst v, snd v * 10 ^ nat u) else (fst v * 10 ^ nat (- u), snd v));
          d = a div b;
          ok = (\<lambda>m. f64_of_decimal m u = bits)
      in if ok d \<and> (2 * (a mod b) \<le> b \<or> \<not> ok (d + 1)) then Some (d, u)
         else if ok (d + 1) then Some (d + 1, u)
         else None)"

fun shortest_from :: "nat \<Rightarrow> u64 \<Rightarrow> int \<times> int \<Rightarrow> int \<Rightarrow> nat \<Rightarrow> int \<times> int" where
  "shortest_from 0 bits v k n = (0, 0)"
| "shortest_from (Suc fuel) bits v k n =
     (case shortest_with bits v k n of Some r \<Rightarrow> r | None \<Rightarrow> shortest_from fuel bits v k (Suc n))"

text \<open>Seventeen digits always identify a double.\<close>

definition shortest :: "u64 \<Rightarrow> int \<times> int" where
  "shortest bits =
     (let v = f64_ratio bits in shortest_from 17 bits v (decimal_scale 326 (fst v) (snd v)) 1)"

definition show_decimal :: "int \<Rightarrow> int \<Rightarrow> string" where
  "show_decimal d u =
     (if 0 \<le> u then show_int d @ replicate (nat u) CHR ''0''
      else
        let ds = show_int d; ds = replicate (Suc (nat (- u)) - length ds) CHR ''0'' @ ds;
            p = length ds - nat (- u)
        in take p ds @ ''.'' @ drop p ds)"

definition show_f64 :: "u64 \<Rightarrow> string" where
  "show_f64 bits =
     (let neg = (f64_sign \<le> bits); b = and bits 0x7FFFFFFFFFFFFFFF
      in if f64_inf < b then ''NaN''
         else (if neg then ''-'' else []) @
           (if b = f64_inf then ''inf''
            else if b = 0 then ''0''
            else (case shortest b of (d, u) \<Rightarrow> show_decimal d u)))"

end
