(* ===== verification/Query_Parse.thy ===== *)
theory Query_Parse
  imports Rust_Float Values
begin

text \<open>
  The query language (\<open>crates/alefs-query\<close>): the syntax tree of \<open>ast.rs\<close> and the tokenizer and
  recursive-descent parser of \<open>parse.rs\<close>.  The tokenizer's position in the input and the parser's
  position in the tokens are the rest of the list.  A parse error keeps the token that its message
  prints with \<open>{:?}\<close>.  The recursion through parentheses and the loop over \<open>AND\<close> and \<open>OR\<close> take fuel;
  \<open>None\<close> means that it ran out.
\<close>

section \<open>Syntax tree\<close>

datatype CmpOp = Eq | Ne | Lt | Le | Gt | Ge

datatype Predicate =
    PathGlob string
  | TypeName string
  | NameGlob string
  | ValueCmp CmpOp Scalar
  | HasKey string
  | Contains Value
  | AtIndex u64 CmpOp Scalar
  | KeyCmp CmpOp Scalar
  | SizeCmp CmpOp i64

datatype Expr =
    And Expr Expr
  | Or Expr Expr
  | Not Expr
  | Pred Predicate

section \<open>Tokens\<close>

datatype Tok =
    TIdent string
  | TString string
  | TInt i64
  | TFloat f64
  | TOp string
  | LParen
  | RParen

datatype ParseError =
    UnexpectedToken "Tok option"
  | ExpectedCloseParen
  | ExpectedPredicate "Tok option"
  | UnknownPredicate string
  | ExpectedScalar "Tok option"
  | BadCmp string
  | ExpectedComparator "Tok option"
  | ExpectedString "Tok option"
  | ExpectedPath "Tok option"
  | ExpectedInt "Tok option"
  | NegativeIndex
  | UnterminatedString
  | BadFloat string
  | BadInt string
  | UnexpectedChar rchar

text \<open>\<open>Display\<close> of the error; \<open>dbg\<close> is the derived \<open>Debug\<close> output of \<open>Option<Tok>\<close>.\<close>

fun parse_error_message :: "(Tok option \<Rightarrow> string) \<Rightarrow> ParseError \<Rightarrow> string" where
  "parse_error_message dbg (UnexpectedToken t) = ''unexpected token '' @ dbg t"
| "parse_error_message dbg ExpectedCloseParen = ''expected )''"
| "parse_error_message dbg (ExpectedPredicate t) = ''expected predicate, got '' @ dbg t"
| "parse_error_message dbg (UnknownPredicate s) = ''unknown predicate '' @ s"
| "parse_error_message dbg (ExpectedScalar t) = ''expected scalar, got '' @ dbg t"
| "parse_error_message dbg (BadCmp s) = ''bad cmp '' @ s"
| "parse_error_message dbg (ExpectedComparator t) = ''expected comparator, got '' @ dbg t"
| "parse_error_message dbg (ExpectedString t) = ''expected string, got '' @ dbg t"
| "parse_error_message dbg (ExpectedPath t) = ''expected path, got '' @ dbg t"
| "parse_error_message dbg (ExpectedInt t) = ''expected int, got '' @ dbg t"
| "parse_error_message dbg NegativeIndex = ''index must be >= 0''"
| "parse_error_message dbg UnterminatedString = ''unterminated string''"
| "parse_error_message dbg (BadFloat s) = ''bad float '' @ s"
| "parse_error_message dbg (BadInt s) = ''bad int '' @ s"
| "parse_error_message dbg (UnexpectedChar c) = ''unexpected char '' @ c"

definition show_parse_error :: "(Tok option \<Rightarrow> string) \<Rightarrow> ParseError \<Rightarrow> string" where
  "show_parse_error dbg e = ''parse error: '' @ parse_error_message dbg e"

section \<open>Tokenizer\<close>

text \<open>The loop over a quoted string: its contents and the input after the closing quote.\<close>

fun string_loop :: "rchar list \<Rightarrow> string \<Rightarrow> (string \<times> rchar list) option" where
  "string_loop [] s = None"
| "string_loop (c # cs) s =
     (if c = quote then Some (s, cs)
      else if c = backslash then
        (case cs of [] \<Rightarrow> string_loop [] (s @ c) | d # ds \<Rightarrow> string_loop ds (s @ d))
      else string_loop cs (s @ c))"

definition lex_string :: "rchar list \<Rightarrow> ParseError + (Tok \<times> rchar list)" where
  "lex_string cs =
     (case string_loop cs [] of
        None \<Rightarrow> Inl UnterminatedString
      | Some (s, rest) \<Rightarrow> Inr (TString s, rest))"

definition lex_op :: "rchar \<Rightarrow> rchar list \<Rightarrow> Tok \<times> rchar list" where
  "lex_op c cs = (if cs \<noteq> [] \<and> hd cs = ''='' then (TOp (c @ ''=''), tl cs) else (TOp c, cs))"

definition path_char :: "rchar \<Rightarrow> bool" where
  "path_char c \<longleftrightarrow> \<not> (is_ascii_whitespace c \<or> c = ''('' \<or> c = '')'')"

definition lex_path :: "rchar list \<Rightarrow> Tok \<times> rchar list" where
  "lex_path cs = (TIdent (concat (takeWhile path_char cs)), dropWhile path_char cs)"

definition lex_number :: "rchar list \<Rightarrow> ParseError + (Tok \<times> rchar list)" where
  "lex_number cs =
     (let sign = (if hd cs = ''-'' then [''-''] else []); r = drop (length sign) cs;
          ds = takeWhile is_ascii_digit r; r = dropWhile is_ascii_digit r
      in if r \<noteq> [] \<and> hd r = ''.'' then
           let fs = takeWhile is_ascii_digit (tl r); text = concat (sign @ ds @ [''.''] @ fs)
           in map_sum (\<lambda>_. BadFloat text) (\<lambda>f. (TFloat f, dropWhile is_ascii_digit (tl r))) (parse_f64 text)
         else
           let text = concat (sign @ ds)
           in map_sum (\<lambda>_. BadInt text) (\<lambda>n. (TInt n, r)) (parse_i64 text))"

definition ident_start :: "rchar \<Rightarrow> bool" where
  "ident_start c \<longleftrightarrow> is_ascii_alphabetic c \<or> c = ''_'' \<or> c = ''*'' \<or> c = ''?''"

definition ident_char :: "rchar \<Rightarrow> bool" where
  "ident_char c \<longleftrightarrow> is_ascii_alphanumeric c \<or> c = ''_'' \<or> c = ''*'' \<or> c = ''?'' \<or> c = ''.'' \<or> c = ''-''"

definition lex_ident :: "rchar list \<Rightarrow> Tok \<times> rchar list" where
  "lex_ident cs = (TIdent (concat (takeWhile ident_char cs)), dropWhile ident_char cs)"

text \<open>The \<open>match\<close> on a character that is not white space: one token and the input after it.\<close>

definition lex_token :: "rchar \<Rightarrow> rchar list \<Rightarrow> ParseError + (Tok \<times> rchar list)" where
  "lex_token c cs =
     (if c = ''('' then Inr (LParen, cs)
      else if c = '')'' then Inr (RParen, cs)
      else if c = quote then lex_string cs
      else if c = ''='' \<or> c = ''!'' \<or> c = ''<'' \<or> c = ''>'' then Inr (lex_op c cs)
      else if c = ''/'' then Inr (lex_path (c # cs))
      else if c = ''-'' \<or> is_ascii_digit c then lex_number (c # cs)
      else if ident_start c then Inr (lex_ident (c # cs))
      else Inl (UnexpectedChar c))"

lemma string_loop_le: "string_loop cs s = Some (t, r) \<Longrightarrow> length r < length cs"
  by (induction cs s rule: string_loop.induct) (auto split: if_splits list.splits)

lemma dropWhile_le: "length (dropWhile P xs) \<le> length xs"
  by (induction xs) auto

lemma lex_number_le:
  assumes "lex_number (c # cs) = Inr (t, r)" and "c = ''-'' \<or> is_ascii_digit c"
  shows "length r \<le> length cs"
proof -
  let ?r = "drop (length (if c = ''-'' then [''-''] else [])) (c # cs)"
  have d: "length (dropWhile is_ascii_digit ?r) \<le> length cs"
    using assms(2) dropWhile_le [of is_ascii_digit cs] by auto
  moreover have "length (dropWhile is_ascii_digit (tl xs)) \<le> length xs" for xs
    using dropWhile_le [of is_ascii_digit "tl xs"] by (cases xs) auto
  ultimately show ?thesis
    using assms(1) by (auto simp: lex_number_def Let_def map_sum_def split: if_splits sum.splits intro: order_trans)
qed

lemma lex_token_le: "lex_token c cs = Inr (t, r) \<Longrightarrow> length r \<le> length cs"
  using dropWhile_le [of path_char cs] dropWhile_le [of ident_char cs] lex_number_le [of c cs t r]
  by (auto simp: lex_token_def lex_string_def lex_op_def lex_path_def lex_ident_def path_char_def
      ident_start_def ident_char_def is_ascii_alphanumeric_def
      dest!: string_loop_le split: if_splits option.splits)

function tokenize_loop :: "rchar list \<Rightarrow> Tok list \<Rightarrow> ParseError + Tok list" where
  "tokenize_loop [] tokens = Inr tokens"
| "tokenize_loop (c # cs) tokens =
     (if is_ascii_whitespace c then tokenize_loop cs tokens
      else
        case lex_token c cs of
          Inl e \<Rightarrow> Inl e
        | Inr (t, rest) \<Rightarrow> tokenize_loop rest (tokens @ [t]))"
  by pat_completeness auto
termination
  by (relation "measure (\<lambda>(cs, _). length cs)") (auto dest: lex_token_le)

definition tokenize :: "string \<Rightarrow> ParseError + Tok list" where
  "tokenize input = tokenize_loop (chars input) []"

section \<open>Parser\<close>

type_synonym 'a parser = "Tok list \<Rightarrow> ParseError + ('a \<times> Tok list)"

fun bump :: "Tok list \<Rightarrow> Tok option \<times> Tok list" where
  "bump [] = (None, [])"
| "bump (t # ts) = (Some t, ts)"

definition peek :: "Tok list \<Rightarrow> Tok option" where
  "peek ts = fst (bump ts)"

definition expect_string_like :: "string parser" where
  "expect_string_like ts =
     (case bump ts of
        (Some (TString s), ts) \<Rightarrow> Inr (s, ts)
      | (Some (TIdent s), ts) \<Rightarrow> Inr (s, ts)
      | (t, ts) \<Rightarrow> Inl (ExpectedString t))"

definition expect_ident_or_string :: "string parser" where
  "expect_ident_or_string = expect_string_like"

definition expect_path_or_string :: "string parser" where
  "expect_path_or_string ts =
     (case bump ts of
        (Some (TString s), ts) \<Rightarrow> Inr (s, ts)
      | (Some (TIdent s), ts) \<Rightarrow> Inr (s, ts)
      | (Some (TOp s), ts) \<Rightarrow>
          if s \<noteq> [] \<and> hd s = CHR ''/'' then Inr (s, ts) else Inl (ExpectedPath (Some (TOp s)))
      | (t, ts) \<Rightarrow> Inl (ExpectedPath t))"

definition expect_cmp :: "CmpOp parser" where
  "expect_cmp ts =
     (case bump ts of
        (Some (TOp s), ts) \<Rightarrow>
          if s = ''='' then Inr (Eq, ts)
          else if s = ''!='' then Inr (Ne, ts)
          else if s = ''<'' then Inr (Lt, ts)
          else if s = ''<='' then Inr (Le, ts)
          else if s = ''>'' then Inr (Gt, ts)
          else if s = ''>='' then Inr (Ge, ts)
          else Inl (BadCmp s)
      | (t, ts) \<Rightarrow> Inl (ExpectedComparator t))"

definition expect_int :: "i64 parser" where
  "expect_int ts =
     (case bump ts of
        (Some (TInt n), ts) \<Rightarrow> Inr (n, ts)
      | (t, ts) \<Rightarrow> Inl (ExpectedInt t))"

definition expect_uint :: "u64 parser" where
  "expect_uint ts =
     and_then (expect_int ts) (\<lambda>(n, ts). if n <s 0 then Inl NegativeIndex else Inr (n, ts))"

definition parse_scalar_value :: "Scalar parser" where
  "parse_scalar_value ts =
     (case bump ts of
        (Some (TString s), ts) \<Rightarrow> Inr (String s, ts)
      | (Some (TInt n), ts) \<Rightarrow> Inr (IntV n, ts)
      | (Some (TFloat f), ts) \<Rightarrow> Inr (from_f64 f, ts)
      | (Some (TIdent s), ts) \<Rightarrow>
          if s = ''null'' then Inr (Null, ts)
          else if s = ''true'' then Inr (Bool True, ts)
          else if s = ''false'' then Inr (Bool False, ts)
          else Inr (String s, ts)
      | (t, ts) \<Rightarrow> Inl (ExpectedScalar t))"

definition parse_cmp_scalar :: "(CmpOp \<times> Scalar) parser" where
  "parse_cmp_scalar ts =
     and_then (expect_cmp ts) (\<lambda>(op, ts).
     and_then (parse_scalar_value ts) (\<lambda>(s, ts). Inr ((op, s), ts)))"

definition parse_predicate :: "Predicate parser" where
  "parse_predicate ts =
     (case bump ts of
        (Some (TIdent name), ts) \<Rightarrow>
          if name = ''path'' then and_then (expect_path_or_string ts) (\<lambda>(g, ts). Inr (PathGlob g, ts))
          else if name = ''type'' then and_then (expect_ident_or_string ts) (\<lambda>(t, ts). Inr (TypeName t, ts))
          else if name = ''name'' then and_then (expect_string_like ts) (\<lambda>(g, ts). Inr (NameGlob g, ts))
          else if name = ''value'' then and_then (parse_cmp_scalar ts) (\<lambda>((op, s), ts). Inr (ValueCmp op s, ts))
          else if name = ''has'' then and_then (expect_string_like ts) (\<lambda>(k, ts). Inr (HasKey k, ts))
          else if name = ''contains'' then
            and_then (parse_scalar_value ts) (\<lambda>(s, ts). Inr (Contains (Scalar s), ts))
          else if name = ''at'' then
            and_then (expect_uint ts) (\<lambda>(idx, ts).
            and_then (parse_cmp_scalar ts) (\<lambda>((op, s), ts). Inr (AtIndex idx op s, ts)))
          else if name = ''key'' then and_then (parse_cmp_scalar ts) (\<lambda>((op, s), ts). Inr (KeyCmp op s, ts))
          else if name = ''size'' then
            and_then (expect_cmp ts) (\<lambda>(op, ts).
            and_then (expect_int ts) (\<lambda>(n, ts). Inr (SizeCmp op n, ts)))
          else Inl (UnknownPredicate name)
      | (other, ts) \<Rightarrow> Inl (ExpectedPredicate other))"

text \<open>The three mutually recursive functions; \<open>pe\<close> is the call of \<open>parse_expr\<close> for a parenthesis.\<close>

definition parse_primary :: "(Tok list \<Rightarrow> (ParseError + (Expr \<times> Tok list)) option) \<Rightarrow> Tok list
    \<Rightarrow> (ParseError + (Expr \<times> Tok list)) option" where
  "parse_primary pe ts =
     (if peek ts = Some LParen then
        map_option (\<lambda>r. and_then r (\<lambda>(e, ts).
          case bump ts of
            (Some RParen, ts) \<Rightarrow> Inr (e, ts)
          | _ \<Rightarrow> Inl ExpectedCloseParen)) (pe (snd (bump ts)))
      else Some (and_then (parse_predicate ts) (\<lambda>(p, ts). Inr (Pred p, ts))))"

definition parse_term :: "(Tok list \<Rightarrow> (ParseError + (Expr \<times> Tok list)) option) \<Rightarrow> Tok list
    \<Rightarrow> (ParseError + (Expr \<times> Tok list)) option" where
  "parse_term pe ts =
     (if peek ts = Some (TIdent ''NOT'') then
        map_option (\<lambda>r. and_then r (\<lambda>(e, ts). Inr (Not e, ts))) (parse_primary pe (snd (bump ts)))
      else parse_primary pe ts)"

definition chain_op :: "Tok option \<Rightarrow> (Expr \<Rightarrow> Expr \<Rightarrow> Expr) option" where
  "chain_op t =
     (if t = Some (TIdent ''AND'') then Some And else if t = Some (TIdent ''OR'') then Some Or else None)"

text \<open>The \<open>while let\<close> loop of \<open>parse_expr\<close>; \<open>pt\<close> is the call of \<open>parse_term\<close>.\<close>

fun expr_loop :: "nat \<Rightarrow> (Tok list \<Rightarrow> (ParseError + (Expr \<times> Tok list)) option) \<Rightarrow> Expr \<Rightarrow> Tok list
    \<Rightarrow> (ParseError + (Expr \<times> Tok list)) option" where
  "expr_loop 0 pt left ts = None"
| "expr_loop (Suc fuel) pt left ts =
     (case chain_op (peek ts) of
        None \<Rightarrow> Some (Inr (left, ts))
      | Some mk \<Rightarrow>
          (case pt (snd (bump ts)) of
             None \<Rightarrow> None
           | Some (Inl e) \<Rightarrow> Some (Inl e)
           | Some (Inr (right, ts)) \<Rightarrow> expr_loop fuel pt (mk left right) ts))"

fun parse_expr :: "nat \<Rightarrow> Tok list \<Rightarrow> (ParseError + (Expr \<times> Tok list)) option" where
  "parse_expr 0 ts = None"
| "parse_expr (Suc fuel) ts =
     (case parse_term (parse_expr fuel) ts of
        None \<Rightarrow> None
      | Some (Inl e) \<Rightarrow> Some (Inl e)
      | Some (Inr (left, ts)) \<Rightarrow> expr_loop (Suc fuel) (parse_term (parse_expr fuel)) left ts)"

definition parse_query :: "nat \<Rightarrow> string \<Rightarrow> (ParseError + Expr) option" where
  "parse_query fuel input =
     (case tokenize input of
        Inl e \<Rightarrow> Some (Inl e)
      | Inr tokens \<Rightarrow>
          map_option (\<lambda>r. and_then r (\<lambda>(expr, ts).
            if peek ts \<noteq> None then Inl (UnexpectedToken (peek ts)) else Inr expr)) (parse_expr fuel tokens))"

end
