(* ===== verification/Query_Eval.thy ===== *)
theory Query_Eval
  imports Query_Parse Namespace
begin

text \<open>
  Evaluation of queries (\<open>crates/alefs-query/src/eval.rs\<close>): the predicates on a node, the choice
  between the type index and a walk over the whole tree, and \<open>execute\<close>.
\<close>

datatype EvalError = EvParse ParseError | EvNs string

fun show_eval_error :: "(Tok option \<Rightarrow> string) \<Rightarrow> EvalError \<Rightarrow> string" where
  "show_eval_error dbg (EvParse e) = show_parse_error dbg e"
| "show_eval_error dbg (EvNs e) = e"

record QueryHit =
  hit_path :: DbPath
  hit_type :: string

type_synonym candidate = "DbPath \<times> EntryKind \<times> Value option"

section \<open>Globs\<close>

fun glob_rec :: "rchar list \<Rightarrow> rchar list \<Rightarrow> bool" where
  "glob_rec [] t = (t = [])"
| "glob_rec (c # p) t =
     (if c = ''*'' then list_ex (\<lambda>i. glob_rec p (drop i t)) [0..<Suc (length t)]
      else if c = ''?'' then t \<noteq> [] \<and> glob_rec p (tl t)
      else t \<noteq> [] \<and> hd t = c \<and> glob_rec p (tl t))"

definition glob_match :: "string \<Rightarrow> string \<Rightarrow> bool" where
  "glob_match pattern text = glob_rec (chars pattern) (chars text)"

fun match_segments :: "string list \<Rightarrow> string list \<Rightarrow> bool" where
  "match_segments [] path = (path = [])"
| "match_segments (g # pat) path =
     (if g = ''**'' then
        (if pat = [] then True
         else list_ex (\<lambda>i. match_segments pat (drop i path)) [0..<Suc (length path)])
      else if path = [] then False
      else if glob_match g (hd path) then match_segments pat (tl path)
      else False)"

definition path_glob_match :: "string \<Rightarrow> string \<Rightarrow> bool" where
  "path_glob_match pattern path =
     (if pattern = ''/**'' \<or> pattern = ''**'' then True
      else
        let parts = filter (\<lambda>s. s \<noteq> []) (split_on slash pattern);
            path_parts = filter (\<lambda>s. s \<noteq> []) (split_on slash path)
        in match_segments parts path_parts)"

section \<open>Predicates\<close>

definition cmp_with :: "CmpOp \<Rightarrow> 'a::linorder \<Rightarrow> 'a \<Rightarrow> bool" where
  "cmp_with op a b =
     (case op of Eq \<Rightarrow> a = b | Ne \<Rightarrow> a \<noteq> b | Lt \<Rightarrow> a < b | Le \<Rightarrow> a \<le> b | Gt \<Rightarrow> a > b | Ge \<Rightarrow> a \<ge> b)"

definition cmp_scalar :: "CmpOp \<Rightarrow> Scalar \<Rightarrow> Scalar \<Rightarrow> bool" where
  "cmp_scalar op a b = cmp_with op a b"

definition cmp_i64 :: "CmpOp \<Rightarrow> i64 \<Rightarrow> i64 \<Rightarrow> bool" where
  "cmp_i64 op a b = cmp_with op (sint a) (sint b)"

fun type_label :: "Value \<Rightarrow> string" where
  "type_label (Scalar Null) = ''null''"
| "type_label (Scalar (Bool _)) = ''bool''"
| "type_label (Scalar (IntV _)) = ''int''"
| "type_label (Scalar (Float _)) = ''float''"
| "type_label (Scalar (String _)) = ''string''"
| "type_label (Scalar (Bytes _)) = ''bytes''"
| "type_label (Hash _) = ''hash''"
| "type_label (Set _) = ''set''"
| "type_label (List _) = ''list''"
| "type_label (Tree _) = ''tree''"

fun is_scalar :: "Value \<Rightarrow> bool" where
  "is_scalar (Scalar _) = True" | "is_scalar _ = False"

definition type_matches :: "string \<Rightarrow> Value \<Rightarrow> bool" where
  "type_matches t v = (if t = ''scalar'' then is_scalar v else type_label v = t)"

definition has_key :: "string \<Rightarrow> Value \<Rightarrow> bool" where
  "has_key k v =
     (case v of
        Hash m \<Rightarrow> bt_get m k \<noteq> None
      | Tree m \<Rightarrow>
          bt_get m (String k) \<noteq> None
          \<or> (case parse_i64 k of Inr n \<Rightarrow> bt_get m (IntV n) \<noteq> None | Inl _ \<Rightarrow> False)
      | _ \<Rightarrow> False)"

definition contains_value :: "Value \<Rightarrow> Value \<Rightarrow> bool" where
  "contains_value needle v =
     (case v of
        Set members \<Rightarrow> list_ex (\<lambda>m. m = needle) members
      | List items \<Rightarrow> list_ex (\<lambda>m. m = needle) items
      | Hash m \<Rightarrow> list_ex (\<lambda>(_, m). m = needle) m
      | Tree m \<Rightarrow> list_ex (\<lambda>(_, m). m = needle) m
      | _ \<Rightarrow> False)"

fun value_size :: "Value \<Rightarrow> i64 option" where
  "value_size (Hash m) = Some (word_of_nat (length m))"
| "value_size (Set m) = Some (word_of_nat (length m))"
| "value_size (List m) = Some (word_of_nat (length m))"
| "value_size (Tree m) = Some (word_of_nat (length m))"
| "value_size (Scalar (String s)) = Some (word_of_nat (length s))"
| "value_size (Scalar (Bytes b)) = Some (word_of_nat (length b))"
| "value_size _ = None"

fun eval_pred :: "Predicate \<Rightarrow> DbPath \<Rightarrow> EntryKind \<Rightarrow> Value option \<Rightarrow> bool" where
  "eval_pred (PathGlob g) path kind val = path_glob_match g (as_str path)"
| "eval_pred (NameGlob g) path kind val =
     glob_match g (if segments path = [] then [] else last (segments path))"
| "eval_pred (TypeName t) path kind val =
     (case (kind, val) of
        (EntryValue, Some v) \<Rightarrow> type_matches t v
      | _ \<Rightarrow>
          if t = ''scalar'' then (case val of Some v \<Rightarrow> is_scalar v | None \<Rightarrow> False)
          else (if kind = Directory then ''directory'' else ''value'') = t)"
| "eval_pred (ValueCmp op s) path kind val =
     (case val of Some (Scalar sv) \<Rightarrow> cmp_scalar op sv s | _ \<Rightarrow> False)"
| "eval_pred (HasKey k) path kind val = (case val of Some v \<Rightarrow> has_key k v | None \<Rightarrow> False)"
| "eval_pred (Contains needle) path kind val = (case val of Some v \<Rightarrow> contains_value needle v | None \<Rightarrow> False)"
| "eval_pred (AtIndex idx op s) path kind val =
     (case val of
        Some (List items) \<Rightarrow>
          if unat idx < length items then
            (case items ! unat idx of Scalar sv \<Rightarrow> cmp_scalar op sv s | _ \<Rightarrow> False)
          else False
      | _ \<Rightarrow> False)"
| "eval_pred (KeyCmp op s) path kind val =
     (case val of Some (Tree m) \<Rightarrow> list_ex (\<lambda>(k, _). cmp_scalar op k s) m | _ \<Rightarrow> False)"
| "eval_pred (SizeCmp op n) path kind val =
     (if kind = Directory then False
      else (case val of
              Some v \<Rightarrow> (case value_size v of Some len \<Rightarrow> cmp_i64 op len n | None \<Rightarrow> False)
            | None \<Rightarrow> False))"

fun eval_expr :: "Expr \<Rightarrow> DbPath \<Rightarrow> EntryKind \<Rightarrow> Value option \<Rightarrow> bool" where
  "eval_expr (And a b) path kind val = (eval_expr a path kind val \<and> eval_expr b path kind val)"
| "eval_expr (Or a b) path kind val = (eval_expr a path kind val \<or> eval_expr b path kind val)"
| "eval_expr (Not a) path kind val = (\<not> eval_expr a path kind val)"
| "eval_expr (Pred p) path kind val = eval_pred p path kind val"

section \<open>Candidates and execution\<close>

fun required_concrete_type :: "Expr \<Rightarrow> string option" where
  "required_concrete_type (Pred p) =
     (case p of TypeName t \<Rightarrow> if t \<noteq> ''scalar'' then Some t else None | _ \<Rightarrow> None)"
| "required_concrete_type (And a b) =
     (case (required_concrete_type a, required_concrete_type b) of
        (Some t, None) \<Rightarrow> Some t
      | (None, Some t) \<Rightarrow> Some t
      | (Some t1, Some t2) \<Rightarrow> if t1 = t2 then Some t1 else None
      | _ \<Rightarrow> None)"
| "required_concrete_type _ = None"

fun query_walk :: "nat \<Rightarrow> 's Storage \<Rightarrow> 's \<Rightarrow> DbPath \<Rightarrow> candidate list \<Rightarrow> (NsError + candidate list) option" where
  "query_walk 0 S s path out = None"
| "query_walk (Suc fuel) S s path out =
     (case db_get S s path of
        Inl e \<Rightarrow> Some (Inl e)
      | Inr entry \<Rightarrow>
          let out = out @ [(path, e_kind entry, e_value entry)] in
          if e_kind entry = Directory then
            (case db_list S s path of
               Inl e \<Rightarrow> Some (Inl e)
             | Inr names \<Rightarrow> walk_children (query_walk fuel S s) path names out)
          else Some (Inr out))"

definition all_entries :: "nat \<Rightarrow> 's Storage \<Rightarrow> 's \<Rightarrow> (NsError + candidate list) option" where
  "all_entries fuel S s = query_walk fuel S s path_root []"

definition candidates_for :: "nat \<Rightarrow> 's Storage \<Rightarrow> 's \<Rightarrow> Expr \<Rightarrow> (NsError + candidate list) option" where
  "candidates_for fuel S s expr =
     (case required_concrete_type expr of
        Some ty \<Rightarrow>
          Some (and_then (paths_with_type S s ty) (\<lambda>paths.
            try_map (\<lambda>path. and_then (db_get S s path) (\<lambda>entry.
              Inr (path, e_kind entry, e_value entry))) paths))
      | None \<Rightarrow> all_entries fuel S s)"

definition hit_label :: "EntryKind \<Rightarrow> Value option \<Rightarrow> string" where
  "hit_label kind val =
     (case kind of
        Directory \<Rightarrow> ''directory''
      | EntryValue \<Rightarrow> (case val of Some v \<Rightarrow> type_label v | None \<Rightarrow> ''value''))"

definition hits_of :: "Expr \<Rightarrow> candidate list \<Rightarrow> QueryHit list" where
  "hits_of expr candidates =
     map (\<lambda>(path, kind, val). \<lparr>hit_path = path, hit_type = hit_label kind val\<rparr>)
       (filter (\<lambda>(path, kind, val). eval_expr expr path kind val) candidates)"

definition execute :: "nat \<Rightarrow> 's Storage \<Rightarrow> 's \<Rightarrow> string \<Rightarrow> (EvalError + QueryHit list) option" where
  "execute fuel S s query =
     (case parse_query fuel query of
        None \<Rightarrow> None
      | Some (Inl e) \<Rightarrow> Some (Inl (EvParse e))
      | Some (Inr expr) \<Rightarrow>
          (case candidates_for fuel S s expr of
             None \<Rightarrow> None
           | Some (Inl e) \<Rightarrow> Some (Inl (EvNs (show_ns_error e)))
           | Some (Inr candidates) \<Rightarrow> Some (Inr (hits_of expr candidates))))"

end
