(* ===== verification/Query_Print.thy ===== *)
theory Query_Print
  imports Query_Syntax
begin

text \<open>
  A printer for the syntax tree, fully parenthesised, and the proof that the parser reads its output
  back.  Byte strings have no literal and floats are left out; everything else can be written.
\<close>

section \<open>Printing to tokens\<close>

fun cmp_text :: "CmpOp \<Rightarrow> string" where
  "cmp_text Eq = ''=''" | "cmp_text Ne = ''!=''" | "cmp_text Lt = ''<''"
| "cmp_text Le = ''<=''" | "cmp_text Gt = ''>''" | "cmp_text Ge = ''>=''"

fun scalar_tok :: "Scalar \<Rightarrow> Tok" where
  "scalar_tok Null = TIdent ''null''"
| "scalar_tok (Bool b) = TIdent (if b then ''true'' else ''false'')"
| "scalar_tok (IntV n) = TInt n"
| "scalar_tok (Float f) = TFloat f"
| "scalar_tok (String s) = TString s"
| "scalar_tok (Bytes b) = TString []"

fun writable_scalar :: "Scalar \<Rightarrow> bool" where
  "writable_scalar (String s) = utf8_string s"
| "writable_scalar (Float f) = False"
| "writable_scalar (Bytes b) = False"
| "writable_scalar _ = True"

fun value_scalar :: "Value \<Rightarrow> Scalar" where
  "value_scalar (Scalar s) = s" | "value_scalar _ = Bytes []"

fun pred_toks :: "Predicate \<Rightarrow> Tok list" where
  "pred_toks (PathGlob g) = [TIdent ''path'', TString g]"
| "pred_toks (TypeName t) = [TIdent ''type'', TString t]"
| "pred_toks (NameGlob g) = [TIdent ''name'', TString g]"
| "pred_toks (ValueCmp op s) = [TIdent ''value'', TOp (cmp_text op), scalar_tok s]"
| "pred_toks (HasKey k) = [TIdent ''has'', TString k]"
| "pred_toks (Contains v) = [TIdent ''contains'', scalar_tok (value_scalar v)]"
| "pred_toks (AtIndex i op s) = [TIdent ''at'', TInt i, TOp (cmp_text op), scalar_tok s]"
| "pred_toks (KeyCmp op s) = [TIdent ''key'', TOp (cmp_text op), scalar_tok s]"
| "pred_toks (SizeCmp op n) = [TIdent ''size'', TOp (cmp_text op), TInt n]"

fun writable_pred :: "Predicate \<Rightarrow> bool" where
  "writable_pred (PathGlob g) = utf8_string g"
| "writable_pred (TypeName t) = utf8_string t"
| "writable_pred (NameGlob g) = utf8_string g"
| "writable_pred (ValueCmp op s) = writable_scalar s"
| "writable_pred (HasKey k) = utf8_string k"
| "writable_pred (Contains v) = (writable_scalar (value_scalar v) \<and> v = Scalar (value_scalar v))"
| "writable_pred (AtIndex i op s) = (\<not> i <s 0 \<and> writable_scalar s)"
| "writable_pred (KeyCmp op s) = writable_scalar s"
| "writable_pred (SizeCmp op n) = True"

fun expr_toks :: "Expr \<Rightarrow> Tok list" where
  "expr_toks (And a b) = LParen # expr_toks a @ [RParen, TIdent ''AND'', LParen] @ expr_toks b @ [RParen]"
| "expr_toks (Or a b) = LParen # expr_toks a @ [RParen, TIdent ''OR'', LParen] @ expr_toks b @ [RParen]"
| "expr_toks (Not a) = [TIdent ''NOT'', LParen] @ expr_toks a @ [RParen]"
| "expr_toks (Pred p) = pred_toks p"

fun writable :: "Expr \<Rightarrow> bool" where
  "writable (And a b) = (writable a \<and> writable b)"
| "writable (Or a b) = (writable a \<and> writable b)"
| "writable (Not a) = writable a"
| "writable (Pred p) = writable_pred p"

lemma parse_scalar_tok: "writable_scalar s \<Longrightarrow> parse_scalar_value (scalar_tok s # ts) = Inr (s, ts)"
  by (cases s) (auto simp: parse_scalar_value_def)

lemma expect_cmp_text: "expect_cmp (TOp (cmp_text op) # ts) = Inr (op, ts)"
  by (cases op) (auto simp: expect_cmp_def)

lemma parse_pred_toks: "writable_pred p \<Longrightarrow> parse_predicate (pred_toks p @ ts) = Inr (p, ts)"
  by (cases p) (auto simp: parse_predicate_def expect_path_or_string_def expect_ident_or_string_def
      expect_string_like_def parse_cmp_scalar_def expect_cmp_text parse_scalar_tok expect_uint_def expect_int_def)

lemma parse_paren:
  assumes "\<And>ts. chain_op (peek ts) = None \<Longrightarrow> pe (expr_toks a @ ts) = Some (Inr (a, ts))"
  shows "parse_primary pe (LParen # expr_toks a @ RParen # ts) = Some (Inr (a, ts))"
  using assms [of "RParen # ts"] by (simp add: parse_primary_def peek_def chain_op_def)

lemma parse_term_paren: "parse_term pe (LParen # ts) = parse_primary pe (LParen # ts)"
  by (simp add: parse_term_def peek_def)

lemma peek_pred: "peek (pred_toks p @ ts) \<noteq> Some LParen" "peek (pred_toks p @ ts) \<noteq> Some (TIdent ''NOT'')"
  by (cases p; simp add: peek_def)+

lemma expr_loop_stop: "chain_op (peek ts) = None \<Longrightarrow> 0 < n \<Longrightarrow> expr_loop n pt e ts = Some (Inr (e, ts))"
  by (cases n) auto

lemma chain_op_simps:
  "chain_op (peek (TIdent ''AND'' # ts)) = Some And" "chain_op (peek (TIdent ''OR'' # ts)) = Some Or"
  by (simp_all add: peek_def chain_op_def)

lemma parse_expr_toks:
  "writable e \<Longrightarrow> \<exists>n > 0. \<forall>ts. chain_op (peek ts) = None \<longrightarrow> parse_expr n (expr_toks e @ ts) = Some (Inr (e, ts))"
proof (induction e)
  case (And a b)
  then obtain n m where n: "\<And>ts. chain_op (peek ts) = None \<Longrightarrow> parse_expr n (expr_toks a @ ts) = Some (Inr (a, ts))"
      and m: "\<And>ts. chain_op (peek ts) = None \<Longrightarrow> parse_expr m (expr_toks b @ ts) = Some (Inr (b, ts))"
    by (metis writable.simps(1))
  let ?k = "Suc (max n m)"
  have "parse_primary (parse_expr ?k) (LParen # expr_toks a @ RParen # ts) = Some (Inr (a, ts))"
    and "parse_primary (parse_expr ?k) (LParen # expr_toks b @ RParen # ts) = Some (Inr (b, ts))" for ts
    using parse_expr_mono [OF n, where m = ?k] parse_expr_mono [OF m, where m = ?k] by (auto intro!: parse_paren)
  then have "parse_expr (Suc ?k) (expr_toks (And a b) @ ts) = Some (Inr (And a b, ts))"
    if "chain_op (peek ts) = None" for ts
    using that by (simp add: parse_term_paren chain_op_simps)
  then show ?case by blast
next
  case (Or a b)
  then obtain n m where n: "\<And>ts. chain_op (peek ts) = None \<Longrightarrow> parse_expr n (expr_toks a @ ts) = Some (Inr (a, ts))"
      and m: "\<And>ts. chain_op (peek ts) = None \<Longrightarrow> parse_expr m (expr_toks b @ ts) = Some (Inr (b, ts))"
    by (metis writable.simps(2))
  let ?k = "Suc (max n m)"
  have "parse_primary (parse_expr ?k) (LParen # expr_toks a @ RParen # ts) = Some (Inr (a, ts))"
    and "parse_primary (parse_expr ?k) (LParen # expr_toks b @ RParen # ts) = Some (Inr (b, ts))" for ts
    using parse_expr_mono [OF n, where m = ?k] parse_expr_mono [OF m, where m = ?k] by (auto intro!: parse_paren)
  then have "parse_expr (Suc ?k) (expr_toks (Or a b) @ ts) = Some (Inr (Or a b, ts))"
    if "chain_op (peek ts) = None" for ts
    using that by (simp add: parse_term_paren chain_op_simps)
  then show ?case by blast
next
  case (Not a)
  then obtain n where n: "\<And>ts. chain_op (peek ts) = None \<Longrightarrow> parse_expr n (expr_toks a @ ts) = Some (Inr (a, ts))"
    by (metis writable.simps(3))
  have "parse_expr (Suc n) (expr_toks (Not a) @ ts) = Some (Inr (Not a, ts))" if "chain_op (peek ts) = None" for ts
    using that parse_paren [OF n] by (simp add: parse_term_def peek_def chain_op_def)
  then show ?case by blast
next
  case (Pred p)
  then have "parse_expr (Suc 0) (expr_toks (Pred p) @ ts) = Some (Inr (Pred p, ts))" if "chain_op (peek ts) = None" for ts
    using that peek_pred [of p ts] by (simp add: parse_term_def parse_primary_def parse_pred_toks)
  then show ?case by blast
qed

lemma parse_expr_print:
  assumes "writable e" "length (expr_toks e) < fuel"
  shows "parse_expr fuel (expr_toks e) = Some (Inr (e, []))"
proof -
  have "chain_op (peek []) = None" by (simp add: peek_def chain_op_def)
  then obtain n where n: "parse_expr n (expr_toks e) = Some (Inr (e, []))"
    using parse_expr_toks [OF assms(1)] by (metis append_Nil2)
  obtain r where r: "parse_expr fuel (expr_toks e) = Some r"
    using total_expr [of fuel] assms(2) unfolding total_below_def by blast
  then show ?thesis
    using parse_expr_mono [OF n, of "max n fuel"] parse_expr_mono [OF r, of "max n fuel"] by simp
qed

section \<open>Printing to text\<close>

fun tok_chars :: "Tok \<Rightarrow> rchar list" where
  "tok_chars (TIdent s) = chars s"
| "tok_chars (TString s) = quote # escape (chars s) @ [quote]"
| "tok_chars (TInt n) = chars (show_int (sint n))"
| "tok_chars (TFloat f) = chars (show_f64 f)"
| "tok_chars (TOp s) = chars s"
| "tok_chars LParen = [''('']"
| "tok_chars RParen = ['')'']"

text \<open>Every token followed by a blank.\<close>

definition toks_chars :: "Tok list \<Rightarrow> rchar list" where
  "toks_chars ts = concat (map (\<lambda>t. tok_chars t @ ['' '']) ts)"

definition print_query :: "Expr \<Rightarrow> string" where
  "print_query e = concat (toks_chars (expr_toks e))"

definition is_word :: "string \<Rightarrow> bool" where
  "is_word s \<longleftrightarrow> s \<noteq> [] \<and> list_all (\<lambda>c. is_ascii_alphabetic [c]) s"

fun lexable :: "Tok \<Rightarrow> bool" where
  "lexable (TIdent s) = is_word s"
| "lexable (TString s) = utf8_string s"
| "lexable (TInt n) = True"
| "lexable (TFloat f) = False"
| "lexable (TOp s) = (s \<in> cmp_text ` {Eq, Ne, Lt, Le, Gt, Ge})"
| "lexable LParen = True"
| "lexable RParen = True"

lemma string_loop_escape: "string_loop (escape cs @ quote # rest) s = Some (s @ concat cs, rest)"
  by (induction cs arbitrary: s) auto

lemma alphabetic_ascii: "is_ascii_alphabetic [c] \<Longrightarrow> is_ascii_char c"
  by (auto simp: is_ascii_char_def)

lemma digit_ascii: "is_ascii_digit [c] \<Longrightarrow> is_ascii_char c"
  by (auto simp: is_ascii_char_def)

lemma word_chars: "is_word s \<Longrightarrow> chars s = map (\<lambda>c. [c]) s"
  by (rule chars_ascii) (auto simp: is_word_def list_all_iff intro: alphabetic_ascii)

lemma show_nat_chars: "chars (show_nat n) = map (\<lambda>c. [c]) (show_nat n)"
  by (rule chars_ascii) (auto simp: list_all_iff intro: digit_ascii dest: show_nat_digits)

lemma alphabetic_class:
  "is_ascii_alphabetic [c] \<Longrightarrow> \<not> is_ascii_whitespace [c] \<and> c \<notin> set ''()=!<>/-'' \<and> c \<noteq> CHR 0x22 \<and> \<not> is_ascii_digit [c]"
  by auto

lemma digit_class:
  "is_ascii_digit [c] \<Longrightarrow> \<not> is_ascii_whitespace [c] \<and> c \<notin> set ''()=!<>/-'' \<and> c \<noteq> CHR 0x22"
  by auto

lemma lex_word:
  assumes "is_word s"
  shows "\<exists>c cs. tok_chars (TIdent s) @ '' '' # rest = c # cs \<and> \<not> is_ascii_whitespace c \<and> lex_token c cs = Inr (TIdent s, '' '' # rest)"
proof -
  obtain c u where s: "s = c # u" using assms by (cases s) (auto simp: is_word_def)
  have al: "is_ascii_alphabetic [c]" "list_all (\<lambda>c. is_ascii_alphabetic [c]) s" using assms s by (auto simp: is_word_def)
  have "list_all ident_char (map (\<lambda>c. [c]) s)" using al(2) by (auto simp: list_all_iff ident_char_def is_ascii_alphanumeric_def)
  moreover have "\<not> ident_char '' ''" by (simp add: ident_char_def is_ascii_alphanumeric_def)
  ultimately have "lex_ident (map (\<lambda>c. [c]) s @ '' '' # rest) = (TIdent s, '' '' # rest)"
    by (simp add: lex_ident_def takeWhile_stop)
  then show ?thesis
    using alphabetic_class [OF al(1)] al(1) s word_chars [OF assms]
    by (auto simp: lex_token_def ident_start_def simp del: is_ascii_alphabetic.simps is_ascii_digit.simps is_ascii_whitespace.simps)
qed

lemma lex_int:
  "\<exists>c cs. tok_chars (TInt n) @ '' '' # rest = c # cs \<and> \<not> is_ascii_whitespace c \<and> lex_token c cs = Inr (TInt n, '' '' # rest)"
proof -
  let ?neg = "sint n < 0" and ?ds = "show_nat (nat \<bar>sint n\<bar>)"
  have sh: "show_int (sint n) = (if ?neg then ''-'' else []) @ ?ds" by (simp add: show_int_def)
  have ch: "tok_chars (TInt n) = (if ?neg then [''-''] else []) @ map (\<lambda>c. [c]) ?ds"
    using show_nat_chars by (simp add: sh is_ascii_char_def)
  have all: "list_all is_ascii_digit (map (\<lambda>c. [c]) ?ds)"
    by (auto simp: list_all_iff dest: show_nat_digits simp del: is_ascii_digit.simps)
  have nd: "\<not> is_ascii_digit '' ''" by simp
  obtain d ds where d: "?ds = d # ds" using show_nat_ne [of "nat \<bar>sint n\<bar>"] by (cases "?ds") auto
  have dd: "is_ascii_digit [d]" using hd_show_nat [of "nat \<bar>sint n\<bar>"] d by simp
  note cls = digit_class [OF dd]
  note tw = takeWhile_stop [OF all nd, of rest]
  have tx: "concat ((if ?neg then [''-''] else []) @ map (\<lambda>c. [c]) ?ds) = show_int (sint n)" by (simp add: sh)
  have "lex_number (tok_chars (TInt n) @ '' '' # rest) = Inr (TInt n, '' '' # rest)"
  proof (cases ?neg)
    case True
    then show ?thesis using tw tx unfolding ch lex_number_def by (simp add: Let_def)
  next
    case False
    then have "hd (tok_chars (TInt n) @ '' '' # rest) \<noteq> ''-''" using cls d unfolding ch by auto
    then show ?thesis using False tw tx unfolding ch lex_number_def by (simp add: Let_def hd_append)
  qed
  then show ?thesis
    using cls dd d unfolding ch by (cases ?neg) (auto simp: lex_token_def simp del: is_ascii_digit.simps)
qed

lemma lex_tok:
  assumes "lexable t"
  shows "\<exists>c cs. tok_chars t @ '' '' # rest = c # cs \<and> \<not> is_ascii_whitespace c \<and> lex_token c cs = Inr (t, '' '' # rest)"
proof (cases t)
  case (TString s)
  then show ?thesis
    using string_loop_escape [of "chars s" "'' '' # rest" "[]"] by (simp add: lex_token_def lex_string_def)
next
  case (TOp s)
  then obtain op where s: "t = TOp (cmp_text op)" using assms by (auto simp del: cmp_text.simps)
  have "chars (cmp_text op) = map (\<lambda>c. [c]) (cmp_text op)"
    by (rule chars_ascii) (cases op, simp_all add: is_ascii_char_def)
  then show ?thesis using s by (cases op) (simp_all add: lex_token_def lex_op_def)
qed (use assms lex_word lex_int in \<open>auto simp: lex_token_def simp del: tok_chars.simps(1,3)\<close>)

lemma tokenize_print: "list_all lexable ts \<Longrightarrow> tokenize_loop (toks_chars ts) acc = Inr (acc @ ts)"
proof (induction ts arbitrary: acc)
  case (Cons t ts)
  obtain c cs where "tok_chars t @ '' '' # toks_chars ts = c # cs" "\<not> is_ascii_whitespace c"
      "lex_token c cs = Inr (t, '' '' # toks_chars ts)"
    using lex_tok [of t "toks_chars ts"] Cons.prems by auto
  moreover have "toks_chars (t # ts) = tok_chars t @ '' '' # toks_chars ts" by (simp add: toks_chars_def)
  ultimately show ?case using Cons by simp
qed (simp add: toks_chars_def)

lemma writable_scalar_lexable: "writable_scalar s \<Longrightarrow> lexable (scalar_tok s)"
  by (cases s) (auto simp: is_word_def)

lemma cmp_lexable: "lexable (TOp (cmp_text op))"
  by (cases op) simp_all

lemma writable_lexable: "writable e \<Longrightarrow> list_all lexable (expr_toks e)"
proof (induction e)
  case (Pred p)
  then show ?case
    by (cases p) (auto simp: is_word_def writable_scalar_lexable cmp_lexable simp del: lexable.simps(5))
qed (auto simp: is_word_def)

lemma tok_is_char: "lexable t \<Longrightarrow> list_all is_char (tok_chars t)"
proof (cases t)
  case (TIdent s)
  moreover assume "lexable t"
  ultimately show ?thesis
    by (auto simp: word_chars is_word_def list_all_iff simp del: is_ascii_alphabetic.simps intro!: is_char_ascii alphabetic_ascii)
next
  case (TString s)
  moreover assume "lexable t"
  ultimately show ?thesis by (simp add: escape_is_char chars_is_char is_ascii_char_def)
next
  case (TInt n)
  have "list_all is_ascii_char (show_int (sint n))"
    by (auto simp: show_int_def list_all_iff is_ascii_char_def [of "CHR ''-''"] intro: digit_ascii dest: show_nat_digits)
  then show ?thesis using TInt by (simp add: chars_ascii list_all_iff)
next
  case (TOp s)
  moreover assume "lexable t"
  ultimately have "list_all is_ascii_char s" by (auto simp: is_ascii_char_def)
  then show ?thesis using TOp by (simp add: chars_ascii list_all_iff)
qed (auto simp: is_ascii_char_def)

lemma toks_is_char: "list_all lexable ts \<Longrightarrow> list_all is_char (toks_chars ts)"
  by (induction ts) (auto simp: toks_chars_def tok_is_char is_ascii_char_def)

lemma tokenize_print_query: "writable e \<Longrightarrow> tokenize (print_query e) = Inr (expr_toks e)"
  using writable_lexable [of e]
  by (simp add: tokenize_def print_query_def chars_concat toks_is_char tokenize_print)

lemma length_print_query: "writable e \<Longrightarrow> length (expr_toks e) \<le> length (print_query e)"
  using tokenize_length [OF tokenize_print_query] .

lemma parse_query_fuel:
  assumes "length query < fuel"
  shows "\<exists>r. \<forall>m \<ge> fuel. parse_query m query = Some r"
proof (cases "tokenize query")
  case (Inr ts)
  then have "length ts < fuel" using tokenize_length [OF Inr] assms by simp
  then obtain r where r: "parse_expr fuel ts = Some r" using total_expr [of fuel] unfolding total_below_def by blast
  have "parse_query m query = parse_query fuel query" if "m \<ge> fuel" for m
    using Inr r parse_expr_mono [OF r that] by (simp add: parse_query_def)
  moreover obtain q where "parse_query fuel query = Some q" using parse_query_total [OF assms] by blast
  ultimately have "\<forall>m \<ge> fuel. parse_query m query = Some q" by simp
  then show ?thesis by blast
qed (simp add: parse_query_def)

section \<open>Properties\<close>

text \<open>
  C37. The parser ends on every input: one unit of fuel more than the input has bytes is enough for
  \<open>parse_query\<close> to return an expression or an error, and more fuel gives the same result.
\<close>

theorem parse_query_terminates:
  assumes "length query < fuel"
  shows "\<exists>r. \<forall>m \<ge> fuel. parse_query m query = Some r"
  using parse_query_fuel [OF assms] .

theorem parse_query_terminates_witness:
  "\<exists>r. parse_query 20 ''NOT (type int'' = Some r"
  using parse_query_terminates [of "''NOT (type int''" 20] by auto

text \<open>
  C36. Printing and parsing: for every syntax tree whose strings are UTF-8 and whose literals the
  language can write, \<open>parse_query\<close> of the printed text is exactly that tree.  So quoting and
  escaping, negative numbers, nesting, \<open>NOT\<close> and every predicate are read as they are meant.
\<close>

theorem parse_print_roundtrip:
  assumes "writable e" and "length (print_query e) < fuel"
  shows "parse_query fuel (print_query e) = Some (Inr e)"
proof -
  have "length (expr_toks e) < fuel" using length_print_query [OF assms(1)] assms(2) by simp
  from parse_expr_print [OF assms(1) this] show ?thesis
    by (simp add: parse_query_def tokenize_print_query [OF assms(1)] peek_def)
qed

definition sample_query :: Expr where
  "sample_query = Or (Not (Pred (NameGlob [CHR 0x22, CHR ''a'']))) (And (Pred (ValueCmp Ge (IntV (- 3)))) (Pred (TypeName ''int'')))"

theorem parse_print_roundtrip_witness: "parse_query 100 (print_query sample_query) = Some (Inr sample_query)"
proof (rule parse_print_roundtrip)
  show "writable sample_query" by (simp add: sample_query_def utf8_string_ascii)
  show "length (print_query sample_query) < 100" by code_simp
qed

fun chain_toks :: "(bool \<times> Predicate) list \<Rightarrow> Tok list" where
  "chain_toks [] = []"
| "chain_toks ((c, p) # ps) = TIdent (if c then ''AND'' else ''OR'') # pred_toks p @ chain_toks ps"

definition chain_expr :: "Expr \<Rightarrow> bool \<times> Predicate \<Rightarrow> Expr" where
  "chain_expr e cp = (if fst cp then And e (Pred (snd cp)) else Or e (Pred (snd cp)))"

lemma parse_term_pred: "writable_pred p \<Longrightarrow> parse_term pe (pred_toks p @ ts) = Some (Inr (Pred p, ts))"
  using peek_pred [of p ts] by (simp add: parse_term_def parse_primary_def parse_pred_toks)

lemma expr_loop_chain:
  "list_all (\<lambda>(_, p). writable_pred p) ps \<Longrightarrow> length ps < n \<Longrightarrow>
   expr_loop n (parse_term pe) e (chain_toks ps) = Some (Inr (foldl chain_expr e ps, []))"
proof (induction ps arbitrary: n e)
  case Nil
  then show ?case by (cases n) (simp_all add: peek_def chain_op_def)
next
  case (Cons cp ps)
  obtain c p where cp: "cp = (c, p)" by fastforce
  obtain k where n: "n = Suc k" using Cons.prems(2) by (cases n) auto
  show ?case
    using Cons cp n by (simp add: peek_def chain_op_def parse_term_pred chain_expr_def)
qed

text \<open>
  \<open>AND\<close> and \<open>OR\<close> have equal precedence and associate to the left: a chain of predicates without
  parentheses is read from left to right.
\<close>

theorem chains_associate_left:
  assumes "writable_pred p" and "list_all (\<lambda>(_, q). writable_pred q) ps" and "length ps < fuel"
  shows "parse_expr fuel (pred_toks p @ chain_toks ps) = Some (Inr (foldl chain_expr (Pred p) ps, []))"
proof -
  obtain k where k: "fuel = Suc k" using assms(3) by (cases fuel) auto
  show ?thesis
    using expr_loop_chain [OF assms(2,3), of "parse_expr k" "Pred p"] assms(1)
    by (simp add: k parse_term_pred del: expr_loop.simps)
qed

theorem chains_associate_left_witness:
  "parse_expr 9 [TIdent ''name'', TString ''a'', TIdent ''OR'', TIdent ''name'', TString ''b'', TIdent ''AND'', TIdent ''has'', TString ''k'']
   = Some (Inr (And (Or (Pred (NameGlob ''a'')) (Pred (NameGlob ''b''))) (Pred (HasKey ''k'')), []))"
  using chains_associate_left [of "NameGlob ''a''" "[(False, NameGlob ''b''), (True, HasKey ''k'')]" 9]
  by (simp add: chain_expr_def utf8_string_ascii)

end
