(* ===== verification/Ns_Walk.thy ===== *)
theory Ns_Walk
  imports Ns_Theorems
begin

text \<open>
  Recursive walks over the stored tree.  \<open>Database::walk_rec\<close> and the \<open>walk\<close> of the query evaluator
  differ only in what they collect at a node; both are instances of \<open>walk_with\<close>, which visits
  every node of the tree exactly once.
\<close>

fun walk_with :: "(Entry \<Rightarrow> 'o list) \<Rightarrow> nat \<Rightarrow> 's Storage \<Rightarrow> 's \<Rightarrow> DbPath \<Rightarrow> 'o list \<Rightarrow> (NsError + 'o list) option" where
  "walk_with emit 0 S s path out = None"
| "walk_with emit (Suc fuel) S s path out =
     (case db_get S s path of
        Inl e \<Rightarrow> Some (Inl e)
      | Inr entry \<Rightarrow>
          if e_kind entry = Directory then
            (case db_list S s path of
               Inl e \<Rightarrow> Some (Inl e)
             | Inr names \<Rightarrow> walk_children (walk_with emit fuel S s) path names (out @ emit entry))
          else Some (Inr (out @ emit entry)))"

lemma db_get_entry:
  assumes "db_get S s path = Inr e"
  shows "e_path e = path" "e_kind e = Directory \<longleftrightarrow> e_value e = None"
proof -
  obtain i rec where "resolve S s path = Inr (i, rec)" using assms by (auto simp: db_get_def and_then_Inr_iff)
  then show "e_path e = path" "e_kind e = Directory \<longleftrightarrow> e_value e = None"
    using assms by (cases rec; auto simp: db_get_def and_then_Inr_iff)+
qed

definition emit_value :: "Entry \<Rightarrow> (DbPath \<times> Value) list" where
  "emit_value e = (case e_value e of Some v \<Rightarrow> [(e_path e, v)] | None \<Rightarrow> [])"

lemma emit_Some: "e_value e = Some v \<Longrightarrow> emit_value e = [(e_path e, v)]"
  and emit_None: "e_value e = None \<Longrightarrow> emit_value e = []"
  by (simp_all add: emit_value_def)

lemma walk_rec_with: "walk_rec fuel S s path out = walk_with emit_value fuel S s path out"
proof (induction fuel arbitrary: path out)
  case (Suc fuel)
  then have "walk_rec fuel S s = walk_with emit_value fuel S s" by (intro ext)
  then show ?case
    using db_get_entry [of S s path]
    by (auto simp: emit_Some emit_None split: sum.splits EntryKind.splits option.splits)
qed simp

text \<open>What the tree holds at a path.\<close>

definition node_at :: "ns_tree \<Rightarrow> string list \<Rightarrow> Entry" where
  "node_at t q = spec_entry (DbPath q) (the (t q))"

context storage
begin

lemma walk_children_tree:
  assumes visit: "\<And>x out. x \<in> set xs \<Longrightarrow>
      \<exists>qs. distinct qs \<and> set qs = subtree T (p @ [x]) \<and> visit (DbPath (p @ [x])) out = Some (Inr (out @ concat (map f qs)))"
    and join: "\<And>x. x \<in> set xs \<Longrightarrow> path_join (DbPath p) x = Inr (DbPath (p @ [x]))" and "distinct xs"
  shows "map fst names = xs \<Longrightarrow>
    \<exists>qs. distinct qs \<and> set qs = (\<Union>x \<in> set xs. subtree T (p @ [x]))
       \<and> walk_children visit (DbPath p) names out = Some (Inr (out @ concat (map f qs)))"
  using assms
proof (induction names arbitrary: xs out)
  case (Cons nk names)
  obtain x k where nk: "nk = (x, k)" by fastforce
  then obtain ys where xs: "xs = x # ys" "map fst names = ys" using Cons.prems(1) by auto
  obtain qs where qs: "distinct qs" "set qs = subtree T (p @ [x])"
      "visit (DbPath (p @ [x])) out = Some (Inr (out @ concat (map f qs)))"
    using Cons.prems(2) [of x out] xs by auto
  obtain rs where rs: "distinct rs" "set rs = (\<Union>y \<in> set ys. subtree T (p @ [y]))"
      "walk_children visit (DbPath p) names (out @ concat (map f qs)) = Some (Inr ((out @ concat (map f qs)) @ concat (map f rs)))"
    using Cons.IH [OF xs(2), of "out @ concat (map f qs)"] Cons.prems(2-4) xs(1) by auto
  have "set qs \<inter> set rs = {}"
    using qs(2) rs(2) Cons.prems(4) xs(1) by (auto simp: subtree_def)
  then have "distinct (qs @ rs) \<and> set (qs @ rs) = (\<Union>y \<in> set xs. subtree T (p @ [y]))
      \<and> walk_children visit (DbPath p) (nk # names) out = Some (Inr (out @ concat (map f (qs @ rs))))"
    using qs rs xs(1) nk Cons.prems(3) by simp
  then show ?case by blast
qed auto

lemma walk_with_tree:
  assumes i: "invar s" and T: "ns_rep T n (bt_get (view s))"
  shows "T p \<noteq> None \<Longrightarrow> \<forall>q \<in> subtree T p. length q < length p + fuel \<Longrightarrow>
    \<exists>qs. distinct qs \<and> set qs = subtree T p
      \<and> walk_with emit fuel S s (DbPath p) out = Some (Inr (out @ concat (map (\<lambda>q. emit (node_at (abs_tree T) q)) qs)))"
proof (induction fuel arbitrary: p out)
  case 0
  then show ?case by (auto simp: subtree_def)
next
  case (Suc fuel)
  have tr: "tree_ok T" and st: "stores (abs_tree T) n (bt_get (view s))" and g: "graph_rep T (bt_get (view s))"
    using T ns_rep_parts(1) ns_rep_graph by (auto simp: stores_def)
  obtain k nd where k: "T p = Some (k, nd)" using Suc.prems(1) by auto
  then have a: "abs_tree T p = Some nd" by (auto simp: abs_tree_Some)
  have get: "db_get S s (DbPath p) = Inr (node_at (abs_tree T) p)"
    using a by (simp add: db_get_tree [OF i st] spec_get_def node_at_def)
  note un = subtree_unfold [OF tr Suc.prems(1)]
  show ?case
  proof (cases nd)
    case DirN
    obtain names where l: "db_list S s (DbPath p) = Inr names" "sorted_wrt (<) (map fst names)"
        "\<And>x kd. (x, kd) \<in> set names \<longleftrightarrow> (\<exists>j nd. T (p @ [x]) = Some (j, nd) \<and> kd = node_kind nd)"
      using db_list_graph [OF i g, of "DbPath p" k] k DirN by auto
    have cs: "set (map fst names) = {x. T (p @ [x]) \<noteq> None}" using l(3) by force
    have d: "distinct (map fst names)" using l(2) by (simp add: strict_sorted_iff)
    have join: "path_join (DbPath p) x = Inr (DbPath (p @ [x]))" if h: "x \<in> set (map fst names)" for x
    proof -
      obtain j nd where "T (p @ [x]) = Some (j, nd)" using h cs by auto
      then have "path_ok (p @ [x])" using tree_node [OF tr] by blast
      then show ?thesis by (simp add: path_ok_def wf_path_def wf_segment_def path_join_def)
    qed
    have visit: "\<exists>qs. distinct qs \<and> set qs = subtree T (p @ [x]) \<and> walk_with emit fuel S s (DbPath (p @ [x])) out
        = Some (Inr (out @ concat (map (\<lambda>q. emit (node_at (abs_tree T) q)) qs)))"
      if h: "x \<in> set (map fst names)" for x out
    proof (rule Suc.IH)
      show "T (p @ [x]) \<noteq> None" using h cs by blast
      show "\<forall>q \<in> subtree T (p @ [x]). length q < length (p @ [x]) + fuel"
        using Suc.prems(2) by (auto simp: subtree_def)
    qed
    from walk_children_tree [OF visit join d refl] obtain qs where qs: "distinct qs"
        "set qs = (\<Union>x \<in> set (map fst names). subtree T (p @ [x]))"
        "walk_children (walk_with emit fuel S s) (DbPath p) names (out @ emit (node_at (abs_tree T) p))
         = Some (Inr ((out @ emit (node_at (abs_tree T) p)) @ concat (map (\<lambda>q. emit (node_at (abs_tree T) q)) qs)))"
      by meson
    have "distinct (p # qs)" using qs(1,2) by (auto simp: subtree_def)
    moreover have "set (p # qs) = subtree T p" unfolding un qs(2) list.set(2) cs ..
    moreover have "walk_with emit (Suc fuel) S s (DbPath p) out
        = Some (Inr (out @ concat (map (\<lambda>q. emit (node_at (abs_tree T) q)) (p # qs))))"
      using get l(1) qs(3) a DirN by (simp add: node_at_def spec_entry_def)
    ultimately show ?thesis by blast
  next
    case (ValN v)
    have "{x. T (p @ [x]) \<noteq> None} = {}" using tree_value_leaf [OF tr] k ValN by auto
    then have "subtree T p = {p}" using un by simp
    then show ?thesis
      using get a ValN by (intro exI [of _ "[p]"]) (simp add: node_at_def spec_entry_def)
  qed
qed

text \<open>Depth is bounded by the number of rows: the prefixes of a path are distinct nodes.\<close>

lemma depth_bound:
  assumes i: "invar s" and T: "ns_rep T n (bt_get (view s))" and q: "T q \<noteq> None"
  shows "length q < length (view s)"
proof -
  have tr: "tree_ok T" "nodes_rep T (bt_get (view s))" using ns_rep_parts [OF T] by simp_all
  have "(\<lambda>k. take k q) ` {..length q} \<subseteq> dom T"
  proof
    fix p assume "p \<in> (\<lambda>k. take k q) ` {..length q}"
    then obtain r where "q = p @ r" by (metis append_take_drop_id imageE)
    then show "p \<in> dom T" using q tree_no_child [OF tr(1), of p r] by (metis domIff)
  qed
  moreover have "inj_on (\<lambda>k. take k q) {..length q}"
    by (rule inj_on_inverseI [of _ length]) simp
  ultimately have "card {..length q} \<le> card (dom T)"
    using finite_tree(1) [OF tr] by (metis card_image card_mono)
  then show ?thesis using finite_tree(2) [OF tr] by simp
qed

lemma walk_root_tree:
  assumes i: "invar s" and st: "stores t n (bt_get (view s))" and "length (view s) \<le> fuel"
  shows "\<exists>qs. distinct qs \<and> set qs = dom t
      \<and> walk_with emit fuel S s path_root [] = Some (Inr (concat (map (\<lambda>q. emit (node_at t q)) qs)))"
proof -
  obtain T where T: "ns_rep T n (bt_get (view s))" "t = abs_tree T" using st by (auto simp: stores_def)
  have "T [] \<noteq> None" using tree_root [OF ns_rep_parts(1) [OF T(1)]] by simp
  moreover have "\<forall>q \<in> subtree T []. length q < length ([] :: string list) + fuel"
    using depth_bound [OF i T(1)] assms(3) by (fastforce simp: subtree_def)
  ultimately obtain qs where "distinct qs" "set qs = subtree T []"
      "walk_with emit fuel S s (DbPath []) [] = Some (Inr ([] @ concat (map (\<lambda>q. emit (node_at (abs_tree T) q)) qs)))"
    using walk_with_tree [OF i T(1), of "[]" fuel emit "[]"] by blast
  moreover have "subtree T [] = dom t" unfolding T(2) subtree_root by (auto simp: dom_def abs_tree_def)
  ultimately show ?thesis using T(2) by (auto simp: path_root_def)
qed

end

section \<open>Properties\<close>

text \<open>
  \<open>walk_values\<close> ends and returns exactly the values of the database: every path that holds a
  value once, with that value, and nothing else.  Fuel for one level per row of the store is
  enough, because a path has fewer segments than the store has rows.
\<close>

theorem walk_values_exact:
  assumes "storage S view invar" and "ns_state view invar t n s" and "length (view s) \<le> fuel"
  shows "\<exists>out. walk_values fuel S s = Some (Inr out) \<and> distinct (map fst out)
     \<and> (\<forall>path v. (path, v) \<in> set out \<longleftrightarrow> t (segments path) = Some (ValN v))"
proof -
  have s: "invar s" "stores t n (bt_get (view s))" using assms(2) by (simp_all add: ns_state_def)
  obtain qs where qs: "distinct qs" "set qs = dom t"
      "walk_values fuel S s = Some (Inr (concat (map (\<lambda>q. emit_value (node_at t q)) qs)))"
    using storage.walk_root_tree [OF assms(1) s assms(3), of emit_value]
    by (auto simp: walk_values_def walk_rec_with)
  let ?out = "concat (map (\<lambda>q. emit_value (node_at t q)) qs)"
  have e: "emit_value (node_at t q) = (case t q of Some (ValN v) \<Rightarrow> [(DbPath q, v)] | _ \<Rightarrow> [])" if "q \<in> dom t" for q
    using that by (auto simp: emit_value_def node_at_def spec_entry_def split: ns_node.splits)
  have "map fst (concat (map (\<lambda>q. emit_value (node_at t q)) us)) = map DbPath (filter (\<lambda>q. \<exists>v. t q = Some (ValN v)) us)"
    if "set us \<subseteq> dom t" for us
    using that by (induction us) (auto simp: e split: ns_node.splits)
  then have "map fst ?out = map DbPath (filter (\<lambda>q. \<exists>v. t q = Some (ValN v)) qs)" using qs(2) by simp
  then have "distinct (map fst ?out)" using qs(1) by (simp add: distinct_map inj_on_def)
  moreover have "(path, v) \<in> set ?out \<longleftrightarrow> t (segments path) = Some (ValN v)" for path v
    using qs(2) by (cases path) (auto simp: e split: option.splits ns_node.splits)
  ultimately show ?thesis using qs(3) by blast
qed

theorem walk_values_exact_witness: "\<exists>out. walk_values 9 memory_storage mem_root = Some (Inr out) \<and> set out = {}"
proof -
  have "length (mem_map mem_root) \<le> 9" using length_root_batch unfolding mem_root_def by simp
  from walk_values_exact [OF mem.storage_axioms mem_root_state this] obtain out where
    "walk_values 9 memory_storage mem_root = Some (Inr out)" "\<And>p v. (p, v) \<notin> set out"
    by (auto simp: empty_tree_def)
  then show ?thesis by (metis equals0I old.prod.exhaust)
qed

end
