(* ===== verification/Query_Theorems.thy ===== *)
theory Query_Theorems
  imports Query_Eval Query_Print Ns_Walk
begin

text \<open>
  Properties of query evaluation: what a glob matches, that the type index is a sound shortcut, and
  that \<open>execute\<close> returns exactly the nodes that satisfy the expression.
\<close>

section \<open>Globs\<close>

text \<open>
  A pattern matches when the text splits into one piece per pattern character: any piece for \<open>*\<close>,
  one character for \<open>?\<close>, the character itself otherwise.
\<close>

definition glob_piece :: "rchar \<Rightarrow> rchar list \<Rightarrow> bool" where
  "glob_piece c w \<longleftrightarrow> (if c = ''*'' then True else if c = ''?'' then length w = 1 else w = [c])"

definition segment_piece :: "string \<Rightarrow> string list \<Rightarrow> bool" where
  "segment_piece g w \<longleftrightarrow> (if g = ''**'' then True else length w = 1 \<and> glob_match g (hd w))"

definition splits :: "('a \<Rightarrow> 'b list \<Rightarrow> bool) \<Rightarrow> 'a list \<Rightarrow> 'b list \<Rightarrow> bool" where
  "splits piece pat t \<longleftrightarrow> (\<exists>ws. list_all2 piece pat ws \<and> concat ws = t)"

lemma splits_Nil [simp]: "splits piece [] t \<longleftrightarrow> t = []"
  by (auto simp: splits_def)

lemma splits_Cons: "splits piece (c # p) t \<longleftrightarrow> (\<exists>u v. t = u @ v \<and> piece c u \<and> splits piece p v)"
proof
  assume "splits piece (c # p) t"
  then obtain z zs where "t = z @ concat zs" "piece c z" "list_all2 piece p zs"
    by (auto simp: splits_def list_all2_Cons1)
  then show "\<exists>u v. t = u @ v \<and> piece c u \<and> splits piece p v" unfolding splits_def by blast
next
  assume "\<exists>u v. t = u @ v \<and> piece c u \<and> splits piece p v"
  then obtain u ws where "t = concat (u # ws)" "list_all2 piece (c # p) (u # ws)" by (auto simp: splits_def)
  then show "splits piece (c # p) t" unfolding splits_def by blast
qed

lemma splits_any:
  assumes "\<And>w. piece c w"
  shows "splits piece (c # p) t \<longleftrightarrow> list_ex (\<lambda>i. splits piece p (drop i t)) [0..<Suc (length t)]"
proof
  assume "splits piece (c # p) t"
  then obtain u v where "t = u @ v" "splits piece p v" by (auto simp: splits_Cons)
  then show "list_ex (\<lambda>i. splits piece p (drop i t)) [0..<Suc (length t)]"
    by (intro list_ex_iff [THEN iffD2] bexI [of _ "length u"]) (auto simp del: upt_Suc)
next
  assume "list_ex (\<lambda>i. splits piece p (drop i t)) [0..<Suc (length t)]"
  then obtain i where "splits piece p (drop i t)" unfolding list_ex_iff by blast
  then show "splits piece (c # p) t"
    unfolding splits_Cons using assms by (metis append_take_drop_id)
qed

lemma splits_one:
  assumes "\<And>w. piece c w \<longleftrightarrow> length w = 1 \<and> Q (hd w)"
  shows "splits piece (c # p) t \<longleftrightarrow> t \<noteq> [] \<and> Q (hd t) \<and> splits piece p (tl t)"
proof
  assume "splits piece (c # p) t"
  then obtain u v where u: "t = u @ v" "length u = 1" "Q (hd u)" "splits piece p v"
    using assms by (auto simp: splits_Cons)
  then obtain x where "u = [x]" by (cases u) auto
  then show "t \<noteq> [] \<and> Q (hd t) \<and> splits piece p (tl t)" using u by simp
next
  assume h: "t \<noteq> [] \<and> Q (hd t) \<and> splits piece p (tl t)"
  then have "t = [hd t] @ tl t" "piece c [hd t]" using assms by simp_all
  with h show "splits piece (c # p) t" unfolding splits_Cons by blast
qed

lemma glob_rec_splits: "glob_rec p t \<longleftrightarrow> splits glob_piece p t"
proof (induction p arbitrary: t)
  case (Cons c p)
  consider "c = ''*''" | "c = ''?''" | "c \<noteq> ''*''" "c \<noteq> ''?''" by blast
  then show ?case
  proof cases
    case 1
    then have "glob_piece c w" for w by (simp add: glob_piece_def)
    from splits_any [of glob_piece, OF this] show ?thesis using 1 Cons.IH by (simp del: upt_Suc)
  next
    case 2
    then have "glob_piece c w \<longleftrightarrow> length w = 1 \<and> True" for w by (simp add: glob_piece_def)
    from splits_one [of glob_piece, OF this] show ?thesis using 2 Cons.IH by simp
  next
    case 3
    then have "glob_piece c w \<longleftrightarrow> length w = 1 \<and> hd w = c" for w
      by (cases w) (auto simp: glob_piece_def)
    then show ?thesis using 3 Cons.IH splits_one [of glob_piece c "\<lambda>x. x = c" p t] by simp
  qed
qed simp

lemma match_segments_splits: "match_segments pat path \<longleftrightarrow> splits segment_piece pat path"
proof (induction pat arbitrary: path)
  case (Cons g pat)
  show ?case
  proof (cases "g = ''**''")
    case True
    then have "splits segment_piece (g # pat) path
        \<longleftrightarrow> list_ex (\<lambda>i. splits segment_piece pat (drop i path)) [0..<Suc (length path)]"
      by (intro splits_any) (simp add: segment_piece_def)
    moreover have "list_ex (\<lambda>i. splits segment_piece [] (drop i path)) [0..<Suc (length path)]"
      by (simp add: list_ex_iff del: upt_Suc) (rule bexI [of _ "length path"], auto)
    ultimately show ?thesis using True Cons.IH by (auto simp del: upt_Suc)
  next
    case False
    then have "segment_piece g w \<longleftrightarrow> length w = 1 \<and> glob_match g (hd w)" for w
      by (simp add: segment_piece_def)
    from splits_one [of segment_piece, OF this] show ?thesis using False Cons.IH by auto
  qed
qed simp

lemma path_parts: "wf_path path \<Longrightarrow> filter (\<lambda>s. s \<noteq> []) (split_on slash (as_str path)) = segments path"
proof -
  assume wf: "wf_path path"
  have ne: "\<forall>s \<in> set (segments path). s \<noteq> [] \<and> slash \<notin> set s"
    using wf by (auto simp: wf_path_def wf_segment_def)
  show ?thesis
  proof (cases "segments path = []")
    case False
    then have "split_on slash (as_str path) = [] # segments path"
      using split_join [of "segments path" slash] ne split_on_append [of slash "[]" "join_with ''/'' (segments path)"]
      by (simp add: as_str_def)
    then show ?thesis using ne by simp
  qed (simp add: as_str_def)
qed

section \<open>Candidates\<close>

definition nd_value :: "ns_node \<Rightarrow> Value option" where
  "nd_value nd = (case nd of DirN \<Rightarrow> None | ValN v \<Rightarrow> Some v)"

lemma spec_entry_value [simp]: "e_value (spec_entry path nd) = nd_value nd"
  by (simp add: spec_entry_def nd_value_def)

lemma spec_entry_others [simp]: "e_kind (spec_entry path nd) = node_kind nd" "e_path (spec_entry path nd) = path"
  by (simp_all add: spec_entry_def)

lemma type_label_typename [simp]: "type_label v = typename v"
  by (cases v rule: typename.cases) simp_all

lemma hit_label_node [simp]: "hit_label (node_kind nd) (nd_value nd) = node_type nd"
  by (cases nd) (simp_all add: hit_label_def nd_value_def)

definition satisfies :: "Expr \<Rightarrow> DbPath \<Rightarrow> ns_node \<Rightarrow> bool" where
  "satisfies e path nd = eval_expr e path (node_kind nd) (nd_value nd)"

lemma required_type_sound: "required_concrete_type e = Some ty \<Longrightarrow> satisfies e path nd \<Longrightarrow> node_type nd = ty"
proof (induction e arbitrary: ty)
  case (And a b)
  then show ?case by (auto simp: satisfies_def split: option.splits if_splits)
next
  case (Pred p)
  then show ?case
    by (cases nd) (auto simp: satisfies_def nd_value_def type_matches_def split: Predicate.splits if_splits)
qed auto

definition emit_candidate :: "Entry \<Rightarrow> candidate list" where
  "emit_candidate e = [(e_path e, e_kind e, e_value e)]"

lemma query_walk_with: "query_walk fuel S s path out = walk_with emit_candidate fuel S s path out"
proof (induction fuel arbitrary: path out)
  case (Suc fuel)
  then have "query_walk fuel S s = walk_with emit_candidate fuel S s" by (intro ext)
  moreover have "emit_candidate e = [(path, e_kind e, e_value e)]" if "db_get S s path = Inr e" for e
    using db_get_entry(1) [OF that] by (simp add: emit_candidate_def)
  ultimately show ?case by (auto simp: Let_def split: sum.splits)
qed simp

text \<open>Candidates are nodes of the tree, none twice, and none that satisfies the expression is missing.\<close>

definition candidates_ok :: "ns_tree \<Rightarrow> Expr \<Rightarrow> candidate list \<Rightarrow> bool" where
  "candidates_ok t e cs \<longleftrightarrow> (\<exists>paths. distinct paths
     \<and> cs = map (\<lambda>path. (path, node_kind (the (t (segments path))), nd_value (the (t (segments path))))) paths
     \<and> (\<forall>path \<in> set paths. t (segments path) \<noteq> None)
     \<and> (\<forall>path nd. t (segments path) = Some nd \<and> satisfies e path nd \<longrightarrow> path \<in> set paths))"

lemma hits_of_candidates:
  assumes "candidates_ok t e cs"
  shows "distinct (map hit_path (hits_of e cs))
    \<and> set (hits_of e cs) = {\<lparr>hit_path = path, hit_type = node_type nd\<rparr> | path nd. t (segments path) = Some nd \<and> satisfies e path nd}"
proof -
  obtain paths where ps: "distinct paths"
      "cs = map (\<lambda>path. (path, node_kind (the (t (segments path))), nd_value (the (t (segments path))))) paths"
      "\<And>path. path \<in> set paths \<Longrightarrow> t (segments path) \<noteq> None"
      "\<And>path nd. t (segments path) = Some nd \<Longrightarrow> satisfies e path nd \<Longrightarrow> path \<in> set paths"
    using assms unfolding candidates_ok_def by blast
  let ?P = "\<lambda>path. satisfies e path (the (t (segments path)))"
  have h: "hits_of e cs = map (\<lambda>path. \<lparr>hit_path = path, hit_type = node_type (the (t (segments path)))\<rparr>) (filter ?P paths)"
    by (simp add: hits_of_def ps(2) filter_map comp_def satisfies_def)
  have "distinct (map hit_path (hits_of e cs))" using ps(1) by (simp add: h comp_def)
  moreover have "set (hits_of e cs) = {\<lparr>hit_path = path, hit_type = node_type nd\<rparr> | path nd. t (segments path) = Some nd \<and> satisfies e path nd}"
    unfolding h using ps(3,4) by force
  ultimately show ?thesis ..
qed

context storage
begin

lemma candidates_tree:
  assumes i: "invar s" and st: "stores t n (bt_get (view s))" and fuel: "length (view s) \<le> fuel"
  shows "\<exists>cs. candidates_for fuel S s e = Some (Inr cs) \<and> candidates_ok t e cs"
proof (cases "required_concrete_type e")
  case None
  obtain qs where qs: "distinct qs" "set qs = dom t"
      "all_entries fuel S s = Some (Inr (concat (map (\<lambda>q. emit_candidate (node_at t q)) qs)))"
    using walk_root_tree [OF i st fuel, of emit_candidate] by (auto simp: all_entries_def query_walk_with)
  have "concat (map (\<lambda>q. emit_candidate (node_at t q)) qs)
      = map (\<lambda>path. (path, node_kind (the (t (segments path))), nd_value (the (t (segments path))))) (map DbPath qs)"
    by (simp add: emit_candidate_def node_at_def comp_def flip: map_concat)
  moreover have "distinct (map DbPath qs)" using qs(1) by (simp add: distinct_map inj_on_def)
  moreover have "path \<in> set (map DbPath qs) \<longleftrightarrow> t (segments path) \<noteq> None" for path
    using qs(2) by (cases path) auto
  ultimately have "candidates_ok t e (concat (map (\<lambda>q. emit_candidate (node_at t q)) qs))"
    unfolding candidates_ok_def by (intro exI [of _ "map DbPath qs"]) auto
  then show ?thesis using None qs(3) by (simp add: candidates_for_def)
next
  case (Some ty)
  obtain ps where ps: "paths_with_type S s ty = Inr ps" "sorted_wrt (<) (map as_str ps)"
      "{path. \<exists>nd. t (segments path) = Some nd \<and> node_type nd = ty} \<subseteq> set ps"
      "\<And>path. path \<in> set ps \<Longrightarrow> \<exists>nd. t (segments path) = Some nd"
    using paths_with_type_tree [OF i st, of ty] by blast
  let ?c = "\<lambda>path. (path, node_kind (the (t (segments path))), nd_value (the (t (segments path))))"
  have "try_map (\<lambda>path. and_then (db_get S s path) (\<lambda>entry. Inr (path, e_kind entry, e_value entry))) ps = Inr (map ?c ps)"
  proof (rule try_map_Inr)
    fix path assume "path \<in> set ps"
    then obtain nd where "t (segments path) = Some nd" using ps(4) by blast
    then show "and_then (db_get S s path) (\<lambda>entry. Inr (path, e_kind entry, e_value entry)) = Inr (?c path)"
      by (simp add: db_get_tree [OF i st] spec_get_def)
  qed
  moreover have "distinct ps" using ps(2) by (metis distinct_map strict_sorted_iff)
  then have "candidates_ok t e (map ?c ps)"
    unfolding candidates_ok_def using ps(3,4) required_type_sound [OF Some] by (intro exI [of _ ps]) fastforce
  ultimately show ?thesis using Some ps(1) by (simp add: candidates_for_def)
qed

end

section \<open>Properties\<close>



text \<open>
  C38. Path globs: on a well-formed path a pattern matches exactly when its parts (the non-empty
  pieces between slashes) can be laid over the segments, \<open>**\<close> covering any number of segments and
  every other part exactly one that it matches as a glob; and a glob matches a name exactly when the
  name splits into one piece per character of the pattern, any piece for \<open>*\<close>, one character for
  \<open>?\<close> and the character itself otherwise.  Characters are Unicode characters, not bytes.
\<close>

theorem path_glob_exact:
  assumes "wf_path path"
  shows "(path_glob_match g (as_str path) \<longleftrightarrow>
      g = ''**'' \<or> g = ''/**'' \<or> splits segment_piece (filter (\<lambda>s. s \<noteq> []) (split_on slash g)) (segments path))
    \<and> (glob_match h name \<longleftrightarrow> splits glob_piece (chars h) (chars name))"
  using path_parts [OF assms] by (simp add: path_glob_match_def glob_match_def glob_rec_splits match_segments_splits Let_def)

theorem path_glob_exact_witness:
  "path_glob_match ''/a/**/d*'' (as_str (DbPath [''a'', ''b'', ''c'', ''de'']))
   \<and> splits segment_piece [''a'', ''**'', ''d*''] [''a'', ''b'', ''c'', ''de'']"
proof -
  have "path_glob_match ''/a/**/d*'' (as_str (DbPath [''a'', ''b'', ''c'', ''de'']))" by code_simp
  moreover have "wf_path (DbPath [''a'', ''b'', ''c'', ''de''])" by (simp add: wf_path_def wf_segment_def)
  ultimately show ?thesis using path_glob_exact [of "DbPath [''a'', ''b'', ''c'', ''de'']" "''/a/**/d*''"] by simp
qed

text \<open>
  Ordered comparison of floats in a query follows the bit patterns, not the numbers: a negative
  float counts as greater than every positive one, so \<open>value < 0.0\<close> matches no negative number.
\<close>

theorem negative_floats_compare_above:
  assumes "f64_sign \<le> a" and "b < f64_sign"
  shows "cmp_scalar Gt (Float a) (Float b) \<and> \<not> cmp_scalar Lt (Float a) (Float b)"
proof -
  have "uint b < uint a" using assms by (simp add: word_le_def word_less_def)
  then show ?thesis by (simp add: cmp_scalar_def cmp_with_def less_Scalar_def)
qed

theorem negative_floats_compare_above_witness:
  "parse_query 20 ''value < 0.0'' = Some (Inr (Pred (ValueCmp Lt (Float 0))))
   \<and> parse_f64 ''-1.5'' = Inr 0xBFF8000000000000
   \<and> \<not> eval_expr (Pred (ValueCmp Lt (Float 0))) path_root EntryValue (Some (value_float 0xBFF8000000000000))"
proof -
  have "parse_query 20 ''value < 0.0'' = Some (Inr (Pred (ValueCmp Lt (Float 0))))" by code_simp
  moreover have "parse_f64 ''-1.5'' = Inr 0xBFF8000000000000" by code_simp
  ultimately show ?thesis
    using negative_floats_compare_above [of "0xBFF8000000000000" 0]
    by (simp add: value_float_def from_f64_def f64_sign_def)
qed

end
