(* ===== verification/Json.thy ===== *)
theory Json
  imports Rust_Float Namespace
begin

text \<open>
  JSON export and import of the namespace (\<open>crates/alefs-namespace/src/db.rs\<close>, which has its own
  printer and parser).  Text positions of the parser are the rest of the characters.  The recursion
  of the parser, the export over the stored graph and the import take fuel; \<open>None\<close> means that it ran
  out.
\<close>

section \<open>Printing\<close>

definition str_replace :: "char \<Rightarrow> string \<Rightarrow> string \<Rightarrow> string" where
  "str_replace c new s = concat (map (\<lambda>x. if x = c then new else [x]) s)"

abbreviation dquote :: char where "dquote \<equiv> CHR 0x22"
abbreviation bslash :: char where "bslash \<equiv> CHR 0x5C"

definition json_str :: "string \<Rightarrow> string" where
  "json_str s = [dquote] @ str_replace dquote [bslash, dquote] (str_replace bslash [bslash, bslash] s) @ [dquote]"

definition hex_encode_bytes :: "bytes \<Rightarrow> string" where
  "hex_encode_bytes bs = concat (map show_hex02 bs)"

definition show_bool :: "bool \<Rightarrow> string" where
  "show_bool b = (if b then ''true'' else ''false'')"

definition is_finite :: "f64 \<Rightarrow> bool" where
  "is_finite bits \<longleftrightarrow> and bits 0x7FFFFFFFFFFFFFFF < f64_inf"

fun scalar_key_str :: "Scalar \<Rightarrow> string" where
  "scalar_key_str Null = ''null''"
| "scalar_key_str (Bool b) = show_bool b"
| "scalar_key_str (IntV n) = show_int (sint n)"
| "scalar_key_str (Float bits) = ''f:'' @ show_f64 bits"
| "scalar_key_str (String s) = s"
| "scalar_key_str (Bytes b) = ''b:'' @ hex_encode_bytes b"

text \<open>\<open>{"tag": body}\<close> and \<open>"key": body\<close> of the format strings.\<close>

definition json_tagged :: "string \<Rightarrow> string \<Rightarrow> string" where
  "json_tagged tag body = ''{'' @ [dquote] @ tag @ [dquote] @ '': '' @ body @ ''}''"

definition json_field :: "string \<Rightarrow> string \<Rightarrow> string" where
  "json_field k body = json_str k @ '': '' @ body"

fun value_to_json :: "Value \<Rightarrow> string" where
  "value_to_json (Scalar Null) = ''null''"
| "value_to_json (Scalar (Bool b)) = show_bool b"
| "value_to_json (Scalar (IntV n)) = show_int (sint n)"
| "value_to_json (Scalar (Float bits)) =
     (if is_finite bits then show_f64 bits else json_str (''float:'' @ show_nat (unat bits)))"
| "value_to_json (Scalar (String s)) = json_str s"
| "value_to_json (Scalar (Bytes b)) =
     ''{'' @ [dquote] @ ''__bytes'' @ [dquote] @ '':'' @ json_str (hex_encode_bytes b) @ ''}''"
| "value_to_json (Hash m) =
     json_tagged ''__hash'' (''{'' @ join_with '', '' (map (\<lambda>(k, v). json_field k (value_to_json v)) m) @ ''}'')"
| "value_to_json (List items) = ''['' @ join_with '', '' (map value_to_json items) @ '']''"
| "value_to_json (Set items) =
     json_tagged ''__set'' (''['' @ join_with '', '' (map value_to_json items) @ '']'')"
| "value_to_json (Tree m) =
     json_tagged ''__tree''
       (''{'' @ join_with '', '' (map (\<lambda>(k, v). json_field (scalar_key_str k) (value_to_json v)) m) @ ''}'')"

text \<open>The loop over the children in \<open>export_node\<close>; \<open>visit\<close> is the recursive call.\<close>

fun export_children ::
  "(DbPath \<Rightarrow> (NsError + string) option) \<Rightarrow> DbPath \<Rightarrow> (string \<times> EntryKind) list \<Rightarrow> string list \<Rightarrow> (NsError + string list) option" where
  "export_children visit path [] parts = Some (Inr parts)"
| "export_children visit path ((name, _) # rest) parts =
     (case map_err NsPath (path_join path name) of
        Inl e \<Rightarrow> Some (Inl e)
      | Inr child \<Rightarrow>
          (case visit child of
             None \<Rightarrow> None
           | Some (Inl e) \<Rightarrow> Some (Inl e)
           | Some (Inr body) \<Rightarrow> export_children visit path rest (parts @ [json_field name body])))"

text \<open>A value entry always has its value; the last case of \<open>unwrap\<close> does not arise.\<close>

fun export_node :: "nat \<Rightarrow> 's Storage \<Rightarrow> 's \<Rightarrow> DbPath \<Rightarrow> (NsError + string) option" where
  "export_node 0 S s path = None"
| "export_node (Suc fuel) S s path =
     (case db_get S s path of
        Inl e \<Rightarrow> Some (Inl e)
      | Inr entry \<Rightarrow>
          (case e_value entry of
             None \<Rightarrow>
               (case db_list S s path of
                  Inl e \<Rightarrow> Some (Inl e)
                | Inr names \<Rightarrow>
                    map_option (\<lambda>r. and_then r (\<lambda>parts.
                        Inr (json_tagged ''__dir'' (''{'' @ join_with '', '' parts @ ''}''))))
                      (export_children (export_node fuel S s) path names []))
           | Some v \<Rightarrow> Some (Inr (value_to_json v))))"

definition export_json :: "nat \<Rightarrow> 's Storage \<Rightarrow> 's \<Rightarrow> (NsError + string) option" where
  "export_json fuel S s = export_node fuel S s path_root"

section \<open>Parsing\<close>

datatype JsonVal =
    JNull
  | JBool bool
  | JNumber i64
  | JFloat f64
  | JString string
  | JArray "JsonVal list"
  | JObject "(string \<times> JsonVal) list"

type_synonym 'a jparser = "rchar list \<Rightarrow> string + ('a \<times> rchar list)"

definition skip_ws :: "rchar list \<Rightarrow> rchar list" where
  "skip_ws cs = dropWhile is_ascii_whitespace cs"

definition jpeek :: "rchar list \<Rightarrow> rchar option" where
  "jpeek cs = (case cs of [] \<Rightarrow> None | c # _ \<Rightarrow> Some c)"

definition jbump :: "rchar list \<Rightarrow> rchar option \<times> rchar list" where
  "jbump cs = (case cs of [] \<Rightarrow> (None, []) | c # r \<Rightarrow> (Some c, r))"

definition chars_start :: "rchar list \<Rightarrow> string \<Rightarrow> bool" where
  "chars_start cs word \<longleftrightarrow> take (length word) cs = map (\<lambda>c. [c]) word"

definition parse_null :: "JsonVal jparser" where
  "parse_null cs = (if chars_start cs ''null'' then Inr (JNull, drop 4 cs) else Inl ''expected null'')"

definition parse_bool :: "JsonVal jparser" where
  "parse_bool cs =
     (if chars_start cs ''true'' then Inr (JBool True, drop 4 cs)
      else if chars_start cs ''false'' then Inr (JBool False, drop 5 cs)
      else Inl ''expected bool'')"

text \<open>The \<open>while let\<close> loop of \<open>parse_string\<close>.\<close>

fun jstring_loop :: "rchar list \<Rightarrow> string \<Rightarrow> string + (string \<times> rchar list)" where
  "jstring_loop [] out = Inl ''unterminated string''"
| "jstring_loop (c # cs) out =
     (if c = quote then Inr (out, cs)
      else if c = backslash then
        (case cs of
           [] \<Rightarrow> Inl ''bad escape''
         | e # r \<Rightarrow>
             jstring_loop r (out @ (if e = ''n'' then [CHR 0x0A] else if e = ''t'' then [CHR 0x09] else e)))
      else jstring_loop cs (out @ c))"

definition parse_string :: "string jparser" where
  "parse_string cs =
     (case jbump cs of (c, r) \<Rightarrow> if c \<noteq> Some quote then Inl ''expected string'' else jstring_loop r [])"

definition parse_number :: "JsonVal jparser" where
  "parse_number cs =
     (let sign = (if jpeek cs = Some ''-'' then [''-''] else []); r = drop (length sign) cs;
          ds = takeWhile is_ascii_digit r; r = dropWhile is_ascii_digit r
      in if jpeek r = Some ''.'' then
           let fs = takeWhile is_ascii_digit (tl r)
           in map_sum (\<lambda>_. ''bad float'') (\<lambda>f. (JFloat f, dropWhile is_ascii_digit (tl r)))
                (parse_f64 (concat (sign @ ds @ [''.''] @ fs)))
         else map_sum (\<lambda>_. ''bad int'') (\<lambda>n. (JNumber n, r)) (parse_i64 (concat (sign @ ds))))"

text \<open>The loops of \<open>parse_array\<close> and \<open>parse_object\<close>; \<open>pv\<close> is the call of \<open>parse_value\<close>.\<close>

fun array_loop :: "nat \<Rightarrow> (rchar list \<Rightarrow> (string + (JsonVal \<times> rchar list)) option) \<Rightarrow> JsonVal list \<Rightarrow> rchar list
    \<Rightarrow> (string + (JsonVal \<times> rchar list)) option" where
  "array_loop 0 pv items cs = None"
| "array_loop (Suc fuel) pv items cs =
     (case pv cs of
        None \<Rightarrow> None
      | Some (Inl e) \<Rightarrow> Some (Inl e)
      | Some (Inr (v, cs)) \<Rightarrow>
          (case jbump (skip_ws cs) of (c, cs) \<Rightarrow>
             if c = Some '','' then array_loop fuel pv (items @ [v]) cs
             else if c = Some '']'' then Some (Inr (JArray (items @ [v]), cs))
             else Some (Inl ''expected , or ]'')))"

definition parse_array :: "nat \<Rightarrow> (rchar list \<Rightarrow> (string + (JsonVal \<times> rchar list)) option) \<Rightarrow> rchar list
    \<Rightarrow> (string + (JsonVal \<times> rchar list)) option" where
  "parse_array fuel pv cs =
     (let cs = skip_ws (snd (jbump cs)) in
      if jpeek cs = Some '']'' then Some (Inr (JArray [], snd (jbump cs)))
      else array_loop fuel pv [] cs)"

definition parse_key :: "string jparser" where
  "parse_key cs =
     and_then (parse_string (skip_ws cs)) (\<lambda>(key, cs).
       case jbump (skip_ws cs) of (c, cs) \<Rightarrow> if c \<noteq> Some '':'' then Inl ''expected :'' else Inr (key, cs))"

fun object_loop :: "nat \<Rightarrow> (rchar list \<Rightarrow> (string + (JsonVal \<times> rchar list)) option) \<Rightarrow> (string \<times> JsonVal) list
    \<Rightarrow> rchar list \<Rightarrow> (string + (JsonVal \<times> rchar list)) option" where
  "object_loop 0 pv m cs = None"
| "object_loop (Suc fuel) pv m cs =
     (case parse_key cs of
        Inl e \<Rightarrow> Some (Inl e)
      | Inr (key, cs) \<Rightarrow>
          (case pv cs of
             None \<Rightarrow> None
           | Some (Inl e) \<Rightarrow> Some (Inl e)
           | Some (Inr (v, cs)) \<Rightarrow>
               (case jbump (skip_ws cs) of (c, cs) \<Rightarrow>
                  if c = Some '','' then object_loop fuel pv (m @ [(key, v)]) cs
                  else if c = Some ''}'' then Some (Inr (JObject (m @ [(key, v)]), cs))
                  else Some (Inl ''expected , or }''))))"

definition parse_object :: "nat \<Rightarrow> (rchar list \<Rightarrow> (string + (JsonVal \<times> rchar list)) option) \<Rightarrow> rchar list
    \<Rightarrow> (string + (JsonVal \<times> rchar list)) option" where
  "parse_object fuel pv cs =
     (let cs = skip_ws (snd (jbump cs)) in
      if jpeek cs = Some ''}'' then Some (Inr (JObject [], snd (jbump cs)))
      else object_loop fuel pv [] cs)"

fun parse_value :: "nat \<Rightarrow> rchar list \<Rightarrow> (string + (JsonVal \<times> rchar list)) option" where
  "parse_value 0 cs = None"
| "parse_value (Suc fuel) cs =
     (let cs = skip_ws cs in
      case jpeek cs of
        None \<Rightarrow> Some (Inl ''unexpected eof'')
      | Some c \<Rightarrow>
          if c = ''n'' then Some (parse_null cs)
          else if c = ''t'' \<or> c = ''f'' then Some (parse_bool cs)
          else if c = quote then Some (and_then (parse_string cs) (\<lambda>(s, cs). Inr (JString s, cs)))
          else if c = ''['' then parse_array fuel (parse_value fuel) cs
          else if c = ''{'' then parse_object fuel (parse_value fuel) cs
          else if c = ''-'' \<or> is_ascii_digit c then Some (parse_number cs)
          else Some (Inl (''unexpected '' @ c)))"

definition parse_json_value :: "nat \<Rightarrow> string \<Rightarrow> (string + JsonVal) option" where
  "parse_json_value fuel s =
     map_option (\<lambda>r. and_then r (\<lambda>(v, cs).
       if skip_ws cs \<noteq> [] then Inl ''trailing junk in json'' else Inr v)) (parse_value fuel (chars s))"

section \<open>From JSON to values\<close>

definition from_hex :: "char \<Rightarrow> string + u8" where
  "from_hex c =
     (let n = (of_char c :: nat) in
      if 48 \<le> n \<and> n \<le> 57 then Inr (word_of_nat (n - 48))
      else if 97 \<le> n \<and> n \<le> 102 then Inr (word_of_nat (n - 97 + 10))
      else if 65 \<le> n \<and> n \<le> 70 then Inr (word_of_nat (n - 65 + 10))
      else Inl ''bad hex'')"

fun hex_pairs :: "string \<Rightarrow> bytes \<Rightarrow> string + bytes" where
  "hex_pairs (h # l # r) out =
     and_then (from_hex h) (\<lambda>hi. and_then (from_hex l) (\<lambda>lo. hex_pairs r (out @ [or (push_bit 4 hi) lo])))"
| "hex_pairs _ out = Inr out"

definition hex_decode_bytes :: "string \<Rightarrow> string + bytes" where
  "hex_decode_bytes s = (if odd (length s) then Inl ''odd hex length'' else hex_pairs s [])"

definition strip_prefix :: "string \<Rightarrow> string \<Rightarrow> string option" where
  "strip_prefix pre s = (if starts_with s pre then Some (drop (length pre) s) else None)"

definition parse_scalar_key :: "string \<Rightarrow> NsError + Scalar" where
  "parse_scalar_key s =
     (if s = ''null'' then Inr Null
      else if s = ''true'' then Inr (Bool True)
      else if s = ''false'' then Inr (Bool False)
      else case strip_prefix ''f:'' s of
        Some rest \<Rightarrow> map_sum (\<lambda>e. Invalid (show_float_error e)) from_f64 (parse_f64 rest)
      | None \<Rightarrow>
          (case strip_prefix ''b:'' s of
             Some rest \<Rightarrow> map_sum Invalid Bytes (hex_decode_bytes rest)
           | None \<Rightarrow> (case parse_i64 s of Inr n \<Rightarrow> Inr (IntV n) | Inl _ \<Rightarrow> Inr (String s))))"

fun json_to_value :: "JsonVal \<Rightarrow> NsError + Value"
and json_to_values :: "JsonVal list \<Rightarrow> NsError + Value list"
and json_to_hash :: "(string \<times> JsonVal) list \<Rightarrow> (string \<times> Value) list \<Rightarrow> NsError + (string \<times> Value) list"
and json_to_tree :: "(string \<times> JsonVal) list \<Rightarrow> (Scalar \<times> Value) list \<Rightarrow> NsError + (Scalar \<times> Value) list" where
  "json_to_value JNull = Inr value_null"
| "json_to_value (JBool b) = Inr (value_bool b)"
| "json_to_value (JNumber n) = Inr (value_int n)"
| "json_to_value (JFloat f) = Inr (value_float f)"
| "json_to_value (JString s) = Inr (value_string s)"
| "json_to_value (JArray items) = and_then (json_to_values items) (\<lambda>list. Inr (List list))"
| "json_to_value (JObject m) =
     (case m of
        [(k, JString h)] \<Rightarrow>
          if k = ''__bytes'' then map_sum Invalid value_bytes (hex_decode_bytes h)
          else and_then (json_to_hash m []) (\<lambda>hash. Inr (Hash hash))
      | [(k, JArray items)] \<Rightarrow>
          if k = ''__set'' then and_then (json_to_values items) (\<lambda>set. Inr (Set set))
          else and_then (json_to_hash m []) (\<lambda>hash. Inr (Hash hash))
      | [(k, JObject inner)] \<Rightarrow>
          if k = ''__hash'' then and_then (json_to_hash inner []) (\<lambda>hash. Inr (Hash hash))
          else if k = ''__tree'' then and_then (json_to_tree inner []) (\<lambda>tree. Inr (Tree tree))
          else and_then (json_to_hash m []) (\<lambda>hash. Inr (Hash hash))
      | _ \<Rightarrow> and_then (json_to_hash m []) (\<lambda>hash. Inr (Hash hash)))"
| "json_to_values [] = Inr []"
| "json_to_values (i # items) =
     and_then (json_to_value i) (\<lambda>v. and_then (json_to_values items) (\<lambda>vs. Inr (v # vs)))"
| "json_to_hash [] hash = Inr hash"
| "json_to_hash ((k, v) # m) hash = and_then (json_to_value v) (\<lambda>x. json_to_hash m (bt_insert k x hash))"
| "json_to_tree [] tree = Inr tree"
| "json_to_tree ((k, v) # m) tree =
     and_then (parse_scalar_key k) (\<lambda>sk. and_then (json_to_value v) (\<lambda>x. json_to_tree m (bt_insert sk x tree)))"

section \<open>Import\<close>

text \<open>\<open>at\<close> gives the path of a child from its name.\<close>

fun import_node :: "'s Storage \<Rightarrow> DbPath \<Rightarrow> JsonVal \<Rightarrow> bool \<Rightarrow> 's \<Rightarrow> (NsError + unit) \<times> 's"
and import_children :: "'s Storage \<Rightarrow> (string \<Rightarrow> NsError + DbPath) \<Rightarrow> (string \<times> JsonVal) list \<Rightarrow> 's \<Rightarrow> (NsError + unit) \<times> 's" where
  "import_node S path (JObject m) at_root s =
     (if length m = 1 \<and> fst (hd m) = ''__dir'' then
        (case m of
           [(_, JObject children)] \<Rightarrow>
             then_at
               (if \<not> at_root \<and> \<not> is_root path then
                  try_at s (db_exists S s path) (\<lambda>ex. if \<not> ex then mkdir S path s else (Inr (), s))
                else (Inr (), s))
               (\<lambda>_. import_children S
                  (\<lambda>k. if is_root path then ns_parse (''/'' @ k) else map_err NsPath (path_join path k)) children)
         | _ \<Rightarrow> (Inl (Invalid ''__dir must be object''), s))
      else if at_root then import_children S (\<lambda>k. ns_parse (''/'' @ k)) m s
      else try_at s (json_to_value (JObject m)) (\<lambda>val. db_set S path val s))"
| "import_node S path other at_root s =
     (if at_root then (Inl (Invalid ''root import must be object''), s)
      else try_at s (json_to_value other) (\<lambda>val. db_set S path val s))"
| "import_children S at [] s = (Inr (), s)"
| "import_children S at ((k, child_v) # rest) s =
     try_at s (at k) (\<lambda>child_path.
       then_at (import_node S child_path child_v False s) (\<lambda>_. import_children S at rest))"

definition import_json :: "nat \<Rightarrow> 's Storage \<Rightarrow> string \<Rightarrow> 's \<Rightarrow> ((NsError + unit) \<times> 's) option" where
  "import_json fuel S json s =
     map_option (\<lambda>r. try_at s (map_err Invalid r) (\<lambda>v. import_node S path_root v True s))
       (parse_json_value fuel (trim json))"

end
