(* ===== verification/Json_Text.thy ===== *)
theory Json_Text
  imports Json
begin

text \<open>
  The JSON text of a value is read back as the JSON tree it stands for, and that tree is converted
  back to the value.  Floats are left out (their text loses the type), and so are string keys of a
  tree that look like another scalar.
\<close>

section \<open>Texts\<close>

text \<open>\<open>text s cs\<close>: the string \<open>s\<close> is UTF-8 with the characters \<open>cs\<close>.\<close>

definition text_of :: "string \<Rightarrow> rchar list \<Rightarrow> bool" where
  "text_of s cs \<longleftrightarrow> utf8_string s \<and> chars s = cs"

lemma text_append: "text_of a as \<Longrightarrow> text_of b bs \<Longrightarrow> text_of (a @ b) (as @ bs)"
  by (simp add: text_of_def utf8_append chars_append)

lemma text_ascii: "list_all is_ascii_char s \<Longrightarrow> text_of s (map (\<lambda>c. [c]) s)"
  by (simp add: text_of_def chars_ascii utf8_string_ascii is_ascii_char_def [abs_def])

lemma text_concat: "list_all is_char cs \<Longrightarrow> text_of (concat cs) cs"
  by (simp add: text_of_def chars_concat utf8_concat)

lemma str_replace_append: "str_replace c new (a @ b) = str_replace c new a @ str_replace c new b"
  by (simp add: str_replace_def)

lemma str_replace_other: "c \<notin> set s \<Longrightarrow> str_replace c new s = s"
  by (induction s) (auto simp: str_replace_def)

lemma escape_char:
  assumes "is_char w"
  shows "str_replace dquote [bslash, dquote] (str_replace bslash [bslash, bslash] w) = concat (escape [w])"
proof -
  have "is_ascii_char bslash" "is_ascii_char dquote" by (simp_all add: is_ascii_char_def)
  then have "bslash \<in> set w \<longrightarrow> w = backslash" "dquote \<in> set w \<longrightarrow> w = quote"
    using is_char_ascii_mem [OF assms] by blast+
  then consider "w = quote" | "w = backslash" | "bslash \<notin> set w" "dquote \<notin> set w" "w \<noteq> quote" "w \<noteq> backslash"
    by blast
  then show ?thesis
  proof cases
    case 3
    then show ?thesis by (simp add: str_replace_other)
  qed (simp_all add: str_replace_def)
qed

lemma escape_concat:
  "list_all is_char ws \<Longrightarrow>
   str_replace dquote [bslash, dquote] (str_replace bslash [bslash, bslash] (concat ws)) = concat (escape ws)"
proof (induction ws)
  case (Cons w ws)
  then show ?case using escape_char [of w] by (auto simp: str_replace_append)
qed (simp add: str_replace_def)

lemma json_str_text:
  assumes "utf8_string s"
  shows "text_of (json_str s) (quote # escape (chars s) @ [quote])"
proof -
  have ch: "list_all is_char (chars s)" by (rule chars_is_char [OF assms])
  have "json_str s = concat (quote # escape (chars s) @ [quote])"
    using escape_concat [OF ch] by (simp add: json_str_def)
  moreover have "list_all is_char (quote # escape (chars s) @ [quote])"
    using escape_is_char [OF ch] by (simp add: is_ascii_char_def)
  ultimately show ?thesis using text_concat by metis
qed

lemma jstring_loop_escape: "jstring_loop (escape cs @ quote # rest) out = Inr (out @ concat cs, rest)"
  by (induction cs arbitrary: out) auto

section \<open>Reading values back\<close>

definition stops :: "rchar list \<Rightarrow> bool" where
  "stops rest \<longleftrightarrow> rest = [] \<or> hd rest \<in> {'','', '']'', ''}''}"

text \<open>The parser \<open>pv\<close> reads the text \<open>s\<close>, after blanks and before a delimiter, as \<open>j\<close>.\<close>

definition reads :: "(rchar list \<Rightarrow> (string + (JsonVal \<times> rchar list)) option) \<Rightarrow> string \<Rightarrow> JsonVal \<Rightarrow> bool" where
  "reads pv s j \<longleftrightarrow> utf8_string s \<and> s \<noteq> [] \<and> \<not> is_ascii_whitespace (hd (chars s)) \<and> hd (chars s) \<noteq> '']''
     \<and> (\<forall>w rest. list_all is_ascii_whitespace w \<and> stops rest \<longrightarrow> pv (w @ chars s @ rest) = Some (Inr (j, rest)))"

lemma readsD:
  "reads pv s j \<Longrightarrow> list_all is_ascii_whitespace w \<Longrightarrow> stops rest \<Longrightarrow> pv (w @ chars s @ rest) = Some (Inr (j, rest))"
  by (simp add: reads_def)

lemma skip_ws_all: "list_all is_ascii_whitespace w \<Longrightarrow> skip_ws (w @ cs) = skip_ws cs"
  by (induction w) (auto simp: skip_ws_def)

lemma skip_ws_stop: "\<not> is_ascii_whitespace c \<Longrightarrow> skip_ws (c # cs) = c # cs"
  by (simp add: skip_ws_def)

lemma skip_ws_hd: "cs \<noteq> [] \<Longrightarrow> \<not> is_ascii_whitespace (hd cs) \<Longrightarrow> skip_ws (cs @ r) = cs @ r"
  by (cases cs) (auto simp: skip_ws_def)

lemma utf8_join_with: "utf8_string sep \<Longrightarrow> list_all utf8_string ss \<Longrightarrow> utf8_string (join_with sep ss)"
  by (rule utf8_join) (auto simp: list_all_iff)

lemma utf8_sep [simp]: "utf8_string '', ''" "utf8_string '': ''" "utf8_string ''{''" "utf8_string ''}''" "utf8_string ''[''" "utf8_string '']''"
  by (simp_all add: utf8_string_ascii)

lemma join_chars:
  "utf8_string a \<Longrightarrow> chars (join_with '', '' (a # b # ss)) = chars a @ '','' # '' '' # chars (join_with '', '' (b # ss))"
  by (simp add: chars_append is_ascii_char_def)

lemma array_loop_reads:
  assumes "list_all (\<lambda>(s, j). reads pv s j) vs" "vs \<noteq> []" "length vs \<le> n" "list_all is_ascii_whitespace w"
  shows "array_loop n pv items (w @ chars (join_with '', '' (map fst vs)) @ '']'' # rest)
    = Some (Inr (JArray (items @ map snd vs), rest))"
  using assms
proof (induction vs arbitrary: n w items)
  case (Cons sj vs)
  obtain s j where sj: "sj = (s, j)" by fastforce
  obtain k where n: "n = Suc k" using Cons.prems(3) by (cases n) auto
  have r: "reads pv s j" "utf8_string s" using Cons.prems(1) sj by (auto simp: reads_def)
  show ?case
  proof (cases vs)
    case Nil
    have "pv (w @ chars s @ '']'' # rest) = Some (Inr (j, '']'' # rest))"
      using readsD [OF r(1) Cons.prems(4), of "'']'' # rest"] by (simp add: stops_def)
    then show ?thesis using Nil n sj by (simp add: skip_ws_stop jbump_def)
  next
    case (Cons tj us)
    let ?more = "'' '' # chars (join_with '', '' (map fst vs)) @ '']'' # rest"
    have "chars (join_with '', '' (map fst (sj # vs))) @ '']'' # rest = chars s @ '','' # ?more"
      using join_chars [OF r(2), of "fst tj" "map fst us"] Cons sj by simp
    moreover have "pv (w @ chars s @ '','' # ?more) = Some (Inr (j, '','' # ?more))"
      using readsD [OF r(1) Cons.prems(4), of "'','' # ?more"] by (simp add: stops_def)
    moreover have "array_loop k pv (items @ [j]) ?more = Some (Inr (JArray ((items @ [j]) @ map snd vs), rest))"
      using Cons.IH [of k "['' '']" "items @ [j]"] Cons.prems(1,3) Cons n by simp
    ultimately show ?thesis using n sj by (simp add: skip_ws_stop jbump_def)
  qed
qed simp

definition field_text :: "string \<times> string \<times> JsonVal \<Rightarrow> string" where
  "field_text f = json_field (fst f) (fst (snd f))"

definition field_val :: "string \<times> string \<times> JsonVal \<Rightarrow> string \<times> JsonVal" where
  "field_val f = (fst f, snd (snd f))"

definition field_reads :: "(rchar list \<Rightarrow> (string + (JsonVal \<times> rchar list)) option) \<Rightarrow> string \<times> string \<times> JsonVal \<Rightarrow> bool" where
  "field_reads pv f \<longleftrightarrow> utf8_string (fst f) \<and> reads pv (fst (snd f)) (snd (snd f))"

lemma parse_key_text:
  assumes "utf8_string k" "list_all is_ascii_whitespace w"
  shows "parse_key (w @ chars (json_str k) @ '':'' # cs) = Inr (k, cs)"
proof -
  have t: "chars (json_str k) = quote # escape (chars k) @ [quote]"
    using json_str_text [OF assms(1)] by (simp add: text_of_def)
  have "skip_ws (w @ chars (json_str k) @ '':'' # cs) = quote # escape (chars k) @ quote # '':'' # cs"
    using assms(2) by (simp add: skip_ws_all t skip_ws_stop)
  then show ?thesis
    by (simp add: parse_key_def parse_string_def jbump_def jstring_loop_escape skip_ws_stop)
qed

lemma utf8_json_str [simp]: "utf8_string k \<Longrightarrow> utf8_string (json_str k)"
  using json_str_text by (simp add: text_of_def)

lemma field_chars:
  "utf8_string k \<Longrightarrow> chars (json_field k b) = chars (json_str k) @ '':'' # '' '' # chars b"
  by (simp add: json_field_def chars_append is_ascii_char_def)

lemma field_utf8: "field_reads pv f \<Longrightarrow> utf8_string (field_text f)"
  unfolding field_text_def json_field_def
  by (intro utf8_append utf8_json_str utf8_sep) (simp_all add: field_reads_def reads_def)

lemma object_loop_reads:
  assumes "list_all (field_reads pv) fs" "fs \<noteq> []" "length fs \<le> n" "list_all is_ascii_whitespace w"
  shows "object_loop n pv m (w @ chars (join_with '', '' (map field_text fs)) @ ''}'' # rest)
    = Some (Inr (JObject (m @ map field_val fs), rest))"
  using assms
proof (induction fs arbitrary: n w m)
  case (Cons f fs)
  obtain k s j where f: "f = (k, s, j)" by (metis prod.collapse)
  obtain i where n: "n = Suc i" using Cons.prems(3) by (cases n) auto
  have r: "reads pv s j" "utf8_string k" and u: "utf8_string (field_text f)"
    using Cons.prems(1) f field_utf8 by (auto simp: field_reads_def)
  have fc: "chars (field_text f) = chars (json_str k) @ '':'' # '' '' # chars s"
    using field_chars [OF r(2)] f by (simp add: field_text_def)
  have key: "parse_key (w @ chars (json_str k) @ '':'' # cs) = Inr (k, cs)" for cs
    using parse_key_text [OF r(2) Cons.prems(4)] .
  have val: "pv ('' '' # chars s @ more) = Some (Inr (j, more))" if "stops more" for more
    using readsD [OF r(1) _ that, of "['' '']"] by simp
  show ?case
  proof (cases fs)
    case Nil
    then show ?thesis
      using n key val [of "''}'' # rest"] f fc
      by (simp add: skip_ws_stop jbump_def stops_def field_val_def)
  next
    case (Cons g us)
    let ?more = "'' '' # chars (join_with '', '' (map field_text fs)) @ ''}'' # rest"
    have "chars (join_with '', '' (map field_text (f # fs))) @ ''}'' # rest
        = chars (json_str k) @ '':'' # '' '' # chars s @ '','' # ?more"
      using join_chars [OF u, of "field_text g" "map field_text us"] Cons fc by simp
    moreover have "object_loop i pv (m @ [(k, j)]) ?more = Some (Inr (JObject ((m @ [(k, j)]) @ map field_val fs), rest))"
      using Cons.IH [of i "['' '']" "m @ [(k, j)]"] Cons.prems(1,3) Cons n by simp
    ultimately show ?thesis
      using n key val [of "'','' # ?more"] f by (simp add: skip_ws_stop jbump_def stops_def field_val_def)
  qed
qed simp

lemma chars_bracket: "is_ascii_char c \<Longrightarrow> utf8_string b \<Longrightarrow> chars ([c] @ b @ [d]) = [c] # chars b @ chars [d]"
  by (simp add: chars_append)

lemma length_join_with: "x \<in> set ss \<Longrightarrow> length x \<le> length (join_with sep ss)"
  by (induction sep ss rule: join_with.induct) auto

lemma length_join_count: "list_all (\<lambda>s. s \<noteq> []) ss \<Longrightarrow> length ss \<le> length (join_with sep ss)"
proof (induction sep ss rule: join_with.induct)
  case (3 sep s t ss)
  then show ?case by (cases s) auto
qed (auto simp: Suc_le_eq)

lemma array_reads:
  assumes "list_all (\<lambda>(s, j). reads (parse_value f) s j) vs" "length vs \<le> f"
  shows "reads (parse_value (Suc f)) (''['' @ join_with '', '' (map fst vs) @ '']'') (JArray (map snd vs))"
proof -
  let ?b = "join_with '', '' (map fst vs)"
  have u: "utf8_string ?b"
    using assms(1) by (intro utf8_join_with) (auto simp: list_all_iff reads_def)
  have ch: "chars (''['' @ ?b @ '']'') = ''['' # chars ?b @ ['']'']"
    using u by (simp add: chars_append is_ascii_char_def)
  have "parse_value (Suc f) (w @ chars (''['' @ ?b @ '']'') @ rest) = Some (Inr (JArray (map snd vs), rest))"
    if w: "list_all is_ascii_whitespace w" for w rest
  proof -
    have "skip_ws (w @ chars (''['' @ ?b @ '']'') @ rest) = ''['' # chars ?b @ '']'' # rest"
      unfolding ch using w by (simp add: skip_ws_all skip_ws_stop)
    then have p: "parse_value (Suc f) (w @ chars (''['' @ ?b @ '']'') @ rest)
        = parse_array f (parse_value f) (''['' # chars ?b @ '']'' # rest)"
      by (simp add: jpeek_def)
    show ?thesis
    proof (cases vs)
      case Nil
      then show ?thesis unfolding p by (simp add: parse_array_def jbump_def jpeek_def skip_ws_stop)
    next
      case (Cons v us)
      have v: "reads (parse_value f) (fst v) (snd v)" using assms(1) Cons by (auto simp: case_prod_beta)
      have hd: "chars ?b \<noteq> []" "hd (chars ?b) = hd (chars (fst v))"
        using v Cons by (cases us; auto simp: reads_def chars_append)+
      then have "skip_ws (chars ?b @ '']'' # rest) = chars ?b @ '']'' # rest"
        using v by (intro skip_ws_hd) (auto simp: reads_def)
      moreover have "jpeek (chars ?b @ '']'' # rest) \<noteq> Some '']''"
        using hd v by (cases "chars ?b") (auto simp: jpeek_def reads_def)
      ultimately show ?thesis
        unfolding p using array_loop_reads [of "parse_value f" vs f "[]" "[]" rest] assms Cons
        by (simp add: parse_array_def jbump_def del: join_with.simps)
    qed
  qed
  moreover have "utf8_string (''['' @ ?b @ '']'')" using u by (intro utf8_append) simp_all
  ultimately show ?thesis unfolding reads_def ch by simp
qed

lemma object_reads:
  assumes "list_all (field_reads (parse_value f)) fs" "length fs \<le> f"
  shows "reads (parse_value (Suc f)) (''{'' @ join_with '', '' (map field_text fs) @ ''}'') (JObject (map field_val fs))"
proof -
  let ?b = "join_with '', '' (map field_text fs)"
  have u: "utf8_string ?b"
    using assms(1) field_utf8 by (intro utf8_join_with) (auto simp: list_all_iff)
  have ch: "chars (''{'' @ ?b @ ''}'') = ''{'' # chars ?b @ [''}'']"
    using u by (simp add: chars_append is_ascii_char_def)
  have "parse_value (Suc f) (w @ chars (''{'' @ ?b @ ''}'') @ rest) = Some (Inr (JObject (map field_val fs), rest))"
    if w: "list_all is_ascii_whitespace w" for w rest
  proof -
    have "skip_ws (w @ chars (''{'' @ ?b @ ''}'') @ rest) = ''{'' # chars ?b @ ''}'' # rest"
      unfolding ch using w by (simp add: skip_ws_all skip_ws_stop)
    then have p: "parse_value (Suc f) (w @ chars (''{'' @ ?b @ ''}'') @ rest)
        = parse_object f (parse_value f) (''{'' # chars ?b @ ''}'' # rest)"
      by (simp add: jpeek_def)
    show ?thesis
    proof (cases fs)
      case Nil
      then show ?thesis unfolding p by (simp add: parse_object_def jbump_def jpeek_def skip_ws_stop)
    next
      case (Cons g us)
      have fr: "field_reads (parse_value f) g" using assms(1) Cons by simp
      have g: "utf8_string (fst g)" "utf8_string (field_text g)"
        using fr field_utf8 [OF fr] by (simp_all add: field_reads_def)
      have "hd (chars (field_text g)) = quote" "chars (field_text g) \<noteq> []"
        using field_chars [OF g(1)] json_str_text [OF g(1)] by (simp_all add: field_text_def text_of_def)
      then have hd: "chars ?b \<noteq> []" "hd (chars ?b) = quote"
        using g Cons by (cases us; auto simp: chars_append)+
      then have "skip_ws (chars ?b @ ''}'' # rest) = chars ?b @ ''}'' # rest" by (intro skip_ws_hd) auto
      moreover have "jpeek (chars ?b @ ''}'' # rest) \<noteq> Some ''}''"
        using hd by (cases "chars ?b") (auto simp: jpeek_def)
      ultimately show ?thesis
        unfolding p using object_loop_reads [of "parse_value f" fs f "[]" "[]" rest] assms Cons
        by (simp add: parse_object_def jbump_def del: join_with.simps)
    qed
  qed
  moreover have "utf8_string (''{'' @ ?b @ ''}'')" using u by (intro utf8_append) simp_all
  ultimately show ?thesis unfolding reads_def ch by simp
qed

section \<open>Values\<close>

fun key_safe :: "Scalar \<Rightarrow> bool" where
  "key_safe (Float bits) = False"
| "key_safe (String s) = (utf8_string s \<and> s \<notin> {''null'', ''true'', ''false''}
     \<and> strip_prefix ''f:'' s = None \<and> strip_prefix ''b:'' s = None \<and> \<not> is_ok (parse_i64 s))"
| "key_safe _ = True"

fun json_safe :: "Value \<Rightarrow> bool" where
  "json_safe (Scalar s) = (case s of Float _ \<Rightarrow> False | String s \<Rightarrow> utf8_string s | _ \<Rightarrow> True)"
| "json_safe (Hash m) = (bt_sorted m \<and> (\<forall>(k, v) \<in> set m. utf8_string k \<and> json_safe v))"
| "json_safe (Set items) = (\<forall>v \<in> set items. json_safe v)"
| "json_safe (List items) = (\<forall>v \<in> set items. json_safe v)"
| "json_safe (Tree m) = (bt_sorted m \<and> (\<forall>(k, v) \<in> set m. key_safe k \<and> json_safe v))"

text \<open>The JSON tree that the text of a value denotes.\<close>

fun value_json :: "Value \<Rightarrow> JsonVal" where
  "value_json (Scalar Null) = JNull"
| "value_json (Scalar (Bool b)) = JBool b"
| "value_json (Scalar (IntV n)) = JNumber n"
| "value_json (Scalar (Float f)) = JFloat f"
| "value_json (Scalar (String s)) = JString s"
| "value_json (Scalar (Bytes b)) = JObject [(''__bytes'', JString (hex_encode_bytes b))]"
| "value_json (Hash m) = JObject [(''__hash'', JObject (map (\<lambda>(k, v). (k, value_json v)) m))]"
| "value_json (Set items) = JObject [(''__set'', JArray (map value_json items))]"
| "value_json (List items) = JArray (map value_json items)"
| "value_json (Tree m) = JObject [(''__tree'', JObject (map (\<lambda>(k, v). (scalar_key_str k, value_json v)) m))]"

lemma utf8_ascii: "list_all is_ascii_char s \<Longrightarrow> utf8_string s"
  by (simp add: utf8_string_ascii is_ascii_char_def [abs_def])

lemma show_int_ascii: "list_all is_ascii_char (show_int i)"
proof -
  have "list_all is_ascii_char (show_nat n)" for n
    by (auto simp: list_all_iff is_ascii_char_def dest!: show_nat_digits)
  then show ?thesis by (simp add: show_int_def) (simp add: is_ascii_char_def)
qed

lemma show_bool_ascii: "list_all is_ascii_char (show_bool b)"
  by (simp add: show_bool_def is_ascii_char_def)

lemma hex_ascii: "list_all is_ascii_char (hex_encode_bytes b)"
proof -
  have d: "is_ascii_char (digit_char d)" if "d < 16" for d
    using that by (simp add: is_ascii_char_def digit_char_def)
  have "unat x div 16 < 16" for x :: u8
    using unat_u8_less [of x] by (intro div_less_iff_less_mult [THEN iffD2]) simp_all
  then show ?thesis
    by (auto simp: list_all_iff hex_encode_bytes_def show_hex02_def d)
qed

lemma key_text_utf8: "key_safe k \<Longrightarrow> utf8_string (scalar_key_str k)"
  by (cases k) (auto simp: show_int_ascii show_bool_ascii hex_ascii utf8_ascii is_ascii_char_def
      intro!: utf8_ascii utf8_append)

lemma parse_number_text:
  assumes "stops rest"
  shows "parse_number (chars (show_int (sint n)) @ rest) = Inr (JNumber n, rest)"
proof -
  let ?neg = "sint n < 0" and ?ds = "show_nat (nat \<bar>sint n\<bar>)"
  have sh: "show_int (sint n) = (if ?neg then ''-'' else []) @ ?ds" by (simp add: show_int_def)
  have ch: "chars (show_int (sint n)) = (if ?neg then [''-''] else []) @ map (\<lambda>c. [c]) ?ds"
    using chars_ascii [OF show_int_ascii, of "sint n"] by (simp add: sh)
  have all: "list_all is_ascii_digit (map (\<lambda>c. [c]) ?ds)"
    by (auto simp: list_all_iff dest: show_nat_digits simp del: is_ascii_digit.simps)
  have tw: "takeWhile is_ascii_digit (map (\<lambda>c. [c]) ?ds @ rest) = map (\<lambda>c. [c]) ?ds"
      "dropWhile is_ascii_digit (map (\<lambda>c. [c]) ?ds @ rest) = rest"
    using takeWhile_stop [OF all, of "hd rest" "tl rest"] all assms
    by (cases rest; auto simp: stops_def list_all_iff)+
  have dot: "jpeek rest \<noteq> Some ''.''" using assms by (cases rest) (auto simp: stops_def jpeek_def)
  have sg: "jpeek (chars (show_int (sint n)) @ rest) = Some ''-'' \<longleftrightarrow> ?neg"
  proof (cases ?neg)
    case False
    obtain d ds where d: "?ds = d # ds" by (cases ?ds) auto
    have "is_ascii_digit [d]" using hd_show_nat [of "nat \<bar>sint n\<bar>"] d by simp
    then show ?thesis using False d ch by (auto simp: jpeek_def)
  qed (simp add: ch jpeek_def)
  have tx: "concat ((if ?neg then [''-''] else []) @ map (\<lambda>c. [c]) ?ds) = show_int (sint n)" by (simp add: sh)
  show ?thesis
    unfolding parse_number_def sg using tw dot tx by (cases ?neg) (simp_all add: ch Let_def)
qed

text \<open>A text that starts with the given character and that \<open>parse_value\<close> reads with \<open>p\<close>.\<close>

lemma reads_atom:
  assumes "utf8_string s" "chars s = c # cs" "\<not> is_ascii_whitespace c" "c \<noteq> '']''"
    and "\<And>rest. stops rest \<Longrightarrow> parse_value (Suc f) (chars s @ rest) = Some (Inr (j, rest))"
  shows "reads (parse_value (Suc f)) s j"
proof -
  have "parse_value (Suc f) (w @ chars s @ rest) = parse_value (Suc f) (chars s @ rest)"
    if "list_all is_ascii_whitespace w" for w rest
    using that assms(2,3) by (simp add: skip_ws_all skip_ws_stop)
  then show ?thesis using assms by (auto simp: reads_def simp del: parse_value.simps)
qed

lemma reads_null: "reads (parse_value (Suc f)) ''null'' JNull"
  by (rule reads_atom [where c = "''n''"])
    (simp_all add: utf8_string_ascii is_ascii_char_def skip_ws_stop jpeek_def parse_null_def chars_start_def)

lemma reads_bool: "reads (parse_value (Suc f)) (show_bool b) (JBool b)"
  by (cases b; rule reads_atom [where c = "if b then ''t'' else ''f''"])
    (simp_all add: show_bool_def utf8_string_ascii is_ascii_char_def skip_ws_stop jpeek_def parse_bool_def chars_start_def)

lemma reads_int: "reads (parse_value (Suc f)) (show_int (sint n)) (JNumber n)"
proof -
  let ?c = "hd (show_int (sint n))"
  have c: "?c = CHR ''-'' \<or> is_ascii_digit [?c]"
    using hd_show_nat by (simp add: show_int_def)
  have ch: "chars (show_int (sint n)) = [?c] # map (\<lambda>c. [c]) (tl (show_int (sint n)))"
    using chars_ascii [OF show_int_ascii] by (metis hd_Cons_tl list.simps(9) show_int_ne)
  show ?thesis
  proof (rule reads_atom [OF utf8_ascii [OF show_int_ascii] ch])
    show "\<not> is_ascii_whitespace [?c]" "[?c] \<noteq> '']''" using c by auto
    fix rest assume r: "stops rest"
    have "\<not> is_ascii_whitespace [?c]" "?c \<notin> set ''ntf[{'' \<and> ?c \<noteq> dquote" using c by auto
    then show "parse_value (Suc f) (chars (show_int (sint n)) @ rest) = Some (Inr (JNumber n, rest))"
      using parse_number_text [OF r, of n] c
      by (auto simp: ch skip_ws_stop jpeek_def simp del: is_ascii_whitespace.simps is_ascii_digit.simps)
  qed
qed

lemma reads_string:
  assumes "utf8_string s"
  shows "reads (parse_value (Suc f)) (json_str s) (JString s)"
proof -
  have ch: "chars (json_str s) = quote # escape (chars s) @ [quote]"
    using json_str_text [OF assms] by (simp add: text_of_def)
  show ?thesis
    by (rule reads_atom [OF utf8_json_str [OF assms] ch])
      (simp_all add: ch skip_ws_stop jpeek_def parse_string_def jbump_def jstring_loop_escape)
qed

lemma length_json_str: "2 \<le> length (json_str s)"
  by (simp add: json_str_def)

lemma tagged_field: "list_all (\<lambda>c. c \<noteq> dquote \<and> c \<noteq> bslash) tag \<Longrightarrow> json_tagged tag body = ''{'' @ json_field tag body @ ''}''"
proof -
  assume "list_all (\<lambda>c. c \<noteq> dquote \<and> c \<noteq> bslash) tag"
  then have "dquote \<notin> set tag" "bslash \<notin> set tag" by (auto simp: list_all_iff)
  then show ?thesis by (simp add: json_tagged_def json_field_def json_str_def str_replace_other)
qed

lemma tagged_reads:
  assumes "reads (parse_value f) body j" "0 < f" "tag \<in> {''__hash'', ''__set'', ''__tree'', ''__dir''}"
  shows "reads (parse_value (Suc f)) (json_tagged tag body) (JObject [(tag, j)])"
proof -
  have "list_all (\<lambda>c. c \<noteq> dquote \<and> c \<noteq> bslash) tag" "utf8_string tag"
    using assms(3) by (auto simp: utf8_string_ascii)
  then show ?thesis
    using object_reads [of f "[(tag, body, j)]"] assms(1,2)
    by (simp add: tagged_field field_reads_def field_text_def field_val_def)
qed

lemma bytes_reads:
  assumes "0 < f"
  shows "reads (parse_value (Suc f)) (value_to_json (Scalar (Bytes b))) (JObject [(''__bytes'', JString (hex_encode_bytes b))])"
proof -
  let ?h = "hex_encode_bytes b" and ?t = "value_to_json (Scalar (Bytes b))"
  have u: "utf8_string ?h" by (rule utf8_ascii [OF hex_ascii])
  have k: "utf8_string ''__bytes''" by (simp add: utf8_string_ascii)
  have t: "?t = ''{'' @ json_str ''__bytes'' @ '':'' @ json_str ?h @ ''}''"
    by (simp add: json_str_def [of "''__bytes''"] str_replace_other)
  have ut: "utf8_string ?t" unfolding t using u k by (intro utf8_append) (simp_all add: utf8_string_ascii)
  have ch: "chars ?t = ''{'' # chars (json_str ''__bytes'') @ '':'' # chars (json_str ?h) @ [''}'']"
    unfolding t using u k by (simp add: chars_append is_ascii_char_def)
  obtain g where f: "f = Suc g" using assms by (cases f) auto
  have q: "skip_ws (chars (json_str ''__bytes'') @ cs) = chars (json_str ''__bytes'') @ cs"
      "jpeek (chars (json_str ''__bytes'') @ cs) = Some quote" for cs
    using json_str_text [OF k] by (simp_all add: text_of_def skip_ws_stop jpeek_def)
  have v: "parse_value f (chars (json_str ?h) @ ''}'' # rest) = Some (Inr (JString ?h, ''}'' # rest))" for rest
    using readsD [OF reads_string [OF u, of g], of "[]" "''}'' # rest"] f by (simp add: stops_def)
  show ?thesis
  proof (rule reads_atom [OF ut ch])
    fix rest
    let ?in = "chars (json_str ''__bytes'') @ '':'' # chars (json_str ?h) @ ''}'' # rest"
    have "parse_value (Suc f) (chars ?t @ rest) = parse_object f (parse_value f) (''{'' # ?in)"
      unfolding ch by (simp add: skip_ws_stop jpeek_def)
    also have "\<dots> = object_loop f (parse_value f) [] ?in"
      using q by (simp add: parse_object_def jbump_def)
    also have "\<dots> = object_loop (Suc g) (parse_value f) [] ?in" using f by simp
    also have "\<dots> = Some (Inr (JObject [(''__bytes'', JString ?h)], rest))"
      using parse_key_text [OF k, of "[]"] v by (simp add: skip_ws_stop jbump_def)
    finally show "parse_value (Suc f) (chars ?t @ rest) = Some (Inr (JObject [(''__bytes'', JString ?h)], rest))" .
  qed simp_all
qed

section \<open>Readable texts\<close>

text \<open>With fuel for every character of it, the text is read as \<open>j\<close>.\<close>

definition readable :: "string \<Rightarrow> JsonVal \<Rightarrow> bool" where
  "readable s j \<longleftrightarrow> s \<noteq> [] \<and> (\<forall>f. length s \<le> f \<longrightarrow> reads (parse_value f) s j)"

declare parse_value.simps(2) [simp del]

lemma readableI:
  assumes "s \<noteq> []" "\<And>f. length s \<le> Suc f \<Longrightarrow> reads (parse_value (Suc f)) s j"
  shows "readable s j"
  unfolding readable_def
proof (intro conjI allI impI)
  fix f assume "length s \<le> f"
  then show "reads (parse_value f) s j" using assms by (cases f) auto
qed (rule assms(1))

lemma text_ne [simp]: "show_bool b \<noteq> []" "json_str s \<noteq> []"
  by (simp_all add: show_bool_def json_str_def)

lemma readable_scalar: "json_safe (Scalar s) \<Longrightarrow> readable (value_to_json (Scalar s)) (value_json (Scalar s))"
proof (cases s)
  case (Bytes b)
  show ?thesis
    unfolding Bytes
  proof (rule readableI)
    fix f assume "length (value_to_json (Scalar (Bytes b))) \<le> Suc f"
    then have "0 < f" by (cases f) auto
    then show "reads (parse_value (Suc f)) (value_to_json (Scalar (Bytes b))) (value_json (Scalar (Bytes b)))"
      using bytes_reads by (simp del: value_to_json.simps)
  qed simp
qed (auto intro!: readableI simp: reads_null reads_bool reads_int reads_string)

lemma readable_object:
  assumes "\<And>k s j. (k, s, j) \<in> set fs \<Longrightarrow> utf8_string k \<and> readable s j"
  shows "readable (''{'' @ join_with '', '' (map field_text fs) @ ''}'') (JObject (map field_val fs))"
proof (rule readableI)
  fix f assume len: "length (''{'' @ join_with '', '' (map field_text fs) @ ''}'') \<le> Suc f"
  let ?b = "join_with '', '' (map field_text fs)"
  have "length (map field_text fs) \<le> length ?b"
    by (rule length_join_count) (auto simp: list_all_iff field_text_def json_field_def)
  then have c: "length fs \<le> f" using len by simp
  have "field_reads (parse_value f) x" if h: "x \<in> set fs" for x
  proof -
    have x: "x = (fst x, fst (snd x), snd (snd x))" by simp
    have "length (field_text x) \<le> length ?b" using h by (intro length_join_with) auto
    then have "length (fst (snd x)) \<le> f" using len by (simp add: field_text_def json_field_def)
    then show ?thesis using assms [of "fst x" "fst (snd x)" "snd (snd x)"] h x by (simp add: field_reads_def readable_def)
  qed
  then show "reads (parse_value (Suc f)) (''{'' @ ?b @ ''}'') (JObject (map field_val fs))"
    using object_reads [OF _ c] by (simp add: list_all_iff)
qed simp

lemma readable_array:
  assumes "\<And>s j. (s, j) \<in> set vs \<Longrightarrow> readable s j"
  shows "readable (''['' @ join_with '', '' (map fst vs) @ '']'') (JArray (map snd vs))"
proof (rule readableI)
  fix f assume len: "length (''['' @ join_with '', '' (map fst vs) @ '']'') \<le> Suc f"
  let ?b = "join_with '', '' (map fst vs)"
  have "length (map fst vs) \<le> length ?b"
    by (rule length_join_count) (use assms in \<open>auto simp: list_all_iff readable_def\<close>)
  then have c: "length vs \<le> f" using len by simp
  have "reads (parse_value f) s j" if h: "(s, j) \<in> set vs" for s j
  proof -
    have "length s \<le> length ?b" using h by (intro length_join_with) force
    then show ?thesis using assms [OF h] len by (simp add: readable_def)
  qed
  then show "reads (parse_value (Suc f)) (''['' @ ?b @ '']'') (JArray (map snd vs))"
    using array_reads [OF _ c] by (auto simp: list_all_iff)
qed simp

lemma readable_tagged:
  assumes "readable body j" "tag \<in> {''__hash'', ''__set'', ''__tree'', ''__dir''}"
  shows "readable (json_tagged tag body) (JObject [(tag, j)])"
proof (rule readableI)
  fix f assume "length (json_tagged tag body) \<le> Suc f"
  then have "0 < f" "reads (parse_value f) body j" using assms(1) by (auto simp: json_tagged_def readable_def)
  then show "reads (parse_value (Suc f)) (json_tagged tag body) (JObject [(tag, j)])"
    using tagged_reads assms(2) by blast
qed (simp add: json_tagged_def)

lemma readable_value: "json_safe v \<Longrightarrow> readable (value_to_json v) (value_json v)"
proof (induction v)
  case (Scalar s)
  then show ?case by (rule readable_scalar)
next
  case (Hash m)
  have "readable (''{'' @ join_with '', '' (map field_text (map (\<lambda>(k, v). (k, value_to_json v, value_json v)) m)) @ ''}'')
      (JObject (map field_val (map (\<lambda>(k, v). (k, value_to_json v, value_json v)) m)))"
    by (rule readable_object) (use Hash in fastforce)
  from readable_tagged [OF this] show ?case
    by (simp add: field_text_def field_val_def case_prod_unfold comp_def)
next
  case (Set items)
  have "readable (''['' @ join_with '', '' (map fst (map (\<lambda>v. (value_to_json v, value_json v)) items)) @ '']'')
      (JArray (map snd (map (\<lambda>v. (value_to_json v, value_json v)) items)))"
    by (rule readable_array) (use Set in auto)
  from readable_tagged [OF this] show ?case by (simp add: comp_def)
next
  case (List items)
  have "readable (''['' @ join_with '', '' (map fst (map (\<lambda>v. (value_to_json v, value_json v)) items)) @ '']'')
      (JArray (map snd (map (\<lambda>v. (value_to_json v, value_json v)) items)))"
    by (rule readable_array) (use List in auto)
  then show ?case by (simp add: comp_def)
next
  case (Tree m)
  have "readable (''{'' @ join_with '', '' (map field_text (map (\<lambda>(k, v). (scalar_key_str k, value_to_json v, value_json v)) m)) @ ''}'')
      (JObject (map field_val (map (\<lambda>(k, v). (scalar_key_str k, value_to_json v, value_json v)) m)))"
    by (rule readable_object) (use Tree key_text_utf8 in fastforce)
  from readable_tagged [OF this] show ?case
    by (simp add: field_text_def field_val_def case_prod_unfold comp_def)
qed

lemma parse_json_readable:
  assumes "readable s j" "length s \<le> fuel"
  shows "parse_json_value fuel s = Some (Inr j)"
proof -
  have "reads (parse_value fuel) s j" using assms by (simp add: readable_def)
  from readsD [OF this, of "[]" "[]"] show ?thesis by (simp add: parse_json_value_def stops_def skip_ws_def)
qed

section \<open>Converting back\<close>

lemma hex_digit:
  "d < 16 \<Longrightarrow> from_hex (digit_char d) = Inr (word_of_nat d)"
proof -
  assume d: "d < 16"
  have "of_char (digit_char d) = (if d < 10 then 48 + d else 87 + d :: nat)" using d by (simp add: digit_char_def)
  then show ?thesis using d by (auto simp: from_hex_def)
qed

lemma nibbles: "or (push_bit 4 (word_of_nat (unat x div 16))) (word_of_nat (unat x mod 16)) = (x :: u8)"
proof (rule bit_word_eqI)
  fix n assume n: "n < LENGTH(8)"
  have "bit (unat x div 16) k = bit (unat x) (k + 4)" for k
    using bit_drop_bit_eq [of 4 "unat x"] by (simp add: drop_bit_eq_div fun_eq_iff add.commute)
  moreover have "bit (unat x mod 16) k = (k < 4 \<and> bit (unat x) k)" for k
    using bit_take_bit_iff [of 4 "unat x" k] by (simp add: take_bit_eq_mod)
  ultimately show "bit (or (push_bit 4 (word_of_nat (unat x div 16))) (word_of_nat (unat x mod 16)) :: u8) n = bit x n"
    using n by (auto simp: bit_or_iff bit_push_bit_iff bit_of_nat_iff possible_bit_word bit_unsigned_iff not_less)
qed

lemma hex_pairs_encode: "hex_pairs (hex_encode_bytes b) out = Inr (out @ b)"
proof (induction b arbitrary: out)
  case (Cons x b)
  have "unat x div 16 < 16" using unat_u8_less [of x] by (intro div_less_iff_less_mult [THEN iffD2]) simp_all
  then show ?case using Cons nibbles [of x] by (simp add: hex_encode_bytes_def show_hex02_def hex_digit)
qed (simp add: hex_encode_bytes_def)

lemma hex_roundtrip: "hex_decode_bytes (hex_encode_bytes b) = Inr b"
proof -
  have "length (hex_encode_bytes b) = 2 * length b"
    by (induction b) (simp_all add: hex_encode_bytes_def show_hex02_def)
  then show ?thesis using hex_pairs_encode [of b "[]"] by (simp add: hex_decode_bytes_def)
qed

lemma key_roundtrip: "key_safe k \<Longrightarrow> parse_scalar_key (scalar_key_str k) = Inr k"
proof (cases k)
  case (IntV n)
  have h: "hd (show_int (sint n)) = CHR ''-'' \<or> is_ascii_digit [hd (show_int (sint n))]"
    using hd_show_nat by (simp add: show_int_def)
  then have "hd (show_int (sint n)) \<notin> set ''ntfb''" by auto
  then have "show_int (sint n) \<noteq> ''null''" "show_int (sint n) \<noteq> ''true''" "show_int (sint n) \<noteq> ''false''"
      "strip_prefix ''f:'' (show_int (sint n)) = None" "strip_prefix ''b:'' (show_int (sint n)) = None"
    by (auto simp: strip_prefix_def starts_with_iff)
  then show ?thesis using IntV by (simp add: parse_scalar_key_def)
next
  case (Bytes b)
  then show ?thesis
    by (simp add: parse_scalar_key_def strip_prefix_def starts_with_def hex_roundtrip)
qed (auto simp: parse_scalar_key_def show_bool_def is_ok_def split: sum.splits)

lemma hash_back:
  "\<forall>(k, v) \<in> set m. json_to_value (value_json v) = Inr v \<Longrightarrow>
   json_to_hash (map (\<lambda>(k, v). (k, value_json v)) m) acc = Inr (fold (\<lambda>(k, v). bt_insert k v) m acc)"
  by (induction m arbitrary: acc) auto

lemma tree_back:
  "\<forall>(k, v) \<in> set m. key_safe k \<and> json_to_value (value_json v) = Inr v \<Longrightarrow>
   json_to_tree (map (\<lambda>(k, v). (scalar_key_str k, value_json v)) m) acc = Inr (fold (\<lambda>(k, v). bt_insert k v) m acc)"
  by (induction m arbitrary: acc) (auto simp: key_roundtrip)

lemma values_back: "\<forall>v \<in> set vs. json_to_value (value_json v) = Inr v \<Longrightarrow> json_to_values (map value_json vs) = Inr vs"
  by (induction vs) auto

lemma value_back: "json_safe v \<Longrightarrow> json_to_value (value_json v) = Inr v"
proof (induction v)
  case (Scalar s)
  then show ?case by (cases s) (simp_all add: value_ctor_defs hex_roundtrip)
next
  case (Hash m)
  have "\<forall>(k, v) \<in> set m. json_to_value (value_json v) = Inr v" using Hash by fastforce
  from hash_back [OF this, of "[]"] show ?case using Hash.prems by (simp add: fold_bt_insert_rebuild)
next
  case (Set items)
  then show ?case by (simp add: values_back)
next
  case (List items)
  then show ?case by (simp add: values_back)
next
  case (Tree m)
  have "\<forall>(k, v) \<in> set m. key_safe k \<and> json_to_value (value_json v) = Inr v" using Tree by fastforce
  from tree_back [OF this, of "[]"] show ?case using Tree.prems by (simp add: fold_bt_insert_rebuild)
qed

end
