(* ===== verification/Json_Theorems.thy ===== *)
theory Json_Theorems
  imports Json_Text Ns_Walk
begin

text \<open>
  Export and import of a whole database: exporting never fails on a well-formed store, and importing
  the text into an empty database restores the same tree.
\<close>

section \<open>The JSON of a tree\<close>

inductive json_of :: "ns_tree \<Rightarrow> string list \<Rightarrow> JsonVal \<Rightarrow> bool" for t where
  json_of_value: "t p = Some (ValN v) \<Longrightarrow> json_safe v \<Longrightarrow> json_of t p (value_json v)"
| json_of_dir: "t p = Some DirN \<Longrightarrow> distinct (map fst kids) \<Longrightarrow> fst ` set kids = {x. t (p @ [x]) \<noteq> None} \<Longrightarrow>
    (\<And>kid. kid \<in> set kids \<Longrightarrow> json_of t (p @ [fst kid]) (snd kid)) \<Longrightarrow> json_of t p (JObject [(''__dir'', JObject kids)])"

inductive_cases json_of_dirE: "json_of t p (JObject [(''__dir'', JObject kids)])"

definition tree_safe :: "ns_tree \<Rightarrow> bool" where
  "tree_safe t \<longleftrightarrow> (\<forall>p v. t p = Some (ValN v) \<longrightarrow> json_safe v)"

context storage
begin

lemma export_children_tree:
  assumes visit: "\<And>x. x \<in> set xs \<Longrightarrow>
      \<exists>body j. visit (DbPath (p @ [x])) = Some (Inr body) \<and> readable body j \<and> json_of t (p @ [x]) j"
    and join: "\<And>x. x \<in> set xs \<Longrightarrow> path_join (DbPath p) x = Inr (DbPath (p @ [x]))"
  shows "map fst names = xs \<Longrightarrow>
    \<exists>fs. map fst fs = xs \<and> export_children visit (DbPath p) names parts = Some (Inr (parts @ map field_text fs))
       \<and> (\<forall>(k, body, j) \<in> set fs. readable body j \<and> json_of t (p @ [k]) j)"
  using assms
proof (induction names arbitrary: xs parts)
  case (Cons nk names)
  obtain x k where nk: "nk = (x, k)" by fastforce
  then obtain ys where xs: "xs = x # ys" "map fst names = ys" using Cons.prems(1) by auto
  obtain body j where v: "visit (DbPath (p @ [x])) = Some (Inr body)" "readable body j" "json_of t (p @ [x]) j"
    using Cons.prems(2) [of x] xs(1) by auto
  obtain fs where fs: "map fst fs = ys"
      "export_children visit (DbPath p) names (parts @ [json_field x body]) = Some (Inr ((parts @ [json_field x body]) @ map field_text fs))"
      "\<forall>(k, body, j) \<in> set fs. readable body j \<and> json_of t (p @ [k]) j"
    using Cons.IH [OF xs(2), of "parts @ [json_field x body]"] Cons.prems(2,3) xs(1) by auto
  have "map fst ((x, body, j) # fs) = xs
      \<and> export_children visit (DbPath p) (nk # names) parts = Some (Inr (parts @ map field_text ((x, body, j) # fs)))
      \<and> (\<forall>(k, body, j) \<in> set ((x, body, j) # fs). readable body j \<and> json_of t (p @ [k]) j)"
    using fs v nk xs Cons.prems(3) by (simp add: field_text_def)
  then show ?case by blast
qed auto

lemma export_node_tree:
  assumes i: "invar s" and T: "ns_rep T n (bt_get (view s))" and safe: "tree_safe (abs_tree T)"
  shows "T p \<noteq> None \<Longrightarrow> \<forall>q \<in> subtree T p. length q < length p + fuel \<Longrightarrow>
    \<exists>body j. export_node fuel S s (DbPath p) = Some (Inr body) \<and> readable body j \<and> json_of (abs_tree T) p j"
proof (induction fuel arbitrary: p)
  case 0
  then show ?case by (auto simp: subtree_def)
next
  case (Suc fuel)
  have tr: "tree_ok T" and st: "stores (abs_tree T) n (bt_get (view s))" and g: "graph_rep T (bt_get (view s))"
    using T ns_rep_parts(1) ns_rep_graph by (auto simp: stores_def)
  obtain k nd where k: "T p = Some (k, nd)" using Suc.prems(1) by auto
  then have a: "abs_tree T p = Some nd" by (auto simp: abs_tree_Some)
  have get: "db_get S s (DbPath p) = Inr (spec_entry (DbPath p) nd)"
    using a by (simp add: db_get_tree [OF i st] spec_get_def)
  show ?case
  proof (cases nd)
    case DirN
    obtain names where l: "db_list S s (DbPath p) = Inr names" "sorted_wrt (<) (map fst names)"
        "\<And>x kd. (x, kd) \<in> set names \<longleftrightarrow> (\<exists>j nd. T (p @ [x]) = Some (j, nd) \<and> kd = node_kind nd)"
      using db_list_graph [OF i g, of "DbPath p" k] k DirN by auto
    have cs: "set (map fst names) = {x. T (p @ [x]) \<noteq> None}" using l(3) by force
    have ok: "path_ok (p @ [x])" if h: "x \<in> set (map fst names)" for x
    proof -
      obtain r where "T (p @ [x]) = Some r" using h cs by blast
      then show ?thesis using tree_node [OF tr] by (cases r) blast
    qed
    then have join: "path_join (DbPath p) x = Inr (DbPath (p @ [x]))" if "x \<in> set (map fst names)" for x
      using that by (simp add: path_ok_def wf_path_def wf_segment_def path_join_def)
    have visit: "\<exists>body j. export_node fuel S s (DbPath (p @ [x])) = Some (Inr body) \<and> readable body j \<and> json_of (abs_tree T) (p @ [x]) j"
      if h: "x \<in> set (map fst names)" for x
    proof (rule Suc.IH)
      show "T (p @ [x]) \<noteq> None" using h cs by blast
      show "\<forall>q \<in> subtree T (p @ [x]). length q < length (p @ [x]) + fuel"
        using Suc.prems(2) by (auto simp: subtree_def)
    qed
    note ec = export_children_tree [where visit = "export_node fuel S s" and p = p and t = "abs_tree T"
        and names = names and xs = "map fst names" and parts = "[]"]
    obtain fs where fs: "map fst fs = map fst names"
        "export_children (export_node fuel S s) (DbPath p) names [] = Some (Inr (map field_text fs))"
        "\<forall>(k, body, j) \<in> set fs. readable body j \<and> json_of (abs_tree T) (p @ [k]) j"
      using ec visit join by (auto simp del: set_map)
    let ?body = "json_tagged ''__dir'' (''{'' @ join_with '', '' (map field_text fs) @ ''}'')"
    have "utf8_string k" if "k \<in> set (map fst fs)" for k
      using that ok [of k] fs(1) by (simp add: path_ok_def utf8_path_def)
    then have "readable (''{'' @ join_with '', '' (map field_text fs) @ ''}'') (JObject (map field_val fs))"
      using fs(3) by (intro readable_object) force
    then have "readable ?body (JObject [(''__dir'', JObject (map field_val fs))])" by (intro readable_tagged) simp_all
    moreover have "json_of (abs_tree T) p (JObject [(''__dir'', JObject (map field_val fs))])"
    proof (rule json_of_dir)
      have f: "map fst (map field_val fs) = map fst names" using fs(1) by (simp add: field_val_def comp_def)
      then show "distinct (map fst (map field_val fs))" using l(2) by (simp add: strict_sorted_iff)
      show "fst ` set (map field_val fs) = {x. abs_tree T (p @ [x]) \<noteq> None}"
        using arg_cong [OF f, of set] cs by (simp add: image_image)
      show "json_of (abs_tree T) (p @ [fst kid]) (snd kid)" if "kid \<in> set (map field_val fs)" for kid
        using that fs(3) by (auto simp: field_val_def)
    qed (use a DirN in simp)
    moreover have "export_node (Suc fuel) S s (DbPath p) = Some (Inr ?body)"
      using get l(1) fs(2) DirN by (simp add: spec_entry_def)
    ultimately show ?thesis by blast
  next
    case (ValN v)
    then have "json_safe v" using safe a by (auto simp: tree_safe_def)
    then show ?thesis using get a ValN json_of_value [of "abs_tree T" p v] readable_value
      by (auto simp: spec_entry_def)
  qed
qed

end

section \<open>Import\<close>

lemma not_last_id: "unat (n :: u64) + c < 2 ^ 64 \<Longrightarrow> 0 < c \<Longrightarrow> n \<noteq> - 1"
  using unat_minus_1 by auto

text \<open>The tree \<open>u\<close> with the part of \<open>t\<close> at and below \<open>p\<close> put in.\<close>

definition graft :: "ns_tree \<Rightarrow> string list \<Rightarrow> ns_tree \<Rightarrow> ns_tree" where
  "graft t p u = (\<lambda>q. if \<exists>r. q = p @ r then t q else u q)"

definition grafts :: "ns_tree \<Rightarrow> string list \<Rightarrow> string list \<Rightarrow> ns_tree \<Rightarrow> ns_tree" where
  "grafts t p xs u = (\<lambda>q. if \<exists>x \<in> set xs. \<exists>r. q = p @ x # r then t q else u q)"

lemma grafts_Nil [simp]: "grafts t p [] u = u"
  by (simp add: grafts_def)

lemma grafts_Cons: "grafts t p (x # xs) u = grafts t p xs (graft t (p @ [x]) u)"
  by (auto simp: grafts_def graft_def fun_eq_iff)

lemma grafts_all:
  assumes tr: "tree_ok T" and t: "t = abs_tree T" and p: "t p = Some DirN"
    and xs: "set xs = {x. t (p @ [x]) \<noteq> None}" and u: "\<And>x r. u (p @ x # r) = None"
  shows "grafts t p xs (u(p \<mapsto> DirN)) = graft t p u"
proof
  fix q
  consider "q = p" | x r where "q = p @ x # r" "x \<in> set xs" | x r where "q = p @ x # r" "x \<notin> set xs" | "\<nexists>r. q = p @ r"
    by (metis append_Nil2 list.exhaust)
  then show "grafts t p xs (u(p \<mapsto> DirN)) q = graft t p u q"
  proof cases
    case (3 x r)
    then have "T (p @ [x]) = None" using xs t by (cases "T (p @ [x])") auto
    then have "t q = None" using tree_no_child [OF tr, of "p @ [x]" r] 3(1) t by simp
    then show ?thesis using 3 u by (auto simp: grafts_def graft_def)
  qed (use p in \<open>auto simp: grafts_def graft_def\<close>)
qed

lemma graft_leaf:
  assumes "t p = Some nd" "\<And>x r. t (p @ x # r) = None" "\<And>r. u (p @ r) = None"
  shows "graft t p u = u(p \<mapsto> nd)"
proof
  fix q
  consider "q = p" | x r where "q = p @ x # r" | "\<nexists>r. q = p @ r" by (metis append_Nil2 list.exhaust)
  then show "graft t p u q = (u(p \<mapsto> nd)) q" by cases (use assms in \<open>auto simp: graft_def\<close>)
qed

lemma subtree_leaf:
  assumes "T p \<noteq> None" "\<And>x r. T (p @ x # r) = None"
  shows "subtree T p = {p}"
proof -
  have "r = []" if "T (p @ r) \<noteq> None" for r using that assms(2) by (cases r) auto
  then show ?thesis using assms(1) by (auto simp: subtree_def)
qed

text \<open>A step that ends with the tree \<open>u'\<close> after taking at most \<open>c\<close> identifiers, unless the store fails.\<close>

definition grows :: "('s \<Rightarrow> kv) \<Rightarrow> ('s \<Rightarrow> bool) \<Rightarrow> u64 \<Rightarrow> nat \<Rightarrow> ns_tree \<Rightarrow> (NsError + unit) \<times> 's \<Rightarrow> bool" where
  "grows view invar n c u' rs \<longleftrightarrow>
     (case fst rs of
        Inl e \<Rightarrow> storage_failure e
      | Inr _ \<Rightarrow> \<exists>n'. invar (snd rs) \<and> stores u' n' (bt_get (view (snd rs))) \<and> unat n' \<le> unat n + c)"

lemma import_node_value:
  "import_node S path (value_json v) False s = try_at s (json_to_value (value_json v)) (\<lambda>val. db_set S path val s)"
  by (cases v rule: value_json.cases) simp_all

context storage
begin

lemma grows_step:
  assumes "\<exists>t' n'. invar s' \<and> n' \<in> {n, n + 1} \<and> stores t' n' (bt_get (view s')) \<and> outcome (Inr u') u r t'" "n \<noteq> - 1"
  shows "grows view invar n 1 u' (r, s')"
  using assms unat_succ [OF assms(2)] by (cases r) (fastforce simp: grows_def outcome_def)+

lemma import_value_tree:
  assumes "invar s" "stores u n (bt_get (view s))" "n \<noteq> - 1" "path_ok p" "p \<noteq> []"
    and "u (butlast p) = Some DirN" "u p = None" "json_safe v" "wf_value v" "canonical v"
  shows "grows view invar n 1 (u(p \<mapsto> ValN v)) (import_node S (DbPath p) (value_json v) False s)"
proof -
  obtain r s' where run: "db_set S (DbPath p) v s = (r, s')" by fastforce
  have "spec_set (DbPath p) v u = Inr (u(p \<mapsto> ValN v))"
    using assms(5-7,10) canon_id by (simp add: spec_set_Inr is_root_def)
  then show ?thesis
    using grows_step [OF _ assms(3), of s' "u(p \<mapsto> ValN v)" u r] set_tree [OF assms(1-3) _ assms(9) run] assms(4)
    by (simp add: import_node_value value_back [OF assms(8)] run)
qed

lemma import_mkdir_tree:
  assumes "invar s" "stores u n (bt_get (view s))" "n \<noteq> - 1" "path_ok p" "p \<noteq> []"
    and "u (butlast p) = Some DirN" "u p = None"
  shows "grows view invar n 1 (u(p \<mapsto> DirN))
    (try_at s (db_exists S s (DbPath p)) (\<lambda>ex. if \<not> ex then mkdir S (DbPath p) s else (Inr (), s)))"
proof -
  obtain r s' where run: "mkdir S (DbPath p) s = (r, s')" by fastforce
  have "spec_mkdir (DbPath p) u = Inr (u(p \<mapsto> DirN))"
    using assms(5-7) by (simp add: spec_mkdir_Inr is_root_def)
  then show ?thesis
    using grows_step [OF _ assms(3), of s' "u(p \<mapsto> DirN)" u r] mkdir_tree [OF assms(1-3) _ run] assms(4,7)
    by (simp add: db_exists_tree [OF assms(1,2)] run)
qed

lemma import_children_tree:
  assumes at: "\<And>k. k \<in> set (map fst kids) \<Longrightarrow> at k = Inr (DbPath (p @ [k]))"
    and node: "\<And>k j u n s. (k, j) \<in> set kids \<Longrightarrow> invar s \<Longrightarrow> stores u n (bt_get (view s)) \<Longrightarrow> u p = Some DirN \<Longrightarrow>
      (\<And>r. u (p @ k # r) = None) \<Longrightarrow> unat n + c k < 2 ^ 64 \<Longrightarrow>
      grows view invar n (c k) (graft t (p @ [k]) u) (import_node S (DbPath (p @ [k])) j False s)"
    and "distinct (map fst kids)" "invar s" "stores u n (bt_get (view s))" "u p = Some DirN"
    and "\<And>k r. k \<in> set (map fst kids) \<Longrightarrow> u (p @ k # r) = None" "unat n + (\<Sum>k\<leftarrow>map fst kids. c k) < 2 ^ 64"
  shows "grows view invar n (\<Sum>k\<leftarrow>map fst kids. c k) (grafts t p (map fst kids) u) (import_children S at kids s)"
  using assms
proof (induction kids arbitrary: u n s)
  case Nil
  then show ?case by (auto simp: grows_def)
next
  case (Cons kj kids)
  obtain k j where kj: "kj = (k, j)" by fastforce
  obtain r s1 where run: "import_node S (DbPath (p @ [k])) j False s = (r, s1)" by fastforce
  have one: "grows view invar n (c k) (graft t (p @ [k]) u) (r, s1)"
    using Cons.prems(2) [of k j s u n] Cons.prems(4-8) kj run by simp
  have at: "at k = Inr (DbPath (p @ [k]))" using Cons.prems(1) kj by simp
  show ?case
  proof (cases r)
    case (Inl e)
    then show ?thesis using one at kj run by (simp add: grows_def)
  next
    case (Inr x)
    let ?u = "graft t (p @ [k]) u"
    obtain n1 where n1: "invar s1" "stores ?u n1 (bt_get (view s1))" "unat n1 \<le> unat n + c k"
      using one Inr by (auto simp: grows_def)
    have "?u p = Some DirN" using Cons.prems(6) by (auto simp: graft_def)
    moreover have "?u (p @ k' # r) = None" if "k' \<in> set (map fst kids)" for k' r
      using that Cons.prems(3,7) kj by (auto simp: graft_def)
    moreover have "unat n1 + (\<Sum>k\<leftarrow>map fst kids. c k) < 2 ^ 64" using n1(3) Cons.prems(8) kj by simp
    ultimately have "grows view invar n1 (\<Sum>k\<leftarrow>map fst kids. c k) (grafts t p (map fst kids) ?u) (import_children S at kids s1)"
      using Cons.IH [OF _ _ _ n1(1,2)] Cons.prems(1-3) by simp
    then have "grows view invar n (c k + (\<Sum>k\<leftarrow>map fst kids. c k)) (grafts t p (map fst kids) ?u) (import_children S at kids s1)"
      using n1(3) by (fastforce simp: grows_def split: sum.splits)
    then show ?thesis using at kj run Inr by (simp add: grafts_Cons)
  qed
qed

lemma import_node_tree:
  assumes tr: "tree_ok T" "finite (dom T)" and t: "t = abs_tree T"
  shows "json_of t p j \<Longrightarrow> p \<noteq> [] \<Longrightarrow> invar s \<Longrightarrow> stores u n (bt_get (view s)) \<Longrightarrow> u (butlast p) = Some DirN \<Longrightarrow>
    (\<And>r. u (p @ r) = None) \<Longrightarrow> unat n + card (subtree T p) < 2 ^ 64 \<Longrightarrow>
    grows view invar n (card (subtree T p)) (graft t p u) (import_node S (DbPath p) j False s)"
proof (induction arbitrary: u n s rule: json_of.induct)
  case (json_of_value p v)
  obtain i where i: "T p = Some (i, ValN v)" using json_of_value(1) t by (auto simp: abs_tree_Some)
  have ok: "path_ok p" "wf_value v" "canonical v" using tree_node [OF tr(1) i] by simp_all
  have leaf: "t (p @ x # r) = None" for x r
    using tree_value_leaf [OF tr(1) i, of x] tree_no_child [OF tr(1), of "p @ [x]" r] t by simp
  have "subtree T p = {p}" using leaf t i by (intro subtree_leaf) auto
  moreover have "graft t p u = u(p \<mapsto> ValN v)"
    using json_of_value(1) leaf json_of_value.prems(5) by (rule graft_leaf)
  moreover have "n \<noteq> - 1" using not_last_id [OF json_of_value.prems(6)] calculation(1) by simp
  moreover have "u p = None" using json_of_value.prems(5) [of "[]"] by simp
  ultimately show ?case
    using import_value_tree [OF json_of_value.prems(2,3) _ ok(1) json_of_value.prems(1,4) _ json_of_value.hyps(2) ok(2,3)]
    by (simp del: fun_upd_apply)
next
  case (json_of_dir p kids)
  let ?c = "\<lambda>k. card (subtree T (p @ [k]))"
  obtain i where i: "T p = Some (i, DirN)" using json_of_dir(1) t by (auto simp: abs_tree_Some)
  have ks: "set (map fst kids) = {x. T (p @ [x]) \<noteq> None}" using json_of_dir(3) t by simp
  have card: "card (subtree T p) = Suc (\<Sum>k\<leftarrow>map fst kids. ?c k)"
    using card_children [OF tr _ json_of_dir(2) ks] i by simp
  have n: "n \<noteq> - 1" "u p = None"
    using not_last_id [OF json_of_dir.prems(6)] json_of_dir.prems(5) [of "[]"] card by simp_all
  have ok: "path_ok p" using tree_node [OF tr(1) i] by simp
  let ?mk = "try_at s (db_exists S s (DbPath p)) (\<lambda>ex. if \<not> ex then mkdir S (DbPath p) s else (Inr (), s))"
  obtain r s1 where run: "?mk = (r, s1)" by fastforce
  have one: "grows view invar n 1 (u(p \<mapsto> DirN)) (r, s1)"
    using import_mkdir_tree [OF json_of_dir.prems(2,3) n(1) ok json_of_dir.prems(1,4) n(2)] run by simp
  let ?at = "\<lambda>k. if is_root (DbPath p) then ns_parse (''/'' @ k) else map_err NsPath (path_join (DbPath p) k)"
  have imp: "import_node S (DbPath p) (JObject [(''__dir'', JObject kids)]) False s
      = then_at ?mk (\<lambda>_. import_children S ?at kids)"
    using json_of_dir.prems(1) by (simp add: is_root_def)
  show ?case
  proof (cases r)
    case (Inl e)
    then show ?thesis using one unfolding imp run by (simp add: grows_def)
  next
    case (Inr x)
    let ?u = "u(p \<mapsto> DirN)"
    obtain n1 where n1: "invar s1" "stores ?u n1 (bt_get (view s1))" "unat n1 \<le> unat n + 1"
      using one Inr by (auto simp: grows_def)
    have at: "?at k = Inr (DbPath (p @ [k]))" if h: "k \<in> set (map fst kids)" for k
    proof -
      obtain i nd where "T (p @ [k]) = Some (i, nd)" using h ks by auto
      then have "path_ok (p @ [k])" using tree_node [OF tr(1)] by blast
      then show ?thesis using json_of_dir.prems(1)
        by (simp add: is_root_def path_ok_def wf_path_def wf_segment_def path_join_def)
    qed
    have node: "grows view invar m (?c k) (graft t (p @ [k]) w) (import_node S (DbPath (p @ [k])) j False s2)"
      if "(k, j) \<in> set kids" "invar s2" "stores w m (bt_get (view s2))" "w p = Some DirN"
        "\<And>r. w (p @ k # r) = None" "unat m + ?c k < 2 ^ 64" for k j w m s2
      using json_of_dir.IH [OF that(1), of s2 w m] that by simp
    have "grows view invar n1 (\<Sum>k\<leftarrow>map fst kids. ?c k) (grafts t p (map fst kids) ?u) (import_children S ?at kids s1)"
      using import_children_tree [of kids ?at p ?c t s1 ?u n1] at node json_of_dir(2) n1 json_of_dir.prems(5,6) card
      by simp
    moreover have "grafts t p (map fst kids) ?u = graft t p u"
      using grafts_all [OF tr(1) t json_of_dir(1), of "map fst kids" u] json_of_dir(3) json_of_dir.prems(5) by simp
    ultimately show ?thesis
      unfolding imp run using Inr n1(3) card by (fastforce simp: grows_def split: sum.splits)
  qed
qed

lemma import_root_tree:
  assumes tr: "tree_ok T" "finite (dom T)" and t: "t = abs_tree T" and j: "json_of t [] j"
    and s: "invar s" "stores empty_tree n (bt_get (view s))" "unat n + card (dom T) < 2 ^ 64"
  shows "grows view invar n (card (dom T)) t (import_node S path_root j True s)"
proof -
  let ?c = "\<lambda>k. card (subtree T ([] @ [k]))"
  have root: "T [] = Some (ROOT_ID, DirN)" using tree_root [OF tr(1)] .
  then have t0: "t [] = Some DirN" using t by (auto simp: abs_tree_Some)
  obtain kids where k: "j = JObject [(''__dir'', JObject kids)]" "distinct (map fst kids)"
      "fst ` set kids = {x. t ([] @ [x]) \<noteq> None}" "\<And>kid. kid \<in> set kids \<Longrightarrow> json_of t ([] @ [fst kid]) (snd kid)"
    using j by (cases rule: json_of.cases) (use t0 in auto)
  have ks: "set (map fst kids) = {x. T ([] @ [x]) \<noteq> None}" using k(3) t by simp
  have card: "card (dom T) = Suc (\<Sum>k\<leftarrow>map fst kids. ?c k)"
    using card_children [OF tr _ k(2) ks] root by (simp add: subtree_root)
  have at: "ns_parse (''/'' @ x) = Inr (DbPath ([] @ [x]))" if h: "x \<in> set (map fst kids)" for x
  proof -
    obtain i nd where "T [x] = Some (i, nd)" using h ks by auto
    then have "wf_path (DbPath [x])" using tree_node [OF tr(1)] unfolding path_ok_def by blast
    from parse_as_str [OF this] show ?thesis by (simp add: ns_parse_def as_str_def)
  qed
  have node: "grows view invar m (?c x) (graft t ([] @ [x]) w) (import_node S (DbPath ([] @ [x])) j False s2)"
    if "(x, j) \<in> set kids" "invar s2" "stores w m (bt_get (view s2))" "w [] = Some DirN"
      "\<And>r. w ([] @ x # r) = None" "unat m + ?c x < 2 ^ 64" for x j w m s2
    using import_node_tree [OF tr t k(4) [OF that(1)], of s2 w m] that by simp
  have "grows view invar n (\<Sum>k\<leftarrow>map fst kids. ?c k) (grafts t [] (map fst kids) empty_tree)
      (import_children S (\<lambda>k. ns_parse (''/'' @ k)) kids s)"
    using import_children_tree [of kids "\<lambda>k. ns_parse (''/'' @ k)" "[]" ?c t s empty_tree n] at node k(2) s card
    by (simp add: empty_tree_def)
  moreover have "grafts t [] (map fst kids) empty_tree = t"
  proof -
    have "empty_tree = (Map.empty :: ns_tree)([] \<mapsto> DirN)" by (auto simp: empty_tree_def)
    moreover have "grafts t [] (map fst kids) (Map.empty([] \<mapsto> DirN)) = graft t [] Map.empty"
      using k(3) by (intro grafts_all [OF tr(1) t t0]) simp_all
    ultimately show ?thesis by (simp add: graft_def)
  qed
  ultimately show ?thesis
    using k(1) card by (fastforce simp: path_root_def is_root_def grows_def split: sum.splits)
qed

end

section \<open>Properties\<close>

lemma export_dir_form:
  "export_node fuel S s path = Some (Inr body) \<Longrightarrow> db_get S s path = Inr e \<Longrightarrow> e_value e = None \<Longrightarrow>
   \<exists>b. body = json_tagged ''__dir'' b"
  by (cases fuel) (auto simp: and_then_Inr_iff split: sum.splits)

lemma readable_trim:
  assumes "readable (json_tagged ''__dir'' body) j"
  shows "trim (json_tagged ''__dir'' body) = json_tagged ''__dir'' body"
proof (rule trim_id, rule disjI2, rule conjI)
  let ?t = "json_tagged ''__dir'' body"
  have u: "utf8_string ?t" using assms unfolding readable_def reads_def by blast
  have "chars ?t = ''{'' # chars (tl ?t)" by (simp add: json_tagged_def is_ascii_char_def)
  then show "\<not> is_whitespace (hd (chars ?t))" by (simp add: is_whitespace_def byte_of_char_def)
  have c: "list_all is_char (chars ?t)" "chars ?t \<noteq> []" using chars_is_char [OF u] by (simp_all add: json_tagged_def)
  then have "is_char (last (chars ?t))" by (auto simp: list_all_iff)
  moreover have "concat (chars ?t) = concat (butlast (chars ?t)) @ last (chars ?t)"
    using c(2) by (metis append_butlast_last_id concat.simps concat_append append_Nil2)
  then have "CHR ''}'' \<in> set (last (chars ?t))"
    using chars_nonempty [of "last (chars ?t)" ?t] c(2)
    by (metis concat_chars json_tagged_def last_appendR last_in_set last_snoc append_assoc)
  ultimately have "last (chars ?t) = ''}''" using is_char_ascii_mem by (simp add: is_ascii_char_def)
  then show "\<not> is_whitespace (last (chars ?t))" by (simp add: is_whitespace_def byte_of_char_def)
qed



text \<open>
  Where the text format is ambiguous: a string key of a tree that reads as an integer comes back
  as an integer key, and a float with an integral value comes back as an integer.
\<close>

theorem json_text_loses_types:
  "parse_scalar_key (scalar_key_str (String (show_int (sint n)))) = Inr (IntV n)
   \<and> value_to_json (value_float 0x3FF0000000000000) = value_to_json (value_int 1)"
proof
  show "parse_scalar_key (scalar_key_str (String (show_int (sint n)))) = Inr (IntV n)"
    using key_roundtrip [of "IntV n"] by simp
  have "show_f64 0x3FF0000000000000 = ''1''" by code_simp
  moreover have "is_finite 0x3FF0000000000000" by (simp add: is_finite_def f64_inf_def)
  moreover have "show_int (sint (1 :: i64)) = ''1''" by code_simp
  ultimately show "value_to_json (value_float 0x3FF0000000000000) = value_to_json (value_int 1)"
    by (simp add: value_float_def value_int_def from_f64_def)
qed

end
