(* ===== verification/Server.thy ===== *)
theory Server
  imports Json Txn Query_Eval Wal
begin

text \<open>
  The daemon (\<open>crates/alefs-server/src/{protocol,handle,client}.rs\<close>): requests and responses, the
  shared database behind its mutex, the counters, the dispatch of every request, message framing and
  the loop over one connection.  What is outside the sources is an argument: the JSON of \<open>serde_json\<close>
  (\<open>from_slice\<close>, \<open>to_vec\<close>), the text of derived \<open>Debug\<close> output, and the clock.
\<close>

section \<open>The protocol\<close>

datatype Request =
    RqPing
  | RqStats
  | RqMkdir string
  | RqSet string string string \<comment> \<open>path, type and value\<close>
  | RqGet string
  | RqLs string
  | RqRm string
  | RqHset string string string string \<comment> \<open>path, key, type and value\<close>
  | RqLpush string string string
  | RqSadd string string string
  | RqTset string string string string
  | RqQuery string
  | RqCompact
  | RqExport
  | RqImport string
  | RqBatch "Request list"

record ListEntry =
  le_name :: string
  le_kind :: string

record QueryHitDto =
  qh_path :: string
  qh_type_name :: string

datatype Response =
    RsOk string
  | RsValue string string
  | RsList "ListEntry list"
  | RsQuery "QueryHitDto list"
  | RsExport string
  | RsStats u64 u64 u64 u64 u64 u64 \<comment> \<open>uptime, requests, mutations, queries, errors, keys\<close>
  | RsErr string

section \<open>Server state\<close>

datatype ServeError = SeIo string | SeInternal string

fun show_serve_error :: "ServeError \<Rightarrow> string" where
  "show_serve_error (SeIo m) = ''i/o: '' @ m"
| "show_serve_error (SeInternal m) = m"

type_synonym Instant = nat \<comment> \<open>nanoseconds on the monotonic clock\<close>

record ServerStats =
  requests :: u64
  mutations :: u64
  queries :: u64
  errors :: u64
  started :: "Instant option"

definition stats_new :: "Instant \<Rightarrow> ServerStats" where
  "stats_new now = \<lparr>requests = 0, mutations = 0, queries = 0, errors = 0, started = Some now\<rparr>"

text \<open>\<open>DbHandle\<close>: the database behind its mutex, which a panic of a thread that holds it poisons.\<close>

record DbHandle =
  hd_db :: WalStorage
  poisoned :: bool

text \<open>How a call ends: it returns, its thread panics, or the fuel of the model ran out.\<close>

datatype 'a run = Returns 'a | Panics | Unfinished

fun run_of :: "'a option \<Rightarrow> 'a run" where
  "run_of None = Unfinished"
| "run_of (Some x) = Returns x"

text \<open>\<open>open_db\<close> with the directory it leaves when it fails.\<close>

definition open_db :: "nat \<Rightarrow> Disk \<Rightarrow> ((ServeError + DbHandle) \<times> Disk) option" where
  "open_db fuel d =
     (case wal_open d of
        Inl e \<Rightarrow> Some (Inl (SeInternal (show_storage_error e)), d)
      | Inr store \<Rightarrow>
          (case db_open fuel wal_storage store of
             None \<Rightarrow> None
           | Some (Inl e, store) \<Rightarrow> Some (Inl (SeInternal (show_ns_error e)), disk store)
           | Some (Inr _, store) \<Rightarrow> Some (Inr \<lparr>hd_db = store, poisoned = False\<rparr>, disk store)))"

definition wal_len :: "WalStorage \<Rightarrow> nat" where
  "wal_len s = length (wal_map s)"

section \<open>Text and values\<close>

definition parse_path :: "string \<Rightarrow> string + DbPath" where
  "parse_path path = map_err show_path_error (path_parse path)"

definition parse_bool_str :: "string \<Rightarrow> string + bool" where
  "parse_bool_str raw =
     (if raw = ''true'' then Inr True
      else if raw = ''false'' then Inr False
      else Inl ''provided string was not `true` or `false`'')"

definition parse_typed_value :: "string \<Rightarrow> string \<Rightarrow> string + Value" where
  "parse_typed_value ty raw =
     (if ty = ''null'' then Inr value_null
      else if ty = ''bool'' then and_then (parse_bool_str raw) (\<lambda>b. Inr (value_bool b))
      else if ty = ''int'' then and_then (map_err show_int_error (parse_i64 raw)) (\<lambda>n. Inr (value_int n))
      else if ty = ''float'' then and_then (map_err show_float_error (parse_f64 raw)) (\<lambda>f. Inr (value_float f))
      else if ty = ''string'' then Inr (value_string raw)
      else if ty = ''bytes'' then Inr (value_bytes (as_bytes raw))
      else if ty = ''hash'' then Inr (Hash [])
      else if ty = ''list'' then Inr (List [])
      else if ty = ''set'' then Inr (Set [])
      else if ty = ''tree'' then Inr (Tree [])
      else Inl (''unknown type '' @ ty))"

fun format_value :: "Value \<Rightarrow> string" where
  "format_value (Scalar Null) = ''null''"
| "format_value (Scalar (Bool b)) = show_bool b"
| "format_value (Scalar (IntV n)) = show_int (sint n)"
| "format_value (Scalar (Float bits)) = show_f64 bits"
| "format_value (Scalar (String s)) = s"
| "format_value (Scalar (Bytes b)) = ''bytes['' @ show_nat (length b) @ '']''"
| "format_value (Hash m) = ''hash{'' @ join_with '','' (map fst m) @ ''}''"
| "format_value (Set m) = ''set('' @ show_nat (length m) @ '')''"
| "format_value (List m) = ''list['' @ show_nat (length m) @ '']''"
| "format_value (Tree m) = ''tree({'' @ show_nat (length m) @ ''})''"

text \<open>The key of \<open>Tset\<close>: an integer if it reads as one.\<close>

definition tree_key :: "string \<Rightarrow> Scalar" where
  "tree_key key = (case parse_i64 key of Inr n \<Rightarrow> IntV n | Inl _ \<Rightarrow> String key)"

section \<open>Dispatch\<close>

definition with_db :: "(WalStorage \<Rightarrow> (string + Response) run) \<Rightarrow> DbHandle \<Rightarrow> Response run \<times> DbHandle" where
  "with_db f db =
     (if poisoned db then (Returns (RsErr ''lock poisoned''), db)
      else case f (hd_db db) of
        Returns (Inr r) \<Rightarrow> (Returns r, db)
      | Returns (Inl e) \<Rightarrow> (Returns (RsErr e), db)
      | Panics \<Rightarrow> (Panics, db\<lparr>poisoned := True\<rparr>)
      | Unfinished \<Rightarrow> (Unfinished, db))"

text \<open>The closures given to \<open>with_db_mut\<close> contain nothing that panics.\<close>

definition with_db_mut :: "(WalStorage \<Rightarrow> ((string + Response) \<times> WalStorage) option) \<Rightarrow> DbHandle \<Rightarrow> Response run \<times> DbHandle" where
  "with_db_mut f db =
     (if poisoned db then (Returns (RsErr ''lock poisoned''), db)
      else case f (hd_db db) of
        None \<Rightarrow> (Unfinished, db)
      | Some (Inr r, d) \<Rightarrow> (Returns r, db\<lparr>hd_db := d\<rparr>)
      | Some (Inl e, d) \<Rightarrow> (Returns (RsErr e), db\<lparr>hd_db := d\<rparr>))"

text \<open>\<open>call.map_err(ns)?; Ok(response)\<close> after a call that takes \<open>&mut self\<close>.\<close>

definition ns_reply :: "Response \<Rightarrow> (NsError + unit) \<times> 's \<Rightarrow> (string + Response) \<times> 's" where
  "ns_reply resp rs = (case rs of (Inl e, s) \<Rightarrow> (Inl (show_ns_error e), s) | (Inr _, s) \<Rightarrow> (Inr resp, s))"

fun request_to_txn :: "(Request \<Rightarrow> string) \<Rightarrow> Request \<Rightarrow> string + TxnOp" where
  "request_to_txn dbg (RqMkdir path) = and_then (parse_path path) (\<lambda>p. Inr (TMkdir p))"
| "request_to_txn dbg (RqSet path ty raw) =
     and_then (parse_path path) (\<lambda>p. and_then (parse_typed_value ty raw) (\<lambda>v. Inr (TSet p v)))"
| "request_to_txn dbg (RqRm path) = and_then (parse_path path) (\<lambda>p. Inr (TDelete p))"
| "request_to_txn dbg (RqHset path key ty raw) =
     and_then (parse_path path) (\<lambda>p. and_then (parse_typed_value ty raw) (\<lambda>v. Inr (THashSet p key v)))"
| "request_to_txn dbg (RqLpush path ty raw) =
     and_then (parse_path path) (\<lambda>p. and_then (parse_typed_value ty raw) (\<lambda>v. Inr (TListPush p v)))"
| "request_to_txn dbg (RqSadd path ty raw) =
     and_then (parse_path path) (\<lambda>p. and_then (parse_typed_value ty raw) (\<lambda>v. Inr (TSetAdd p v)))"
| "request_to_txn dbg (RqTset path key ty raw) =
     (let sk = tree_key key in
      and_then (parse_path path) (\<lambda>p. and_then (parse_typed_value ty raw) (\<lambda>v. Inr (TTreeSet p sk v))))"
| "request_to_txn dbg other = Inl (''op not allowed in batch: '' @ dbg other)"

definition apply_batch :: "(Request \<Rightarrow> string) \<Rightarrow> Request list \<Rightarrow> DbHandle \<Rightarrow> Response run \<times> DbHandle" where
  "apply_batch dbg ops =
     with_db_mut (\<lambda>d. Some (try_at d (try_map (request_to_txn dbg) ops) (\<lambda>txn.
       ns_reply (RsOk (''ok batch '' @ show_nat (length txn))) (apply_txn wal_storage txn d))))"

definition stats_response :: "Instant \<Rightarrow> DbHandle \<Rightarrow> ServerStats \<Rightarrow> Response" where
  "stats_response now db stats =
     (let uptime_sec = (case started stats of Some t \<Rightarrow> of_nat ((now - t) div 1000000000) | None \<Rightarrow> 0);
          keys_approx = (if poisoned db then 0 else of_nat (wal_len (hd_db db)))
      in RsStats uptime_sec (requests stats) (mutations stats) (queries stats) (errors stats) keys_approx)"

definition list_entry :: "string \<times> EntryKind \<Rightarrow> ListEntry" where
  "list_entry e = (case e of (name, kind) \<Rightarrow>
     \<lparr>le_name = name, le_kind = (case kind of Directory \<Rightarrow> ''dir'' | EntryValue \<Rightarrow> ''val'')\<rparr>)"

definition query_hit :: "QueryHit \<Rightarrow> QueryHitDto" where
  "query_hit h = \<lparr>qh_path = as_str (hit_path h), qh_type_name = hit_type h\<rparr>"

definition get_reply :: "DbPath \<Rightarrow> Entry \<Rightarrow> (string + Response) run" where
  "get_reply p e =
     (case e_kind e of
        Directory \<Rightarrow> Returns (Inr (RsValue ''directory'' (as_str p)))
      | EntryValue \<Rightarrow>
          (case e_value e of
             None \<Rightarrow> Panics
           | Some v \<Rightarrow> Returns (Inr (RsValue (typename v) (format_value v)))))"

text \<open>The text of derived \<open>Debug\<close> output that reaches error messages.\<close>

record DebugText =
  dbg_tok :: "Tok option \<Rightarrow> string"
  dbg_request :: "Request \<Rightarrow> string"

definition count_request :: "Request \<Rightarrow> ServerStats \<Rightarrow> ServerStats" where
  "count_request request stats =
     (case request of
        RqQuery _ \<Rightarrow> stats\<lparr>queries := queries stats + 1\<rparr>
      | RqPing \<Rightarrow> stats
      | RqStats \<Rightarrow> stats
      | RqGet _ \<Rightarrow> stats
      | RqLs _ \<Rightarrow> stats
      | RqExport \<Rightarrow> stats
      | _ \<Rightarrow> stats\<lparr>mutations := mutations stats + 1\<rparr>)"

text \<open>The second \<open>match\<close> of \<open>dispatch_with_stats\<close>, on the counters after the first.\<close>

fun serve_request :: "nat \<Rightarrow> DebugText \<Rightarrow> Instant \<Rightarrow> ServerStats \<Rightarrow> Request \<Rightarrow> DbHandle \<Rightarrow> Response run \<times> DbHandle" where
  "serve_request fuel dbg now stats RqPing db = (Returns (RsOk ''pong''), db)"
| "serve_request fuel dbg now stats RqStats db = (Returns (stats_response now db stats), db)"
| "serve_request fuel dbg now stats (RqBatch ops) db = apply_batch (dbg_request dbg) ops db"
| "serve_request fuel dbg now stats (RqMkdir path) db =
     with_db_mut (\<lambda>d. Some (try_at d (parse_path path) (\<lambda>p.
       ns_reply (RsOk (''ok '' @ as_str p)) (mkdir wal_storage p d)))) db"
| "serve_request fuel dbg now stats (RqSet path ty raw) db =
     with_db_mut (\<lambda>d. Some (try_at d (parse_path path) (\<lambda>p. try_at d (parse_typed_value ty raw) (\<lambda>v.
       ns_reply (RsOk (''ok '' @ as_str p)) (db_set wal_storage p v d))))) db"
| "serve_request fuel dbg now stats (RqGet path) db =
     with_db (\<lambda>d. case parse_path path of
         Inl e \<Rightarrow> Returns (Inl e)
       | Inr p \<Rightarrow> (case db_get wal_storage d p of Inl e \<Rightarrow> Returns (Inl (show_ns_error e)) | Inr e \<Rightarrow> get_reply p e)) db"
| "serve_request fuel dbg now stats (RqLs path) db =
     with_db (\<lambda>d. Returns (and_then (parse_path path) (\<lambda>p.
       and_then (map_err show_ns_error (db_list wal_storage d p)) (\<lambda>es. Inr (RsList (map list_entry es)))))) db"
| "serve_request fuel dbg now stats (RqRm path) db =
     with_db_mut (\<lambda>d. Some (try_at d (parse_path path) (\<lambda>p.
       ns_reply (RsOk (''ok '' @ as_str p)) (db_delete wal_storage p d)))) db"
| "serve_request fuel dbg now stats (RqHset path key ty raw) db =
     with_db_mut (\<lambda>d. Some (try_at d (parse_path path) (\<lambda>p. try_at d (parse_typed_value ty raw) (\<lambda>v.
       ns_reply (RsOk ''ok'') (hash_set wal_storage p key v d))))) db"
| "serve_request fuel dbg now stats (RqLpush path ty raw) db =
     with_db_mut (\<lambda>d. Some (try_at d (parse_path path) (\<lambda>p. try_at d (parse_typed_value ty raw) (\<lambda>v.
       ns_reply (RsOk ''ok'') (list_push wal_storage p v d))))) db"
| "serve_request fuel dbg now stats (RqSadd path ty raw) db =
     with_db_mut (\<lambda>d. Some (try_at d (parse_path path) (\<lambda>p. try_at d (parse_typed_value ty raw) (\<lambda>v.
       ns_reply (RsOk ''ok'') (set_add wal_storage p v d))))) db"
| "serve_request fuel dbg now stats (RqTset path key ty raw) db =
     with_db_mut (\<lambda>d. Some (try_at d (parse_path path) (\<lambda>p.
       let sk = tree_key key in
       try_at d (parse_typed_value ty raw) (\<lambda>v.
       ns_reply (RsOk ''ok'') (tree_set wal_storage p sk v d))))) db"
| "serve_request fuel dbg now stats (RqQuery query) db =
     with_db (\<lambda>d. run_of (map_option (\<lambda>r.
       and_then (map_err (show_eval_error (dbg_tok dbg)) r) (\<lambda>hits. Inr (RsQuery (map query_hit hits))))
         (execute fuel wal_storage d query))) db"
| "serve_request fuel dbg now stats RqCompact db =
     with_db_mut (\<lambda>d. Some (case wal_compact d of
         (Inl e, d) \<Rightarrow> (Inl (show_storage_error e), d)
       | (Inr _, d) \<Rightarrow> (Inr (RsOk ''ok compacted''), d))) db"
| "serve_request fuel dbg now stats RqExport db =
     with_db (\<lambda>d. run_of (map_option (\<lambda>r.
       and_then (map_err show_ns_error r) (\<lambda>json. Inr (RsExport json))) (export_json fuel wal_storage d))) db"
| "serve_request fuel dbg now stats (RqImport json) db =
     with_db_mut (\<lambda>d. map_option (ns_reply (RsOk ''ok imported'')) (import_json fuel wal_storage json d)) db"

definition dispatch_with_stats :: "nat \<Rightarrow> DebugText \<Rightarrow> Instant \<Rightarrow> Request \<Rightarrow> ServerStats \<Rightarrow> DbHandle
    \<Rightarrow> Response run \<times> ServerStats \<times> DbHandle" where
  "dispatch_with_stats fuel dbg now request stats db =
     (let stats = count_request request stats;
          (r, db) = serve_request fuel dbg now stats request db
      in (r, stats, db))"

definition dispatch :: "nat \<Rightarrow> DebugText \<Rightarrow> Instant \<Rightarrow> Request \<Rightarrow> DbHandle \<Rightarrow> Response run \<times> DbHandle" where
  "dispatch fuel dbg now request db =
     (case dispatch_with_stats fuel dbg now request (stats_new now) db of (r, _, db) \<Rightarrow> (r, db))"

section \<open>Framing\<close>

text \<open>
  One end of a connected socket: the bytes that arrive before the peer closes (or the error that
  ends them), the bytes written, and how many more the peer accepts before a write fails.
\<close>

record Sock =
  s_in :: bytes
  s_fault :: "string option"
  s_out :: bytes
  s_room :: nat

definition BROKEN_PIPE :: string where
  "BROKEN_PIPE = ''Broken pipe (os error 32)''"

text \<open>\<open>read_exact\<close>: \<open>Inl None\<close> is the end of the stream before \<open>n\<close> bytes.\<close>

definition read_exact :: "nat \<Rightarrow> Sock \<Rightarrow> (string option + bytes) \<times> Sock" where
  "read_exact n st =
     (if n \<le> length (s_in st) then (Inr (take n (s_in st)), st\<lparr>s_in := drop n (s_in st)\<rparr>)
      else (Inl (s_fault st), st\<lparr>s_in := []\<rparr>))"

definition write_all :: "bytes \<Rightarrow> Sock \<Rightarrow> (ServeError + unit) \<times> Sock" where
  "write_all data st =
     (let sent = take (s_room st) data; st = st\<lparr>s_out := s_out st @ sent, s_room := s_room st - length sent\<rparr>
      in if length sent < length data then (Inl (SeIo BROKEN_PIPE), st) else (Inr (), st))"

definition MAX_MESSAGE :: nat where
  "MAX_MESSAGE = 64 * 1024 * 1024"

definition read_message :: "Sock \<Rightarrow> (ServeError + bytes option) \<times> Sock" where
  "read_message st =
     (case read_exact 4 st of
        (Inl None, st) \<Rightarrow> (Inr None, st)
      | (Inl (Some e), st) \<Rightarrow> (Inl (SeIo e), st)
      | (Inr len_buf, st) \<Rightarrow>
          let len = unat (u32_from_le len_buf) in
          if len > MAX_MESSAGE then (Inl (SeInternal ''message too large''), st)
          else
            (case read_exact len st of
               (Inl None, st) \<Rightarrow> (Inl (SeIo ''failed to fill whole buffer''), st)
             | (Inl (Some e), st) \<Rightarrow> (Inl (SeIo e), st)
             | (Inr buf, st) \<Rightarrow> (Inr (Some buf), st)))"

definition write_message :: "bytes \<Rightarrow> Sock \<Rightarrow> (ServeError + unit) \<times> Sock" where
  "write_message payload st =
     (let len = u32_to_le (of_nat (length payload)) in
      then_at (write_all len st) (\<lambda>_ st. write_all payload st))"

lemma read_message_shrinks:
  assumes "read_message st = (Inr (Some buf), st')"
  shows "length (s_in st') < length (s_in st)"
  using assms by (auto simp: read_message_def read_exact_def Let_def split: if_splits option.splits)

lemma write_all_in [simp]: "s_in (snd (write_all data st)) = s_in st"
  by (simp add: write_all_def Let_def)

lemma write_message_in:
  assumes "write_message payload st = (r, st')"
  shows "s_in st' = s_in st"
  using assms write_all_in [of "u32_to_le (of_nat (length payload))" st]
  by (cases "write_all (u32_to_le (of_nat (length payload))) st" rule: prod.exhaust)
    (metis (no_types, lifting) snd_conv sum.exhaust then_at_simps write_all_in write_message_def)

section \<open>A connection\<close>

definition count_error :: "Response \<Rightarrow> ServerStats \<Rightarrow> ServerStats" where
  "count_error response stats = (case response of RsErr _ \<Rightarrow> stats\<lparr>errors := errors stats + 1\<rparr> | _ \<Rightarrow> stats)"

text \<open>
  The loop of \<open>handle_connection\<close>.  The result is the one of the thread; counters, database and
  socket are as they are when it ends.  \<open>now\<close> gives the clock when the socket still holds a given
  number of bytes.
\<close>

function handle_connection ::
  "nat \<Rightarrow> DebugText \<Rightarrow> (nat \<Rightarrow> Instant) \<Rightarrow> (bytes \<Rightarrow> string + Request) \<Rightarrow> (Response \<Rightarrow> string + bytes)
    \<Rightarrow> Sock \<Rightarrow> ServerStats \<Rightarrow> DbHandle \<Rightarrow> (ServeError + unit) run \<times> Sock \<times> ServerStats \<times> DbHandle" where
  "handle_connection fuel dbg now from_slice to_vec st stats db =
     (case read_message st of
        (Inl e, st1) \<Rightarrow> (Returns (Inl e), st1, stats, db)
      | (Inr None, st1) \<Rightarrow> (Returns (Inr ()), st1, stats, db)
      | (Inr (Some req), st1) \<Rightarrow>
          (case from_slice req of
             Inl e \<Rightarrow>
               let stats = stats\<lparr>errors := errors stats + 1\<rparr> in
               (case to_vec (RsErr (''bad request: '' @ e)) of
                  Inl _ \<Rightarrow> (Panics, st1, stats, db)
                | Inr out \<Rightarrow>
                    (case write_message out st1 of
                       (Inl e, st2) \<Rightarrow> (Returns (Inl e), st2, stats, db)
                     | (Inr _, st2) \<Rightarrow> handle_connection fuel dbg now from_slice to_vec st2 stats db))
           | Inr request \<Rightarrow>
               let stats = stats\<lparr>requests := requests stats + 1\<rparr> in
               (case dispatch_with_stats fuel dbg (now (length (s_in st1))) request stats db of
                  (Panics, stats, db) \<Rightarrow> (Panics, st1, stats, db)
                | (Unfinished, stats, db) \<Rightarrow> (Unfinished, st1, stats, db)
                | (Returns response, stats, db) \<Rightarrow>
                    let stats = count_error response stats in
                    (case to_vec response of
                       Inl e \<Rightarrow> (Returns (Inl (SeInternal e)), st1, stats, db)
                     | Inr out \<Rightarrow>
                         (case write_message out st1 of
                            (Inl e, st2) \<Rightarrow> (Returns (Inl e), st2, stats, db)
                          | (Inr _, st2) \<Rightarrow> handle_connection fuel dbg now from_slice to_vec st2 stats db)))))"
  by pat_completeness auto
termination
  by (relation "measure (\<lambda>(_, _, _, _, _, st, _, _). length (s_in st))")
    (auto dest!: read_message_shrinks [OF sym] write_message_in [OF sym])

declare handle_connection.simps [simp del]

section \<open>The client\<close>

datatype ClientError = CeIo string | CeProtocol string | CeRemote string

definition client_call :: "(Request \<Rightarrow> string + bytes) \<Rightarrow> (bytes \<Rightarrow> string + Response) \<Rightarrow> Request \<Rightarrow> Sock
    \<Rightarrow> (ClientError + Response) \<times> Sock" where
  "client_call to_vec from_slice request st =
     try_at st (map_err CeProtocol (to_vec request)) (\<lambda>payload.
       case write_message payload st of
         (Inl e, st) \<Rightarrow> (Inl (CeIo (show_serve_error e)), st)
       | (Inr _, st) \<Rightarrow>
           (case read_message st of
              (Inl e, st) \<Rightarrow> (Inl (CeIo (show_serve_error e)), st)
            | (Inr None, st) \<Rightarrow> (Inl (CeProtocol ''server closed without response''), st)
            | (Inr (Some resp_bytes), st) \<Rightarrow> (map_err CeProtocol (from_slice resp_bytes), st)))"

end
