(* ===== verification/Lock.thy ===== *)
theory Lock
  imports Server
begin

text \<open>
  The lock on the data directory (\<open>crates/alefs-server/src/lock.rs\<close>) and \<open>open_daemon\<close>: a file
  \<open>LOCK\<close> that is created when it is missing, locked with \<open>flock\<close> and removed when the lock is
  dropped.  A file is its inode; a process that opened \<open>LOCK\<close> keeps the inode even if the name is
  removed.  The step relation interleaves the system calls of several processes.
\<close>

record LockDir =
  lk_entry :: "nat option" \<comment> \<open>the inode that the name \<open>LOCK\<close> refers to\<close>
  lk_next :: nat
  lk_owner :: "nat \<Rightarrow> nat option" \<comment> \<open>the process that holds the \<open>flock\<close> of an inode\<close>

text \<open>\<open>OpenOptions::new().create(true)...open(&path)\<close>.\<close>

definition lock_open :: "LockDir \<Rightarrow> nat \<times> LockDir" where
  "lock_open d =
     (case lk_entry d of
        Some i \<Rightarrow> (i, d)
      | None \<Rightarrow> (lk_next d, d\<lparr>lk_entry := Some (lk_next d), lk_next := Suc (lk_next d)\<rparr>))"

text \<open>\<open>flock(fd, LOCK_EX | LOCK_NB)\<close> and \<open>flock(fd, LOCK_UN)\<close>.\<close>

definition flock_try :: "nat \<Rightarrow> nat \<Rightarrow> LockDir \<Rightarrow> bool \<times> LockDir" where
  "flock_try pid i d =
     (if lk_owner d i = None then (True, d\<lparr>lk_owner := (lk_owner d)(i \<mapsto> pid)\<rparr>) else (False, d))"

definition flock_unlock :: "nat \<Rightarrow> LockDir \<Rightarrow> LockDir" where
  "flock_unlock i d = d\<lparr>lk_owner := (lk_owner d)(i := None)\<rparr>"

definition remove_lock_file :: "LockDir \<Rightarrow> LockDir" where
  "remove_lock_file d = d\<lparr>lk_entry := None\<rparr>"

definition already_locked :: "string \<Rightarrow> ServeError" where
  "already_locked path = SeInternal (''data directory already locked by another process ('' @ path @ '')'')"

definition data_lock_acquire :: "string \<Rightarrow> nat \<Rightarrow> LockDir \<Rightarrow> (ServeError + nat) \<times> LockDir" where
  "data_lock_acquire path pid d =
     (case lock_open d of (file, d) \<Rightarrow>
       case flock_try pid file d of (rc, d) \<Rightarrow>
         if \<not> rc then (Inl (already_locked path), d) else (Inr file, d))"

definition data_lock_drop :: "nat \<Rightarrow> LockDir \<Rightarrow> LockDir" where
  "data_lock_drop file d = remove_lock_file (flock_unlock file d)"

text \<open>A daemon, and \<open>open_daemon\<close>: when opening the database fails the lock is dropped again.\<close>

record Daemon =
  dm_db :: DbHandle
  dm_stats :: ServerStats
  dm_shutdown :: bool
  dm_lock :: nat

definition open_daemon :: "nat \<Rightarrow> Instant \<Rightarrow> string \<Rightarrow> nat \<Rightarrow> LockDir \<Rightarrow> Disk
    \<Rightarrow> ((ServeError + Daemon) \<times> LockDir \<times> Disk) option" where
  "open_daemon fuel now path pid locks d =
     (case data_lock_acquire path pid locks of
        (Inl e, locks) \<Rightarrow> Some (Inl e, locks, d)
      | (Inr lock, locks) \<Rightarrow>
          (case open_db fuel d of
             None \<Rightarrow> None
           | Some (Inl e, d) \<Rightarrow> Some (Inl e, data_lock_drop lock locks, d)
           | Some (Inr db, d) \<Rightarrow>
               Some (Inr \<lparr>dm_db = db, dm_stats = stats_new now, dm_shutdown = False, dm_lock = lock\<rparr>, locks, d)))"

definition request_shutdown :: "Daemon \<Rightarrow> Daemon" where
  "request_shutdown daemon = daemon\<lparr>dm_shutdown := True\<rparr>"

section \<open>Processes one system call at a time\<close>

datatype Pc = Idle | Opened nat | Holds nat | Unlocked nat

inductive lock_step :: "LockDir \<times> (nat \<Rightarrow> Pc) \<Rightarrow> LockDir \<times> (nat \<Rightarrow> Pc) \<Rightarrow> bool" where
  step_open: "pc p = Idle \<Longrightarrow> lock_open d = (i, d') \<Longrightarrow> lock_step (d, pc) (d', pc(p := Opened i))"
| step_lock: "pc p = Opened i \<Longrightarrow> flock_try p i d = (True, d') \<Longrightarrow> lock_step (d, pc) (d', pc(p := Holds i))"
| step_busy: "pc p = Opened i \<Longrightarrow> flock_try p i d = (False, d') \<Longrightarrow> lock_step (d, pc) (d', pc(p := Idle))"
| step_unlock: "pc p = Holds i \<Longrightarrow> lock_step (d, pc) (flock_unlock i d, pc(p := Unlocked i))"
| step_remove: "pc p = Unlocked i \<Longrightarrow> lock_step (d, pc) (remove_lock_file d, pc(p := Idle))"
| step_crash: "pc p = Holds i \<Longrightarrow> lock_step (d, pc) (flock_unlock i d, pc(p := Idle))"

inductive_cases lock_stepE: "lock_step (d, pc) s"

abbreviation lock_steps :: "LockDir \<times> (nat \<Rightarrow> Pc) \<Rightarrow> LockDir \<times> (nat \<Rightarrow> Pc) \<Rightarrow> bool" where
  "lock_steps \<equiv> lock_step\<^sup>*\<^sup>*"

definition no_lock :: "LockDir \<times> (nat \<Rightarrow> Pc)" where
  "no_lock = (\<lparr>lk_entry = None, lk_next = 0, lk_owner = (\<lambda>_. None)\<rparr>, \<lambda>_. Idle)"

section \<open>One holder per file\<close>

definition owners_ok :: "LockDir \<times> (nat \<Rightarrow> Pc) \<Rightarrow> bool" where
  "owners_ok s \<longleftrightarrow> (\<forall>p i. snd s p = Holds i \<longleftrightarrow> lk_owner (fst s) i = Some p)"

lemma lock_open_owner: "lock_open d = (i, d') \<Longrightarrow> lk_owner d' = lk_owner d"
  by (auto simp: lock_open_def split: option.splits)

lemma flock_try_owner:
  "flock_try p i d = (True, d') \<longleftrightarrow> lk_owner d i = None \<and> d' = d\<lparr>lk_owner := (lk_owner d)(i \<mapsto> p)\<rparr>"
  "flock_try p i d = (False, d') \<longleftrightarrow> lk_owner d i \<noteq> None \<and> d' = d"
  by (auto simp: flock_try_def)

lemma owners_okD: "owners_ok (d, pc) \<Longrightarrow> lk_owner d i = Some p \<longleftrightarrow> pc p = Holds i"
  by (simp add: owners_ok_def)

lemma owners_okI: "(\<And>p i. lk_owner d i = Some p \<longleftrightarrow> pc p = Holds i) \<Longrightarrow> owners_ok (d, pc)"
  by (simp add: owners_ok_def)

lemma owners_acquire:
  assumes "owners_ok (d, pc)" "\<And>j. pc p \<noteq> Holds j" "lk_owner d i = None"
  shows "owners_ok (d\<lparr>lk_owner := (lk_owner d)(i \<mapsto> p)\<rparr>, pc(p := Holds i))"
  using owners_okD [OF assms(1)] assms(2,3) by (intro owners_okI) (auto, metis option.distinct(1))

lemma owners_release:
  assumes "owners_ok (d, pc)" "pc p = Holds i" "\<And>j. c \<noteq> Holds j"
  shows "owners_ok (flock_unlock i d, pc(p := c))"
proof (rule owners_okI)
  fix q j
  show "lk_owner (flock_unlock i d) j = Some q \<longleftrightarrow> (pc(p := c)) q = Holds j"
    using owners_okD [OF assms(1), of j q] owners_okD [OF assms(1), of i q] owners_okD [OF assms(1), of i p] assms(2,3)
    by (cases "q = p"; cases "j = i") (auto simp: flock_unlock_def)
qed

lemma owners_other:
  assumes "owners_ok (d, pc)" "lk_owner d' = lk_owner d" "\<And>j. pc p \<noteq> Holds j" "\<And>j. c \<noteq> Holds j"
  shows "owners_ok (d', pc(p := c))"
  using owners_okD [OF assms(1)] assms(2-4) by (intro owners_okI) auto

lemma owners_step: "lock_step s s' \<Longrightarrow> owners_ok s \<Longrightarrow> owners_ok s'"
proof (induction rule: lock_step.induct)
  case (step_lock pc p i d d')
  then show ?case using owners_acquire [of d pc p i] by (simp add: flock_try_owner)
qed (auto simp: flock_try_owner remove_lock_file_def lock_open_owner intro: owners_release owners_other)

lemma owners_steps: "lock_steps s s' \<Longrightarrow> owners_ok s \<Longrightarrow> owners_ok s'"
  by (induction rule: rtranclp_induct) (auto intro: owners_step)

section \<open>Whole calls\<close>

text \<open>The same processes when \<open>acquire\<close> and \<open>drop\<close> are never interleaved with another call.\<close>

inductive whole_step :: "LockDir \<times> (nat \<Rightarrow> Pc) \<Rightarrow> LockDir \<times> (nat \<Rightarrow> Pc) \<Rightarrow> bool" where
  whole_acquire: "pc p = Idle \<Longrightarrow> data_lock_acquire path p d = (Inr i, d') \<Longrightarrow> whole_step (d, pc) (d', pc(p := Holds i))"
| whole_refused: "pc p = Idle \<Longrightarrow> data_lock_acquire path p d = (Inl e, d') \<Longrightarrow> whole_step (d, pc) (d', pc)"
| whole_drop: "pc p = Holds i \<Longrightarrow> whole_step (d, pc) (data_lock_drop i d, pc(p := Idle))"
| whole_crash: "pc p = Holds i \<Longrightarrow> whole_step (d, pc) (flock_unlock i d, pc(p := Idle))"

text \<open>Only the file that the name refers to is locked.\<close>

definition named :: "LockDir \<Rightarrow> bool" where
  "named d \<longleftrightarrow> (\<forall>i p. lk_owner d i = Some p \<longrightarrow> lk_entry d = Some i)"

definition one_holder :: "LockDir \<times> (nat \<Rightarrow> Pc) \<Rightarrow> bool" where
  "one_holder s \<longleftrightarrow> named (fst s) \<and> owners_ok s"

lemma named_open: "named d \<Longrightarrow> lock_open d = (i, d1) \<Longrightarrow> named d1 \<and> lk_entry d1 = Some i"
  by (auto simp: named_def lock_open_def split: option.splits)

lemma one_holder_step: "whole_step s s' \<Longrightarrow> one_holder s \<Longrightarrow> one_holder s'"
proof (induction rule: whole_step.induct)
  case (whole_acquire pc p path d i d')
  obtain d1 where o: "lock_open d = (i, d1)" "lk_owner d1 i = None" "d' = d1\<lparr>lk_owner := (lk_owner d1)(i \<mapsto> p)\<rparr>"
    using whole_acquire(2) by (auto simp: data_lock_acquire_def flock_try_def split: prod.splits if_splits)
  have n: "named d1" "lk_entry d1 = Some i" using named_open [OF _ o(1)] whole_acquire(3) by (simp_all add: one_holder_def)
  have "owners_ok (d1, pc)" using whole_acquire(3) lock_open_owner [OF o(1)] by (simp add: one_holder_def owners_ok_def)
  then have "owners_ok (d', pc(p := Holds i))" unfolding o(3) by (rule owners_acquire) (use whole_acquire(1) o(2) in simp_all)
  moreover have "named d'" using n o(3) by (simp add: named_def)
  ultimately show ?case by (simp add: one_holder_def)
next
  case (whole_refused pc p path d e d')
  obtain i where o: "lock_open d = (i, d')"
    using whole_refused(2) by (auto simp: data_lock_acquire_def flock_try_def split: prod.splits if_splits)
  then show ?case using named_open [OF _ o] lock_open_owner [OF o] whole_refused(3) by (simp add: one_holder_def owners_ok_def)
next
  case (whole_drop pc p i d)
  have o: "owners_ok (flock_unlock i d, pc(p := Idle))"
    using whole_drop by (intro owners_release) (simp_all add: one_holder_def)
  have "lk_owner d i = Some p" using owners_okD [of d pc i p] whole_drop by (simp add: one_holder_def)
  then have "lk_owner d j = None" if "j \<noteq> i" for j
    using whole_drop(2) that unfolding one_holder_def named_def fst_conv by (metis option.exhaust option.inject)
  then have "named (data_lock_drop i d)" by (simp add: named_def data_lock_drop_def remove_lock_file_def flock_unlock_def)
  with o show ?case by (simp add: one_holder_def owners_ok_def data_lock_drop_def remove_lock_file_def)
next
  case (whole_crash pc p i d)
  have "owners_ok (flock_unlock i d, pc(p := Idle))"
    using whole_crash by (intro owners_release) (simp_all add: one_holder_def)
  then show ?case using whole_crash(2) by (simp add: one_holder_def named_def flock_unlock_def)
qed

section \<open>Properties\<close>

text \<open>
  C19. The lock admits one daemon at a time as long as the calls do not interleave.  In every state
  that processes reach by whole calls of \<open>acquire\<close> and \<open>drop\<close> and by crashes, no two processes hold
  the lock.
\<close>

theorem lock_excludes_whole_calls:
  assumes "whole_step\<^sup>*\<^sup>* no_lock (d, pc)" and "pc p = Holds i" and "pc q = Holds j"
  shows "p = q"
proof -
  have "one_holder no_lock" by (simp add: one_holder_def named_def owners_ok_def no_lock_def)
  with assms(1) have "one_holder (d, pc)" by (induction rule: rtranclp_induct) (auto intro: one_holder_step)
  then have "owners_ok (d, pc)" "named d" by (simp_all add: one_holder_def)
  moreover have o: "lk_owner d i = Some p" "lk_owner d j = Some q"
    using owners_okD [OF calculation(1)] assms(2,3) by simp_all
  ultimately have "lk_entry d = Some i" "lk_entry d = Some j" unfolding named_def by blast+
  then show ?thesis using o by simp
qed

theorem lock_excludes_whole_calls_witness:
  "\<exists>d pc. whole_step\<^sup>*\<^sup>* no_lock (d, pc) \<and> pc 7 = Holds 0 \<and> (\<forall>q j. pc q = Holds j \<longrightarrow> 7 = q)"
proof -
  let ?d = "\<lparr>lk_entry = Some 0, lk_next = 1, lk_owner = [0 \<mapsto> 7]\<rparr>" and ?pc = "(\<lambda>_. Idle)(7 := Holds 0)"
  have "data_lock_acquire [] 7 (fst no_lock) = (Inr 0, ?d)"
    by (simp add: data_lock_acquire_def lock_open_def flock_try_def no_lock_def)
  then have "whole_step (fst no_lock, \<lambda>_. Idle) (?d, ?pc)" by (rule whole_acquire [rotated]) simp
  moreover have "no_lock = (fst no_lock, \<lambda>_. Idle)" by (simp add: no_lock_def)
  ultimately have run: "whole_step\<^sup>*\<^sup>* no_lock (?d, ?pc)" using r_into_rtranclp [of whole_step] by metis
  have "?pc 7 = Holds 0" by simp
  from lock_excludes_whole_calls [OF run this] run this show ?thesis by blast
qed

text \<open>
  C20. Interleaved, it does not.  \<open>drop\<close> first unlocks the file and then removes its name.  Between the
  two another process can lock the same file; the name is then removed under it, and a third process
  creates and locks a new file.  Two daemons then hold the lock of one data directory.
\<close>

theorem lock_race_admits_two_holders:
  "\<exists>d pc i j. lock_steps no_lock (d, pc) \<and> pc 1 = Holds i \<and> pc 2 = Holds j"
proof -
  define fs where "fs = (\<lambda>e n own. \<lparr>lk_entry = e, lk_next = n, lk_owner = own\<rparr>)"
  define pcs where "pcs = (\<lambda>a b c p. if p = 0 then a else if p = 1 then b else if p = (2 :: nat) then c else Idle)"
  have upd: "(pcs a b c)(0 := x) = pcs x b c" "(pcs a b c)(1 := x) = pcs a x c" "(pcs a b c)(2 := x) = pcs a b x" for a b c x
    by (auto simp: pcs_def)
  have at: "pcs a b c 0 = a" "pcs a b c 1 = b" "pcs a b c 2 = c" for a b c by (simp_all add: pcs_def)
  note defs = lock_open_def flock_try_def flock_unlock_def remove_lock_file_def fs_def
  have s0: "no_lock = (fs None 0 (\<lambda>_. None), pcs Idle Idle Idle)" by (auto simp: no_lock_def fs_def pcs_def)
  have s1: "lock_step (fs None 0 (\<lambda>_. None), pcs Idle Idle Idle) (fs (Some 0) 1 (\<lambda>_. None), pcs (Opened 0) Idle Idle)"
    using step_open [of "pcs Idle Idle Idle" 0] unfolding upd at by (simp add: defs)
  have s2: "lock_step (fs (Some 0) 1 (\<lambda>_. None), pcs (Opened 0) Idle Idle) (fs (Some 0) 1 [0 \<mapsto> 0], pcs (Holds 0) Idle Idle)"
    using step_lock [of "pcs (Opened 0) Idle Idle" 0 0] unfolding upd at by (simp add: defs)
  have s3: "lock_step (fs (Some 0) 1 [0 \<mapsto> 0], pcs (Holds 0) Idle Idle) (fs (Some 0) 1 (\<lambda>_. None), pcs (Unlocked 0) Idle Idle)"
    using step_unlock [of "pcs (Holds 0) Idle Idle" 0 0 "fs (Some 0) 1 [0 \<mapsto> 0]"] unfolding upd at by (simp add: defs)
  have s4: "lock_step (fs (Some 0) 1 (\<lambda>_. None), pcs (Unlocked 0) Idle Idle) (fs (Some 0) 1 (\<lambda>_. None), pcs (Unlocked 0) (Opened 0) Idle)"
    using step_open [of "pcs (Unlocked 0) Idle Idle" 1] unfolding upd at by (simp add: defs)
  have s5: "lock_step (fs (Some 0) 1 (\<lambda>_. None), pcs (Unlocked 0) (Opened 0) Idle) (fs (Some 0) 1 [0 \<mapsto> 1], pcs (Unlocked 0) (Holds 0) Idle)"
    using step_lock [of "pcs (Unlocked 0) (Opened 0) Idle" 1 0] unfolding upd at by (simp add: defs)
  have s6: "lock_step (fs (Some 0) 1 [0 \<mapsto> 1], pcs (Unlocked 0) (Holds 0) Idle) (fs None 1 [0 \<mapsto> 1], pcs Idle (Holds 0) Idle)"
    using step_remove [of "pcs (Unlocked 0) (Holds 0) Idle" 0 0 "fs (Some 0) 1 [0 \<mapsto> 1]"] unfolding upd at by (simp add: defs)
  have s7: "lock_step (fs None 1 [0 \<mapsto> 1], pcs Idle (Holds 0) Idle) (fs (Some 1) 2 [0 \<mapsto> 1], pcs Idle (Holds 0) (Opened 1))"
    using step_open [of "pcs Idle (Holds 0) Idle" 2] unfolding upd at by (simp add: defs numeral_2_eq_2)
  have s8: "lock_step (fs (Some 1) 2 [0 \<mapsto> 1], pcs Idle (Holds 0) (Opened 1)) (fs (Some 1) 2 [0 \<mapsto> 1, 1 \<mapsto> 2], pcs Idle (Holds 0) (Holds 1))"
    using step_lock [of "pcs Idle (Holds 0) (Opened 1)" 2 1] unfolding upd at by (simp add: defs)
  have "lock_steps no_lock (fs (Some 1) 2 [0 \<mapsto> 1, 1 \<mapsto> 2], pcs Idle (Holds 0) (Holds 1))"
    unfolding s0 by (rule converse_rtranclp_into_rtranclp [of lock_step, OF s1] converse_rtranclp_into_rtranclp [of lock_step, OF s2]
      converse_rtranclp_into_rtranclp [of lock_step, OF s3] converse_rtranclp_into_rtranclp [of lock_step, OF s4] converse_rtranclp_into_rtranclp [of lock_step, OF s5]
      converse_rtranclp_into_rtranclp [of lock_step, OF s6] converse_rtranclp_into_rtranclp [of lock_step, OF s7] r_into_rtranclp [of lock_step, OF s8])+
  then show ?thesis using at by blast
qed

end
