(* ===== verification/Projection.thy ===== *)
theory Projection
  imports Server
begin

text \<open>
  How the mount shows a value as files (\<open>crates/alefs-fuse/src/lib.rs\<close>, the functions outside the
  \<open>Filesystem\<close> implementation): a scalar is a regular file with its text, a hash, list, set or tree is
  a directory of its members.  The members of a set are named by a hash of their encoding; the
  algorithm of \<open>DefaultHasher\<close> is documented as unspecified, so it is the argument \<open>hash\<close>.
\<close>

datatype FileType = FtDirectory | RegularFile

text \<open>\<open>fuser::FileAttr\<close> without the four times, which are the clock, and the user and group ids.\<close>

record FileAttr =
  fa_ino :: u64
  fa_size :: u64
  fa_blocks :: u64
  fa_kind :: FileType
  fa_perm :: nat
  fa_nlink :: u32
  fa_rdev :: u32
  fa_blksize :: u32
  fa_flags :: u32

section \<open>Scalars as text\<close>

fun scalar_bytes :: "Scalar \<Rightarrow> bytes" where
  "scalar_bytes Null = as_bytes ''null''"
| "scalar_bytes (Bool b) = (if b then as_bytes ''true'' else as_bytes ''false'')"
| "scalar_bytes (IntV n) = as_bytes (show_int (sint n))"
| "scalar_bytes (Float bits) = as_bytes (show_f64 bits)"
| "scalar_bytes (String s) = as_bytes s"
| "scalar_bytes (Bytes b) = b"

text \<open>\<open>from_utf8(data).map_err(|_| ())\<close> and the discarded errors of \<open>parse\<close>.\<close>

abbreviation utf8_text :: "bytes \<Rightarrow> unit + string" where
  "utf8_text data \<equiv> ok_or () (from_utf8 data)"

abbreviation no_detail :: "'e + 'a \<Rightarrow> unit + 'a" where
  "no_detail \<equiv> map_err (\<lambda>_. ())"

fun parse_scalar_text :: "Scalar \<Rightarrow> bytes \<Rightarrow> unit + Scalar" where
  "parse_scalar_text (Bytes _) data = Inr (Bytes data)"
| "parse_scalar_text (String _) data = and_then (utf8_text data) (\<lambda>s. Inr (String s))"
| "parse_scalar_text (IntV _) data =
     and_then (utf8_text data) (\<lambda>s. and_then (no_detail (parse_i64 (trim s))) (\<lambda>n. Inr (IntV n)))"
| "parse_scalar_text (Float _) data =
     and_then (utf8_text data) (\<lambda>s. and_then (no_detail (parse_f64 (trim s))) (\<lambda>f. Inr (from_f64 f)))"
| "parse_scalar_text (Bool _) data =
     and_then (utf8_text data) (\<lambda>s.
       if trim s = ''true'' \<or> trim s = ''1'' then Inr (Bool True)
       else if trim s = ''false'' \<or> trim s = ''0'' then Inr (Bool False)
       else Inl ())"
| "parse_scalar_text Null data =
     and_then (utf8_text data) (\<lambda>s. if trim s = ''null'' \<or> trim s = [] then Inr Null else Inl ())"

definition type_xattr :: "Value option \<Rightarrow> EntryKind \<Rightarrow> string" where
  "type_xattr val kind =
     (case kind of
        Directory \<Rightarrow> ''directory''
      | EntryValue \<Rightarrow> (case val of Some v \<Rightarrow> typename v | None \<Rightarrow> ''unknown''))"

section \<open>Attributes\<close>

text \<open>\<open>AlefsFs::attr_for\<close>: the kind and size, then the record around them.  The caller fills in the inode.
  The permissions are \<open>0o755\<close> and \<open>0o644\<close>.\<close>

fun attr_kind :: "EntryKind \<Rightarrow> Value option \<Rightarrow> FileType \<times> u64" where
  "attr_kind Directory _ = (FtDirectory, 0)"
| "attr_kind EntryValue (Some (Scalar s)) = (RegularFile, of_nat (length (scalar_bytes s)))"
| "attr_kind EntryValue (Some (Hash _)) = (FtDirectory, 0)"
| "attr_kind EntryValue (Some (Set _)) = (FtDirectory, 0)"
| "attr_kind EntryValue (Some (List _)) = (FtDirectory, 0)"
| "attr_kind EntryValue (Some (Tree _)) = (FtDirectory, 0)"
| "attr_kind EntryValue None = (RegularFile, 0)"

definition attr_for :: "EntryKind \<Rightarrow> Value option \<Rightarrow> FileAttr" where
  "attr_for kind val =
     (case attr_kind kind val of (kind_ft, bytes) \<Rightarrow>
       \<lparr>fa_ino = 0, fa_size = bytes, fa_blocks = 1, fa_kind = kind_ft,
        fa_perm = (if kind_ft = FtDirectory then 493 else 420),
        fa_nlink = 1, fa_rdev = 0, fa_blksize = 512, fa_flags = 0\<rparr>)"

section \<open>Members of a structure\<close>

text \<open>\<open>format!("{:016x}", h.finish())\<close>.\<close>

definition set_member_name :: "(bytes \<Rightarrow> u64) \<Rightarrow> Value \<Rightarrow> string" where
  "set_member_name hash v = concat (map show_hex02 (u64_to_be (hash (encode_payload v))))"

text \<open>The name of a tree key; the last four lines are its derived \<open>Debug\<close> text.\<close>

fun tree_member_name :: "Scalar \<Rightarrow> string" where
  "tree_member_name (String s) = s"
| "tree_member_name (IntV n) = show_int (sint n)"
| "tree_member_name Null = ''Null''"
| "tree_member_name (Bool b) = ''Bool('' @ show_bool b @ '')''"
| "tree_member_name (Float bits) = ''Float('' @ show_nat (unat bits) @ '')''"
| "tree_member_name (Bytes b) = ''Bytes(['' @ join_with '', '' (map (\<lambda>x. show_nat (unat x)) b) @ ''])''"

fun member_type :: "Value option \<Rightarrow> FileType" where
  "member_type (Some (Scalar _)) = RegularFile"
| "member_type _ = FtDirectory"

fun project_listing :: "(bytes \<Rightarrow> u64) \<Rightarrow> Value \<Rightarrow> (string \<times> FileType) list" where
  "project_listing hash (Hash m) = map (\<lambda>k. (k, member_type (bt_get m k))) (map fst m)"
| "project_listing hash (List items) = map (\<lambda>(i, v). (show_nat i, member_type (Some v))) (enumerate 0 items)"
| "project_listing hash (Set members) = map (\<lambda>m. (set_member_name hash m, RegularFile)) members"
| "project_listing hash (Tree m) = map (\<lambda>k. (tree_member_name k, RegularFile)) (map fst m)"
| "project_listing hash (Scalar _) = []"

fun format_member_hint :: "Value \<Rightarrow> string" where
  "format_member_hint (Scalar (String s)) = s"
| "format_member_hint (Scalar (IntV n)) = show_int (sint n)"
| "format_member_hint (Scalar (Bool b)) = show_bool b"
| "format_member_hint (Scalar Null) = ''null''"
| "format_member_hint (Scalar (Float bits)) = show_f64 bits"
| "format_member_hint (Scalar (Bytes b)) = ''bytes['' @ show_nat (length b) @ '']''"
| "format_member_hint other = ''<'' @ typename other @ ''>''"

text \<open>\<open>items.get(idx)\<close> and \<open>str::parse::<usize>(name).ok()\<close>.\<close>

definition item_index :: "string \<Rightarrow> nat option" where
  "item_index name = (case parse_usize name of Inr i \<Rightarrow> Some (unat i) | Inl _ \<Rightarrow> None)"

definition item_at :: "'a list \<Rightarrow> nat \<Rightarrow> 'a option" where
  "item_at items i = (if i < length items then Some (items ! i) else None)"

fun project_child_value :: "(bytes \<Rightarrow> u64) \<Rightarrow> Value \<Rightarrow> string \<Rightarrow> Value option" where
  "project_child_value hash (Hash m) name = bt_get m name"
| "project_child_value hash (List items) name = Option.bind (item_index name) (item_at items)"
| "project_child_value hash (Set members) name = find (\<lambda>m. set_member_name hash m = name) members"
| "project_child_value hash (Tree m) name =
     (case (case parse_i64 name of Inr n \<Rightarrow> bt_get m (IntV n) | Inl _ \<Rightarrow> None) of
        Some v \<Rightarrow> Some v
      | None \<Rightarrow> bt_get m (String name))"
| "project_child_value hash (Scalar _) name = None"

definition project_child_attr :: "(bytes \<Rightarrow> u64) \<Rightarrow> Value \<Rightarrow> string \<Rightarrow> FileAttr option" where
  "project_child_attr hash val name =
     map_option (\<lambda>v. attr_for EntryValue (Some v)) (project_child_value hash val name)"

definition project_child_bytes :: "(bytes \<Rightarrow> u64) \<Rightarrow> Value \<Rightarrow> string \<Rightarrow> bytes option" where
  "project_child_bytes hash val name =
     (case project_child_value hash val name of Some (Scalar s) \<Rightarrow> Some (scalar_bytes s) | _ \<Rightarrow> None)"

text \<open>\<open>m.remove(key)?\<close> of a \<open>BTreeMap\<close>.\<close>

definition remove_some :: "'k::linorder \<Rightarrow> ('k \<times> 'v) list \<Rightarrow> ('k \<times> 'v) list option" where
  "remove_some k m = (if bt_get m k = None then None else Some (bt_remove k m))"

fun project_unlink :: "(bytes \<Rightarrow> u64) \<Rightarrow> Value \<Rightarrow> string \<Rightarrow> Value option" where
  "project_unlink hash (Hash m) name = map_option Hash (remove_some name m)"
| "project_unlink hash (List items) name =
     Option.bind (item_index name) (\<lambda>i.
       if i < length items then Some (List (take i items @ drop (Suc i) items)) else None)"
| "project_unlink hash (Set members) name =
     (let kept = filter (\<lambda>m. set_member_name hash m \<noteq> name) members in
      if length kept = length members then None else Some (Set kept))"
| "project_unlink hash (Tree m) name =
     map_option Tree (case parse_i64 name of
         Inr n \<Rightarrow> remove_some (IntV n) m
       | Inl _ \<Rightarrow> remove_some (String name) m)"
| "project_unlink hash (Scalar _) name = None"

end
