(* ===== verification/Fuse.thy ===== *)
theory Fuse
  imports Projection
begin

text \<open>
  The file system over a database (\<open>AlefsFs\<close> in \<open>crates/alefs-fuse/src/lib.rs\<close>): the table of inodes,
  the buffers of unflushed writes and one definition per callback of \<open>fuser::Filesystem\<close>.  A callback
  takes the arguments the code uses and gives the reply it sends, with the file system afterwards; it
  panics when the database's mutex is poisoned.  Names are the bytes of an \<open>OsStr\<close>; offsets are
  \<open>i64\<close> values cast to \<open>usize\<close>.
\<close>

datatype Errno = ENOENT | EINVAL | EIO | EISDIR | EPERM | ENODATA | ERANGE | ENOTSUP

type_synonym DirRow = "u64 \<times> i64 \<times> FileType \<times> string" \<comment> \<open>inode, next offset, type and name\<close>

datatype Reply =
    ReplyEntry FileAttr
  | ReplyAttr FileAttr
  | ReplyData bytes
  | ReplyWritten u32
  | ReplyOk
  | ReplyDir "DirRow list"
  | ReplyXattrSize u32
  | ReplyXattr bytes
  | ReplyCreated FileAttr
  | ReplyError Errno

record Fs =
  fs_db :: DbHandle
  ino_to_path :: "u64 \<rightharpoonup> string"
  path_to_ino :: "string \<rightharpoonup> u64"
  next_ino :: u64
  dirty :: "u64 \<rightharpoonup> bytes"

section \<open>The table of inodes\<close>

definition FUSE_ROOT_ID :: u64 where
  "FUSE_ROOT_ID = 1"

definition fs_new :: "DbHandle \<Rightarrow> Fs" where
  "fs_new db =
     \<lparr>fs_db = db, ino_to_path = [FUSE_ROOT_ID \<mapsto> ''/''], path_to_ino = [''/'' \<mapsto> FUSE_ROOT_ID],
      next_ino = FUSE_ROOT_ID + 1, dirty = Map.empty\<rparr>"

definition path_for_ino :: "Fs \<Rightarrow> u64 \<Rightarrow> string option" where
  "path_for_ino fs ino = ino_to_path fs ino"

definition ino_for_path :: "string \<Rightarrow> Fs \<Rightarrow> u64 \<times> Fs" where
  "ino_for_path path fs =
     (case path_to_ino fs path of
        Some ino \<Rightarrow> (ino, fs)
      | None \<Rightarrow>
          let ino = next_ino fs in
          (ino, fs\<lparr>next_ino := ino + 1, path_to_ino := (path_to_ino fs)(path \<mapsto> ino),
                   ino_to_path := (ino_to_path fs)(ino \<mapsto> path)\<rparr>))"

section \<open>Common steps\<close>

abbreviation fail :: "Errno \<Rightarrow> Fs \<Rightarrow> Reply run \<times> Fs" where
  "fail e fs \<equiv> (Returns (ReplyError e), fs)"

text \<open>\<open>self.db.lock().unwrap()\<close>.\<close>

definition locked :: "Fs \<Rightarrow> (WalStorage \<Rightarrow> 'r run \<times> Fs) \<Rightarrow> 'r run \<times> Fs" where
  "locked fs k = (if poisoned (fs_db fs) then (Panics, fs) else k (hd_db (fs_db fs)))"

definition put_db :: "WalStorage \<Rightarrow> Fs \<Rightarrow> Fs" where
  "put_db d fs = fs\<lparr>fs_db := (fs_db fs)\<lparr>hd_db := d\<rparr>\<rparr>"

definition child_path :: "string \<Rightarrow> string \<Rightarrow> string" where
  "child_path parent_path name = (if parent_path = ''/'' then ''/'' @ name else parent_path @ ''/'' @ name)"

text \<open>The opening of the callbacks with a parent and a name: the path of the parent, then \<open>name.to_str()\<close>.\<close>

definition at_child :: "u64 \<Rightarrow> bytes \<Rightarrow> Fs \<Rightarrow> (string \<Rightarrow> string \<Rightarrow> Reply run \<times> Fs) \<Rightarrow> Reply run \<times> Fs" where
  "at_child parent name fs k =
     (case path_for_ino fs parent of
        None \<Rightarrow> fail ENOENT fs
      | Some parent_path \<Rightarrow>
          (case from_utf8 name of None \<Rightarrow> fail EINVAL fs | Some name \<Rightarrow> k parent_path name))"

text \<open>\<open>if let Ok(entry) = db.get(path) { if let Some(val) = entry.value\<close>.\<close>

definition value_of :: "WalStorage \<Rightarrow> DbPath \<Rightarrow> Value option" where
  "value_of db path = (case db_get wal_storage db path of Inr entry \<Rightarrow> e_value entry | Inl _ \<Rightarrow> None)"

definition last_name :: "DbPath \<Rightarrow> string" where
  "last_name path = (case path_name path of Some name \<Rightarrow> name | None \<Rightarrow> [])"

text \<open>The value at the parent of a path, and the name below it.\<close>

definition parent_value :: "WalStorage \<Rightarrow> DbPath \<Rightarrow> Value option" where
  "parent_value db path = Option.bind (path_parent path) (value_of db)"

definition give_entry :: "(FileAttr \<Rightarrow> Reply) \<Rightarrow> FileAttr \<Rightarrow> string \<Rightarrow> Fs \<Rightarrow> Reply run \<times> Fs" where
  "give_entry reply attr path fs =
     (case ino_for_path path fs of (ino, fs) \<Rightarrow> (Returns (reply (attr\<lparr>fa_ino := ino\<rparr>)), fs))"

section \<open>Looking up and reading\<close>

definition fuse_lookup :: "(bytes \<Rightarrow> u64) \<Rightarrow> u64 \<Rightarrow> bytes \<Rightarrow> Fs \<Rightarrow> Reply run \<times> Fs" where
  "fuse_lookup hash parent name fs =
     at_child parent name fs (\<lambda>parent_path name.
       let child = child_path parent_path name in
       locked fs (\<lambda>db.
         case path_parse child of
           Inl _ \<Rightarrow> fail ENOENT fs
         | Inr path \<Rightarrow>
             (let parent_db = (case path_parse parent_path of Inr p \<Rightarrow> p | Inl _ \<Rightarrow> path_root) in
              case Option.bind (value_of db parent_db) (\<lambda>val. project_child_attr hash val name) of
                Some attr \<Rightarrow> give_entry ReplyEntry attr child fs
              | None \<Rightarrow>
                  (case db_get wal_storage db path of
                     Inr entry \<Rightarrow> give_entry ReplyEntry (attr_for (e_kind entry) (e_value entry)) child fs
                   | Inl _ \<Rightarrow> fail ENOENT fs))))"

text \<open>The attributes of a file with unflushed writes.\<close>

definition dirty_attr :: "u64 \<Rightarrow> bytes \<Rightarrow> FileAttr" where
  "dirty_attr ino data =
     \<lparr>fa_ino = ino, fa_size = of_nat (length data), fa_blocks = 1, fa_kind = RegularFile, fa_perm = 420,
      fa_nlink = 1, fa_rdev = 0, fa_blksize = 512, fa_flags = 0\<rparr>"

definition fuse_getattr :: "(bytes \<Rightarrow> u64) \<Rightarrow> u64 \<Rightarrow> Fs \<Rightarrow> Reply run \<times> Fs" where
  "fuse_getattr hash ino fs =
     (case path_for_ino fs ino of
        None \<Rightarrow> fail ENOENT fs
      | Some path_str \<Rightarrow>
          (case dirty fs ino of
             Some data \<Rightarrow> (Returns (ReplyAttr (dirty_attr ino data)), fs)
           | None \<Rightarrow>
               locked fs (\<lambda>db.
                 case path_parse path_str of
                   Inl _ \<Rightarrow> fail ENOENT fs
                 | Inr path \<Rightarrow>
                     (case db_get wal_storage db path of
                        Inr entry \<Rightarrow> (Returns (ReplyAttr ((attr_for (e_kind entry) (e_value entry))\<lparr>fa_ino := ino\<rparr>)), fs)
                      | Inl _ \<Rightarrow>
                          (case Option.bind (parent_value db path) (\<lambda>val. project_child_attr hash val (last_name path)) of
                             Some attr \<Rightarrow> (Returns (ReplyAttr (attr\<lparr>fa_ino := ino\<rparr>)), fs)
                           | None \<Rightarrow> fail ENOENT fs)))))"

text \<open>The part of \<open>data\<close> from \<open>offset\<close>, at most \<open>size\<close> bytes.\<close>

definition data_slice :: "i64 \<Rightarrow> u32 \<Rightarrow> bytes \<Rightarrow> bytes" where
  "data_slice offset count data =
     (let start = unat offset in
      if start \<ge> length data then []
      else let stop = min (start + unat count) (length data) in take (stop - start) (drop start data))"

definition fuse_read :: "(bytes \<Rightarrow> u64) \<Rightarrow> u64 \<Rightarrow> i64 \<Rightarrow> u32 \<Rightarrow> Fs \<Rightarrow> Reply run \<times> Fs" where
  "fuse_read hash ino offset count fs =
     (case dirty fs ino of
        Some data \<Rightarrow> (Returns (ReplyData (data_slice offset count data)), fs)
      | None \<Rightarrow>
          (case path_for_ino fs ino of
             None \<Rightarrow> fail ENOENT fs
           | Some path_str \<Rightarrow>
               locked fs (\<lambda>db.
                 case path_parse path_str of
                   Inl _ \<Rightarrow> fail ENOENT fs
                 | Inr path \<Rightarrow>
                     (case value_of db path of
                        Some (Scalar s) \<Rightarrow> (Returns (ReplyData (data_slice offset count (scalar_bytes s))), fs)
                      | _ \<Rightarrow>
                          (case Option.bind (parent_value db path) (\<lambda>val. project_child_bytes hash val (last_name path)) of
                             Some data \<Rightarrow> (Returns (ReplyData (data_slice offset count data)), fs)
                           | None \<Rightarrow> fail EISDIR fs)))))"

section \<open>Writing\<close>

text \<open>
  The buffer starts empty and grows with zeros up to the end of the written range.  If
  \<open>offset as usize + data.len()\<close> does not fit \<open>usize\<close>, the addition panics with overflow checks and the
  slice index \<open>offset..end\<close> panics without them.
\<close>

definition write_at :: "nat \<Rightarrow> bytes \<Rightarrow> bytes \<Rightarrow> bytes" where
  "write_at offset data buf =
     (let stop = offset + length data;
          buf = (if length buf < stop then buf @ replicate (stop - length buf) 0 else buf)
      in take offset buf @ data @ drop stop buf)"

definition fuse_write :: "u64 \<Rightarrow> i64 \<Rightarrow> bytes \<Rightarrow> Fs \<Rightarrow> Reply run \<times> Fs" where
  "fuse_write ino offset data fs =
     (let buf = (case dirty fs ino of Some buf \<Rightarrow> buf | None \<Rightarrow> []) in
      if unat offset + length data \<ge> 2 ^ 64 then (Panics, fs)
      else (Returns (ReplyWritten (len_u32 data)), fs\<lparr>dirty := (dirty fs)(ino \<mapsto> write_at (unat offset) data buf)\<rparr>))"

text \<open>\<open>db.set(path, val).map_err(|_| EIO)?; Ok(())\<close> on the locked database.\<close>

definition commit_value :: "DbPath \<Rightarrow> Value \<Rightarrow> WalStorage \<Rightarrow> Fs \<Rightarrow> (Errno + unit) run \<times> Fs" where
  "commit_value path val db fs =
     (case db_set wal_storage path val db of (r, db) \<Rightarrow> (Returns (map_err (\<lambda>_. EIO) r), put_db db fs))"

definition commit_dirty :: "u64 \<Rightarrow> Fs \<Rightarrow> (Errno + unit) run \<times> Fs" where
  "commit_dirty ino fs =
     (case dirty fs ino of
        None \<Rightarrow> (Returns (Inr ()), fs)
      | Some data \<Rightarrow>
          let fs = fs\<lparr>dirty := (dirty fs)(ino := None)\<rparr> in
          (case path_for_ino fs ino of
             None \<Rightarrow> (Returns (Inl ENOENT), fs)
           | Some path_str \<Rightarrow>
               locked fs (\<lambda>db.
                 case path_parse path_str of
                   Inl _ \<Rightarrow> (Returns (Inl EINVAL), fs)
                 | Inr path \<Rightarrow>
                     (case db_get wal_storage db path of
                        Inr entry \<Rightarrow>
                          (case e_value entry of
                             Some (Scalar existing) \<Rightarrow>
                               (case parse_scalar_text existing data of
                                  Inl _ \<Rightarrow> (Returns (Inl EINVAL), fs)
                                | Inr new_s \<Rightarrow> commit_value path (Scalar new_s) db fs)
                           | _ \<Rightarrow> (Returns (Inl EPERM), fs))
                      | Inl _ \<Rightarrow>
                          (case path_parent path of
                             None \<Rightarrow> (Returns (Inl ENOENT), fs)
                           | Some parent \<Rightarrow>
                               (case value_of db parent of
                                  Some (Hash m) \<Rightarrow>
                                    (let name = last_name path in
                                     case (case bt_get m name of Some v \<Rightarrow> v | None \<Rightarrow> value_string []) of
                                       Scalar s \<Rightarrow>
                                         (case parse_scalar_text s data of
                                            Inl _ \<Rightarrow> (Returns (Inl EINVAL), fs)
                                          | Inr new_s \<Rightarrow> commit_value parent (Hash (bt_insert name (Scalar new_s) m)) db fs)
                                     | _ \<Rightarrow> (Returns (Inl EPERM), fs))
                                | _ \<Rightarrow> (Returns (Inl ENOENT), fs)))))))"

definition empty_reply :: "(Errno + unit) run \<times> Fs \<Rightarrow> Reply run \<times> Fs" where
  "empty_reply r =
     (case r of
        (Returns (Inl e), fs) \<Rightarrow> fail e fs
      | (Returns (Inr _), fs) \<Rightarrow> (Returns ReplyOk, fs)
      | (Panics, fs) \<Rightarrow> (Panics, fs)
      | (Unfinished, fs) \<Rightarrow> (Unfinished, fs))"

definition fuse_flush :: "u64 \<Rightarrow> Fs \<Rightarrow> Reply run \<times> Fs" where
  "fuse_flush ino fs = empty_reply (commit_dirty ino fs)"

definition fuse_fsync :: "u64 \<Rightarrow> Fs \<Rightarrow> Reply run \<times> Fs" where
  "fuse_fsync ino fs = empty_reply (commit_dirty ino fs)"

section \<open>Listing\<close>

text \<open>The type of a listed child; \<open>None\<close> stands for the panic of \<open>path.join(&name).unwrap()\<close>.\<close>

definition listed_type :: "WalStorage \<Rightarrow> DbPath \<Rightarrow> string \<times> EntryKind \<Rightarrow> (string \<times> FileType) option" where
  "listed_type db path e =
     (case e of (name, kind) \<Rightarrow>
       case kind of
         Directory \<Rightarrow> Some (name, FtDirectory)
       | EntryValue \<Rightarrow>
           (case path_join path name of
              Inl _ \<Rightarrow> None
            | Inr child \<Rightarrow> Some (name, case value_of db child of Some (Scalar _) \<Rightarrow> RegularFile | _ \<Rightarrow> FtDirectory)))"

definition dir_entries :: "(bytes \<Rightarrow> u64) \<Rightarrow> WalStorage \<Rightarrow> DbPath \<Rightarrow> Entry \<Rightarrow> (string \<times> FileType) list option" where
  "dir_entries hash db path entry =
     map_option (\<lambda>kids. (''.'', FtDirectory) # (''..'', FtDirectory) # kids)
       (case e_kind entry of
          Directory \<Rightarrow>
            (case db_list wal_storage db path of Inr kids \<Rightarrow> those (map (listed_type db path) kids) | Inl _ \<Rightarrow> Some [])
        | EntryValue \<Rightarrow> Some (case e_value entry of Some val \<Rightarrow> project_listing hash val | None \<Rightarrow> []))"

text \<open>
  The loop that fills the reply.  \<open>full rows row\<close> is the answer of \<open>ReplyDirectory::add\<close>: whether the
  kernel's buffer, already holding \<open>rows\<close>, has no room for \<open>row\<close>.
\<close>

fun add_entries :: "(DirRow list \<Rightarrow> DirRow \<Rightarrow> bool) \<Rightarrow> string \<Rightarrow> nat \<Rightarrow> (string \<times> FileType) list \<Rightarrow> DirRow list \<Rightarrow> Fs
    \<Rightarrow> DirRow list \<times> Fs" where
  "add_entries full path_str i [] rows fs = (rows, fs)"
| "add_entries full path_str i ((name, ft) # es) rows fs =
     (let child = (if name = ''.'' \<or> name = ''..'' then path_str else child_path path_str name);
          (ino, fs) = ino_for_path child fs;
          row = (ino, of_nat (i + 1), ft, name)
      in if full rows row then (rows, fs) else add_entries full path_str (i + 1) es (rows @ [row]) fs)"

definition fuse_readdir :: "(bytes \<Rightarrow> u64) \<Rightarrow> (DirRow list \<Rightarrow> DirRow \<Rightarrow> bool) \<Rightarrow> u64 \<Rightarrow> i64 \<Rightarrow> Fs \<Rightarrow> Reply run \<times> Fs" where
  "fuse_readdir hash full ino offset fs =
     (case path_for_ino fs ino of
        None \<Rightarrow> fail ENOENT fs
      | Some path_str \<Rightarrow>
          locked fs (\<lambda>db.
            case path_parse path_str of
              Inl _ \<Rightarrow> fail ENOENT fs
            | Inr path \<Rightarrow>
                (case db_get wal_storage db path of
                   Inl _ \<Rightarrow> fail ENOENT fs
                 | Inr entry \<Rightarrow>
                     (case dir_entries hash db path entry of
                        None \<Rightarrow> (Panics, fs\<lparr>fs_db := (fs_db fs)\<lparr>poisoned := True\<rparr>\<rparr>)
                      | Some entries \<Rightarrow>
                          (case add_entries full path_str (unat offset) (drop (unat offset) entries) [] fs of
                             (rows, fs) \<Rightarrow> (Returns (ReplyDir rows), fs))))))"

section \<open>Extended attributes\<close>

definition xattr_text :: "(bytes \<Rightarrow> u64) \<Rightarrow> WalStorage \<Rightarrow> DbPath \<Rightarrow> bytes \<Rightarrow> Errno + string" where
  "xattr_text hash db path name =
     (if name = as_bytes ''user.alefs.type'' then
        (case db_get wal_storage db path of
           Inr entry \<Rightarrow> Inr (type_xattr (e_value entry) (e_kind entry))
         | Inl _ \<Rightarrow>
             (case Option.bind (parent_value db path) (\<lambda>v. project_child_value hash v (last_name path)) of
                Some cv \<Rightarrow> Inr (type_xattr (Some cv) EntryValue)
              | None \<Rightarrow> Inl ENOENT))
      else if name = as_bytes ''user.alefs.member'' then
        (case parent_value db path of
           Some (Set members) \<Rightarrow>
             (case find (\<lambda>m. set_member_name hash m = last_name path) members of
                Some m \<Rightarrow> Inr (format_member_hint m)
              | None \<Rightarrow> Inl ENODATA)
         | _ \<Rightarrow> Inl ENODATA)
      else Inl ENODATA)"

definition fuse_getxattr :: "(bytes \<Rightarrow> u64) \<Rightarrow> u64 \<Rightarrow> bytes \<Rightarrow> u32 \<Rightarrow> Fs \<Rightarrow> Reply run \<times> Fs" where
  "fuse_getxattr hash ino name count fs =
     (case path_for_ino fs ino of
        None \<Rightarrow> fail ENOENT fs
      | Some path_str \<Rightarrow>
          locked fs (\<lambda>db.
            case path_parse path_str of
              Inl _ \<Rightarrow> fail ENOENT fs
            | Inr path \<Rightarrow>
                (case xattr_text hash db path name of
                   Inl e \<Rightarrow> fail e fs
                 | Inr val \<Rightarrow>
                     (let data = as_bytes val in
                      if count = 0 then (Returns (ReplyXattrSize (len_u32 data)), fs)
                      else if count < len_u32 data then fail ERANGE fs
                      else (Returns (ReplyXattr data), fs)))))"

section \<open>Changing the namespace\<close>

definition fuse_rename :: "Fs \<Rightarrow> Reply run \<times> Fs" where
  "fuse_rename fs = fail ENOTSUP fs"

definition fuse_mkdir :: "u64 \<Rightarrow> bytes \<Rightarrow> Fs \<Rightarrow> Reply run \<times> Fs" where
  "fuse_mkdir parent name fs =
     at_child parent name fs (\<lambda>parent_path name.
       let child = child_path parent_path name in
       locked fs (\<lambda>db.
         case path_parse child of
           Inl _ \<Rightarrow> fail EINVAL fs
         | Inr path \<Rightarrow>
             (case mkdir wal_storage path db of
                (Inr _, db) \<Rightarrow> give_entry ReplyEntry (attr_for Directory None) child (put_db db fs)
              | (Inl _, db) \<Rightarrow> fail EIO (put_db db fs))))"

text \<open>The last step of \<open>unlink\<close>.\<close>

definition delete_child :: "string \<Rightarrow> WalStorage \<Rightarrow> Fs \<Rightarrow> Reply run \<times> Fs" where
  "delete_child child db fs =
     (case path_parse child of
        Inl _ \<Rightarrow> fail EINVAL (put_db db fs)
      | Inr p \<Rightarrow>
          (case db_delete wal_storage p db of
             (Inr _, db) \<Rightarrow> (Returns ReplyOk, put_db db fs)
           | (Inl _, db) \<Rightarrow> fail EIO (put_db db fs)))"

definition fuse_unlink :: "(bytes \<Rightarrow> u64) \<Rightarrow> u64 \<Rightarrow> bytes \<Rightarrow> Fs \<Rightarrow> Reply run \<times> Fs" where
  "fuse_unlink hash parent name fs =
     at_child parent name fs (\<lambda>parent_path name.
       let child = child_path parent_path name in
       locked fs (\<lambda>db.
         case path_parse parent_path of
           Inl _ \<Rightarrow> delete_child child db fs
         | Inr parent_db \<Rightarrow>
             (case Option.bind (value_of db parent_db) (\<lambda>val. project_unlink hash val name) of
                None \<Rightarrow> delete_child child db fs
              | Some new_val \<Rightarrow>
                  (case db_set wal_storage parent_db new_val db of
                     (Inr _, db) \<Rightarrow> (Returns ReplyOk, put_db db fs)
                   | (Inl _, db) \<Rightarrow> delete_child child db fs))))"

definition fuse_rmdir :: "(bytes \<Rightarrow> u64) \<Rightarrow> u64 \<Rightarrow> bytes \<Rightarrow> Fs \<Rightarrow> Reply run \<times> Fs" where
  "fuse_rmdir hash parent name fs = fuse_unlink hash parent name fs"

text \<open>The last step of \<open>create\<close>.\<close>

definition create_value :: "string \<Rightarrow> WalStorage \<Rightarrow> Fs \<Rightarrow> Reply run \<times> Fs" where
  "create_value child db fs =
     (case path_parse child of
        Inl _ \<Rightarrow> fail EINVAL (put_db db fs)
      | Inr path \<Rightarrow>
          (case db_set wal_storage path (value_string []) db of
             (Inr _, db) \<Rightarrow> give_entry ReplyCreated (attr_for EntryValue (Some (value_string []))) child (put_db db fs)
           | (Inl _, db) \<Rightarrow> fail EIO (put_db db fs)))"

definition fuse_create :: "u64 \<Rightarrow> bytes \<Rightarrow> Fs \<Rightarrow> Reply run \<times> Fs" where
  "fuse_create parent name fs =
     at_child parent name fs (\<lambda>parent_path name.
       let child = child_path parent_path name in
       locked fs (\<lambda>db.
         case path_parse parent_path of
           Inl _ \<Rightarrow> create_value child db fs
         | Inr parent_db \<Rightarrow>
             (case value_of db parent_db of
                Some (Hash m) \<Rightarrow>
                  (case db_set wal_storage parent_db (Hash (bt_insert name (value_string []) m)) db of
                     (Inr _, db) \<Rightarrow> give_entry ReplyCreated (attr_for EntryValue (Some (value_string []))) child (put_db db fs)
                   | (Inl _, db) \<Rightarrow> create_value child db fs)
              | _ \<Rightarrow> create_value child db fs)))"

section \<open>A session\<close>

text \<open>\<open>open_shared\<close>, and the calls that the session loop of \<open>fuser\<close> makes one after another.\<close>

definition open_shared :: "nat \<Rightarrow> Disk \<Rightarrow> ((string + DbHandle) \<times> Disk) option" where
  "open_shared fuel d =
     (case wal_open d of
        Inl e \<Rightarrow> Some (Inl (show_storage_error e), d)
      | Inr store \<Rightarrow>
          (case db_open fuel wal_storage store of
             None \<Rightarrow> None
           | Some (Inl e, store) \<Rightarrow> Some (Inl (show_ns_error e), disk store)
           | Some (Inr _, store) \<Rightarrow> Some (Inr \<lparr>hd_db = store, poisoned = False\<rparr>, disk store)))"

datatype FsOp =
    OpLookup u64 bytes
  | OpGetattr u64
  | OpRead u64 i64 u32
  | OpWrite u64 i64 bytes
  | OpFlush u64
  | OpFsync u64
  | OpReaddir u64 i64
  | OpGetxattr u64 bytes u32
  | OpRename
  | OpMkdir u64 bytes
  | OpUnlink u64 bytes
  | OpRmdir u64 bytes
  | OpCreate u64 bytes

fun fs_call :: "(bytes \<Rightarrow> u64) \<Rightarrow> (DirRow list \<Rightarrow> DirRow \<Rightarrow> bool) \<Rightarrow> FsOp \<Rightarrow> Fs \<Rightarrow> Reply run \<times> Fs" where
  "fs_call hash full (OpLookup parent name) = fuse_lookup hash parent name"
| "fs_call hash full (OpGetattr ino) = fuse_getattr hash ino"
| "fs_call hash full (OpRead ino offset count) = fuse_read hash ino offset count"
| "fs_call hash full (OpWrite ino offset data) = fuse_write ino offset data"
| "fs_call hash full (OpFlush ino) = fuse_flush ino"
| "fs_call hash full (OpFsync ino) = fuse_fsync ino"
| "fs_call hash full (OpReaddir ino offset) = fuse_readdir hash full ino offset"
| "fs_call hash full (OpGetxattr ino name count) = fuse_getxattr hash ino name count"
| "fs_call hash full OpRename = fuse_rename"
| "fs_call hash full (OpMkdir parent name) = fuse_mkdir parent name"
| "fs_call hash full (OpUnlink parent name) = fuse_unlink hash parent name"
| "fs_call hash full (OpRmdir parent name) = fuse_rmdir hash parent name"
| "fs_call hash full (OpCreate parent name) = fuse_create parent name"

end
