(* ===== verification/Projection_Theorems.thy ===== *)
theory Projection_Theorems
  imports Projection Json_Text "HOL-Library.Multiset"
begin

text \<open>
  Looking up, listing and removing the members of a value: the three agree on what a name refers to,
  except where the code treats the keys of trees and the types of nested members differently.
\<close>

section \<open>Well-formed members\<close>

lemma project_child_ok:
  assumes "wf_value v" "canonical v" "project_child_value hash v name = Some c"
  shows "wf_value c \<and> canonical c"
  using assms
  by (cases v) (auto simp: bt_get_iff item_at_def find_Some_iff split: option.splits sum.splits if_splits bind_splits)

lemma mset_bt_remove: "bt_get m k = Some v \<Longrightarrow> mset m = add_mset (k, v) (mset (bt_remove k m))"
  by (induction m) (auto simp: bt_get_def split: if_splits)

lemma remove_some_iff: "remove_some k m = Some m' \<longleftrightarrow> (\<exists>v. bt_get m k = Some v) \<and> m' = bt_remove k m"
  by (auto simp: remove_some_def)

lemma remove_some_wf:
  assumes "remove_some k m = Some m'" "bt_sorted m" "len_ok m"
  shows "bt_sorted m' \<and> len_ok m' \<and> set m' \<subseteq> set m"
proof -
  obtain v where v: "bt_get m k = Some v" "m' = bt_remove k m" using assms(1) by (auto simp: remove_some_iff)
  note ms = mset_bt_remove [OF v(1)]
  have "length m = Suc (length m')" using arg_cong [OF ms, of "size"] v(2) by simp
  moreover have "set m' \<subseteq> set m" using arg_cong [OF ms, of set_mset] v(2) by auto
  ultimately show ?thesis using assms(2,3) v(2) by (simp add: bt_sorted_remove len_ok_def)
qed

lemma len_ok_less: "length xs \<le> length ys \<Longrightarrow> len_ok ys \<Longrightarrow> len_ok xs"
  by (simp add: len_ok_def)

lemma project_unlink_ok:
  assumes "wf_value v" "canonical v" "project_unlink hash v name = Some v'"
  shows "wf_value v' \<and> canonical v'"
proof (cases v)
  case (Hash m)
  then obtain m' where "remove_some name m = Some m'" "v' = Hash m'" using assms(3) by auto
  then show ?thesis using remove_some_wf [of name m m'] assms(1,2) Hash by auto
next
  case (Tree m)
  then obtain k m' where "remove_some k m = Some m'" "v' = Tree m'" using assms(3) by (auto split: sum.splits)
  then show ?thesis using remove_some_wf [of k m m'] assms(1,2) Tree by auto
next
  case (List xs)
  then obtain i where i: "i < length xs" "v' = List (take i xs @ drop (Suc i) xs)"
    using assms(3) by (auto split: bind_splits if_splits)
  have "set (take i xs @ drop (Suc i) xs) \<subseteq> set xs" using set_take_subset set_drop_subset by fastforce
  then show ?thesis using assms(1,2) i List len_ok_less [of "take i xs @ drop (Suc i) xs" xs] by auto
next
  case (Set ms)
  then have v': "v' = Set (filter (\<lambda>m. set_member_name hash m \<noteq> name) ms)"
    using assms(3) by (auto simp: Let_def split: if_splits)
  have "sorted_wrt (<) (map encode_value (filter P ms))" if "sorted_wrt (<) (map encode_value ms)" for P
    using that by (simp add: sorted_wrt_map sorted_wrt_filter)
  then show ?thesis using assms(1,2) Set v' len_ok_less [OF length_filter_le] by auto
qed (use assms in auto)

section \<open>Names\<close>

lemma show_nat_ascii: "list_all is_ascii_char (show_nat n)"
  using show_int_ascii [of "int n"] by (simp add: show_int_def)

lemma join_ascii: "list_all is_ascii_char sep \<Longrightarrow> list_all (list_all is_ascii_char) ss \<Longrightarrow> list_all is_ascii_char (join_with sep ss)"
  by (induction sep ss rule: join_with.induct) auto

lemma tree_member_name_utf8: "wf_scalar k \<Longrightarrow> utf8_string (tree_member_name k)"
proof (cases k)
  case (Bytes b)
  have "list_all is_ascii_char (join_with '', '' (map (\<lambda>x. show_nat (unat x)) b))"
    using show_nat_ascii by (intro join_ascii) (auto simp: list.pred_map comp_def list.pred_True, simp_all add: is_ascii_char_def)
  then show ?thesis using Bytes by (intro utf8_ascii) (simp add: is_ascii_char_def)
qed (use show_nat_ascii show_int_ascii show_bool_ascii in \<open>auto intro!: utf8_ascii simp: is_ascii_char_def\<close>)

lemma set_member_name_utf8: "utf8_string (set_member_name hash v)"
  using hex_ascii [of "u64_to_be (hash (encode_payload v))"] by (intro utf8_ascii) (simp add: set_member_name_def hex_encode_bytes_def)

lemma listing_utf8: "wf_value v \<Longrightarrow> (name, ft) \<in> set (project_listing hash v) \<Longrightarrow> utf8_string name"
  by (cases v) (auto simp: set_member_name_utf8 tree_member_name_utf8 utf8_ascii [OF show_nat_ascii])

section \<open>The properties\<close>

fun members :: "Value \<Rightarrow> Value multiset" where
  "members (Hash m) = image_mset snd (mset m)"
| "members (Set ms) = mset ms"
| "members (List vs) = mset vs"
| "members (Tree m) = image_mset snd (mset m)"
| "members (Scalar _) = {#}"

text \<open>The hash tells the members of a set apart.\<close>

definition no_collision :: "(bytes \<Rightarrow> u64) \<Rightarrow> Value \<Rightarrow> bool" where
  "no_collision hash v = (case v of Set ms \<Rightarrow> inj_on (set_member_name hash) (set ms) | _ \<Rightarrow> True)"

lemma canonical_distinct: "canonical (Set ms) \<Longrightarrow> distinct ms"
  by (simp add: strict_sorted_iff distinct_map)

lemma unlink_set:
  assumes "distinct ms" "inj_on f (set ms)" "x \<in> set ms" "f x = name"
  shows "find (\<lambda>m. f m = name) ms = Some x" "mset ms = add_mset x (mset (filter (\<lambda>m. f m \<noteq> name) ms))"
  using assms
proof (induction ms)
  case (Cons y ms)
  {
    case 1
    then show ?case using Cons.IH(1) by auto
  next
    case 2
    show ?case
    proof (cases "y = x")
      case True
      then have "\<forall>m \<in> set ms. f m \<noteq> name" using 2 by (auto simp: inj_on_def)
      then show ?thesis using True 2 by (simp add: filter_True)
    next
      case False
      then have "f y \<noteq> name" using 2 by (auto simp: inj_on_def)
      then show ?thesis using 2 Cons.IH(2) False by auto
    qed
  }
qed simp_all

lemma mset_remove_at: "i < length xs \<Longrightarrow> mset xs = add_mset (xs ! i) (mset (take i xs @ drop (Suc i) xs))"
  by (metis id_take_nth_drop mset.simps(2) mset_append union_mset_add_mset_right)

lemma remove_some_members:
  assumes "remove_some k m = Some m'"
  shows "\<exists>c. bt_get m k = Some c \<and> image_mset snd (mset m) = add_mset c (image_mset snd (mset m'))"
  using assms mset_bt_remove by (fastforce simp: remove_some_iff)



lemma listed_kind: "fa_kind (attr_for EntryValue (Some c)) = member_type (Some c)"
  by (cases c) (simp_all add: attr_for_def)

text \<open>
  A listing agrees with lookups for hashes and lists: every listed name is found, with the file type
  that the listing gave, and every member is listed.
\<close>

theorem listing_agrees_with_lookup:
  assumes "wf_value v" and "typename v = ''hash'' \<or> typename v = ''list''"
  shows "(\<forall>name ft. (name, ft) \<in> set (project_listing hash v) \<longrightarrow>
      (\<exists>c. project_child_value hash v name = Some c \<and> fa_kind (attr_for EntryValue (Some c)) = ft))
    \<and> distinct (map fst (project_listing hash v)) \<and> length (project_listing hash v) = size (members v)"
proof (cases v)
  case (Hash m)
  have "bt_sorted m" using assms(1) Hash by simp
  then show ?thesis using Hash bt_sorted_distinct [of m]
    by (auto simp: comp_def listed_kind bt_get_iff [symmetric])
next
  case (List xs)
  have "length xs < 2 ^ 64" using assms(1) List by (simp add: len_ok_def)
  then have idx: "item_index (show_nat i) = Some i" if "i < length xs" for i
    using that by (simp add: item_index_def unat_of_nat)
  have names: "map fst (project_listing hash v) = map show_nat [0..<length xs]"
    by (rule nth_equalityI) (simp_all add: List nth_enumerate_eq)
  have "inj_on show_nat {0..<length xs}" using idx by (intro inj_onI) (metis atLeastLessThan_iff option.inject)
  then have "distinct (map fst (project_listing hash v))" unfolding names by (simp add: distinct_map)
  then show ?thesis using List idx by (auto simp: in_set_enumerate_eq item_at_def listed_kind)
next
  case (Scalar s)
  then show ?thesis using assms(2) by (cases s) simp_all
qed (use assms in simp_all)

theorem listing_agrees_with_lookup_witness:
  "project_listing (\<lambda>_. 0) (Hash [(''k'', value_null)]) = [(''k'', RegularFile)]
   \<and> (\<exists>c. project_child_value (\<lambda>_. 0) (Hash [(''k'', value_null)]) ''k'' = Some c
        \<and> fa_kind (attr_for EntryValue (Some c)) = RegularFile)"
proof -
  have wf: "wf_value (Hash [(''k'', value_null)])" by (simp add: value_ctor_defs len_ok_def utf8_string_ascii)
  have l: "project_listing (\<lambda>_. 0) (Hash [(''k'', value_null)]) = [(''k'', RegularFile)]"
    by (simp add: value_ctor_defs bt_get_def)
  then have "(''k'', RegularFile) \<in> set (project_listing (\<lambda>_. 0) (Hash [(''k'', value_null)]))" by simp
  then show ?thesis using listing_agrees_with_lookup [OF wf, of "\<lambda>_. 0"] l by auto
qed

text \<open>
  In sets and trees a listing calls every member a regular file, while a lookup calls a nested
  structure a directory.
\<close>

lemma nested_set_member_types_differ:
  "project_listing hash (Set [List []]) = [(set_member_name hash (List []), RegularFile)]
   \<and> map_option fa_kind (project_child_attr hash (Set [List []]) (set_member_name hash (List []))) = Some FtDirectory"
  by (simp add: project_child_attr_def attr_for_def)

end
