(* ===== verification/Json_Bounds.thy ===== *)
theory Json_Bounds
  imports Json_Theorems
begin

text \<open>
  The JSON parser on arbitrary text: it ends on every input, a result is no larger than the text it
  was read from, and every string in it is UTF-8.  With that, importing any document keeps the
  database well-formed.
\<close>

section \<open>What a parser consumes\<close>

definition eats :: "nat \<Rightarrow> rchar list \<Rightarrow> rchar list \<Rightarrow> bool" where
  "eats n cs cs' \<longleftrightarrow> (\<exists>pre. cs = pre @ cs' \<and> n \<le> length (concat pre))"

lemma eats_0: "eats 0 cs cs"
  by (simp add: eats_def)

lemma eats_trans: "eats n a b \<Longrightarrow> eats m b c \<Longrightarrow> k \<le> n + m \<Longrightarrow> eats k a c"
  by (fastforce simp: eats_def)

lemma eats_weaken: "eats n a b \<Longrightarrow> m \<le> n \<Longrightarrow> eats m a b"
  by (fastforce simp: eats_def)

lemma eats_skip_ws: "eats 0 cs (skip_ws cs)"
  unfolding eats_def skip_ws_def by (metis le0 takeWhile_dropWhile_id)

lemma eats_dropWhile: "eats 0 cs (dropWhile p cs)"
  unfolding eats_def by (metis le0 takeWhile_dropWhile_id)

lemma eats_drop: "eats 0 cs (drop n cs)"
  unfolding eats_def by (metis le0 append_take_drop_id)

lemma eats_length: "eats n cs cs' \<Longrightarrow> 0 < n \<Longrightarrow> length cs' < length cs"
  by (auto simp: eats_def)

lemma eats_length_le: "eats n cs cs' \<Longrightarrow> length cs' \<le> length cs"
  by (auto simp: eats_def)

text \<open>Characters over an alphabet that has the two that escapes produce.\<close>

definition over :: "char set \<Rightarrow> rchar list \<Rightarrow> bool" where
  "over A cs \<longleftrightarrow> list_all is_char cs \<and> set (concat cs) \<subseteq> A"

definition clean_str :: "char set \<Rightarrow> string \<Rightarrow> bool" where
  "clean_str A s \<longleftrightarrow> utf8_string s \<and> set s \<subseteq> A"

lemma over_append [simp]: "over A (cs @ cs') \<longleftrightarrow> over A cs \<and> over A cs'"
  by (auto simp: over_def)

lemma over_eats: "over A cs \<Longrightarrow> eats n cs cs' \<Longrightarrow> over A cs'"
  by (auto simp: eats_def)

lemma over_Cons [simp]: "over A (c # cs) \<longleftrightarrow> is_char c \<and> set c \<subseteq> A \<and> over A cs"
  by (auto simp: over_def)

lemma char_length: "is_char c \<Longrightarrow> Suc 0 \<le> length c"
  by (cases c) (auto simp: is_char_def)

lemma eats_Cons: "is_char c \<Longrightarrow> eats (Suc 0) (c # cs) cs"
  unfolding eats_def by (rule exI [of _ "[c]"]) (simp add: char_length)

lemma jbump_eats: "over A cs \<Longrightarrow> jbump cs = (Some c, r) \<Longrightarrow> eats (Suc 0) cs r"
  by (auto simp: jbump_def eats_Cons split: list.splits)

lemma jpeek_eats: "over A cs \<Longrightarrow> jpeek cs = Some c \<Longrightarrow> eats (Suc 0) cs (snd (jbump cs))"
  by (auto simp: jpeek_def jbump_def eats_Cons split: list.splits)

lemma clean_append: "clean_str A a \<Longrightarrow> clean_str A b \<Longrightarrow> clean_str A (a @ b)"
  by (simp add: clean_str_def utf8_append)

lemma clean_char: "is_char c \<Longrightarrow> set c \<subseteq> A \<Longrightarrow> clean_str A c"
  by (simp add: clean_str_def is_char_def)

section \<open>The size of a document\<close>

fun jweight :: "JsonVal \<Rightarrow> nat" where
  "jweight (JString s) = length s"
| "jweight (JArray items) = sum_list (map (\<lambda>i. Suc (jweight i)) items)"
| "jweight (JObject m) = sum_list (map (\<lambda>(k, v). Suc (length k + jweight v)) m)"
| "jweight _ = 0"

fun jclean :: "char set \<Rightarrow> JsonVal \<Rightarrow> bool" where
  "jclean A (JString s) = clean_str A s"
| "jclean A (JArray items) = (\<forall>i \<in> set items. jclean A i)"
| "jclean A (JObject m) = (\<forall>(k, v) \<in> set m. clean_str A k \<and> jclean A v)"
| "jclean A _ = True"

definition sound :: "char set \<Rightarrow> (rchar list \<Rightarrow> (string + (JsonVal \<times> rchar list)) option) \<Rightarrow> bool" where
  "sound A pv \<longleftrightarrow> (\<forall>cs v cs'. over A cs \<longrightarrow> pv cs = Some (Inr (v, cs')) \<longrightarrow> eats (Suc (jweight v)) cs cs' \<and> jclean A v)"

lemma soundD: "sound A pv \<Longrightarrow> over A cs \<Longrightarrow> pv cs = Some (Inr (v, cs')) \<Longrightarrow> eats (Suc (jweight v)) cs cs' \<and> jclean A v"
  by (simp add: sound_def)

lemma jstring_loop_sound:
  assumes "over A cs" "jstring_loop cs out = Inr (s, cs')" "clean_str A out" "{CHR 0x0A, CHR 0x09} \<subseteq> A"
  shows "clean_str A s \<and> length s \<le> length out + length (concat cs) - length (concat cs') \<and> eats (Suc 0) cs cs'"
  using assms
proof (induction cs out rule: jstring_loop.induct)
  case (2 c cs out)
  consider (quote) "c = quote" | (esc) e r where "c = backslash" "cs = e # r" "c \<noteq> quote" | (plain) "c \<noteq> quote" "c \<noteq> backslash"
    using 2 by (cases cs) (auto split: if_splits)
  then show ?case
  proof cases
    case quote
    then show ?thesis using 2 by (auto simp: eats_Cons)
  next
    case esc
    let ?e = "if e = ''n'' then [CHR 0x0A] else if e = ''t'' then [CHR 0x09] else e"
    have ce: "clean_str A ?e" "length ?e \<le> length e"
      using 2 esc clean_char [of e A] by (auto simp: clean_str_def utf8_string_ascii)
    have "clean_str A s \<and> length s \<le> length (out @ ?e) + length (concat r) - length (concat cs') \<and> eats (Suc 0) r cs'"
      using 2(1) [of e r] 2(3-) esc clean_append [OF 2(5) ce(1)] by simp
    moreover have "eats 0 (c # cs) r" using eats_drop [of "c # cs" 2] esc by (simp add: numeral_2_eq_2)
    moreover have "length (concat cs') \<le> length (concat r)" using calculation by (auto simp: eats_def)
    ultimately show ?thesis using ce(2) esc eats_trans [of 0 "c # cs" r "Suc 0" cs' "Suc 0"] by auto
  next
    case plain
    have "clean_str A c" using 2 by (auto intro: clean_char)
    then have "clean_str A s \<and> length s \<le> length (out @ c) + length (concat cs) - length (concat cs') \<and> eats (Suc 0) cs cs'"
      using 2(2) 2(3-) plain clean_append [OF 2(5)] by simp
    moreover have "eats 0 (c # cs) cs" using eats_drop [of "c # cs" 1] by simp
    moreover have "length (concat cs') \<le> length (concat cs)" using calculation by (auto simp: eats_def)
    ultimately show ?thesis using eats_trans [of 0 "c # cs" cs "Suc 0" cs' "Suc 0"] by auto
  qed
qed simp

lemma parse_string_sound:
  assumes "over A cs" "parse_string cs = Inr (s, cs')" "{CHR 0x0A, CHR 0x09} \<subseteq> A"
  shows "clean_str A s \<and> eats (Suc (length s)) cs cs'"
proof -
  obtain r where r: "jbump cs = (Some quote, r)" "jstring_loop r [] = Inr (s, cs')"
    using assms(2) by (auto simp: parse_string_def split: prod.splits if_splits)
  have e: "eats (Suc 0) cs r" using jbump_eats [OF assms(1) r(1)] .
  have s: "clean_str A s" "length s \<le> length (concat r) - length (concat cs')" "eats (Suc 0) r cs'"
    using jstring_loop_sound [OF over_eats [OF assms(1) e] r(2) _ assms(3)] by (auto simp: clean_str_def)
  then have "eats (length s) r cs'" by (auto simp: eats_def)
  with eats_trans [OF e this] s(1) show ?thesis by simp
qed

lemma chars_start_eats:
  assumes "chars_start cs word"
  shows "eats (length word) cs (drop (length word) cs)"
proof -
  have "cs = map (\<lambda>c. [c]) word @ drop (length word) cs"
    using assms unfolding chars_start_def by (metis append_take_drop_id)
  then show ?thesis unfolding eats_def by (intro exI [of _ "map (\<lambda>c. [c]) word"]) (simp add: concat_map_singleton)
qed

lemma parse_number_eats:
  assumes "over A cs" "parse_number cs = Inr (v, cs')" "jpeek cs = Some ''-'' \<or> (\<exists>c. jpeek cs = Some c \<and> is_ascii_digit c)"
  shows "eats (Suc 0) cs cs' \<and> jweight v = 0 \<and> jclean A v"
proof -
  let ?sign = "if jpeek cs = Some ''-'' then [''-''] else []"
  let ?r = "drop (length ?sign) cs"
  let ?d = "dropWhile is_ascii_digit ?r"
  obtain c r where cs: "cs = c # r" using assms(3) by (auto simp: jpeek_def split: list.splits)
  have one: "eats (Suc 0) cs ?d"
    using assms(1,3) cs eats_Cons [of c r] eats_trans [OF _ eats_dropWhile, of "Suc 0" cs r "Suc 0" is_ascii_digit]
    by (auto simp: jpeek_def)
  have "cs' = ?d \<or> cs' = dropWhile is_ascii_digit (tl ?d)" "jweight v = 0" "jclean A v"
    using assms(2)
    by (cases "parse_i64 (concat (?sign @ takeWhile is_ascii_digit ?r))";
        cases "parse_f64 (concat (?sign @ takeWhile is_ascii_digit ?r @ [''.''] @ takeWhile is_ascii_digit (tl ?d)))";
        auto simp: parse_number_def Let_def split: if_splits)+
  moreover have "eats 0 ?d (dropWhile is_ascii_digit (tl ?d))"
    using eats_trans [OF eats_drop [of ?d 1] eats_dropWhile, of 0 is_ascii_digit] by (simp add: drop_Suc)
  ultimately show ?thesis using one eats_trans [OF one] by auto
qed


lemma sum_list_append_one: "sum_list (map f (xs @ [x])) = sum_list (map f xs) + (f x :: nat)"
  by simp

lemma array_loop_sound:
  assumes "sound A pv" "over A cs" "array_loop fuel pv items cs = Some (Inr (v, cs'))" "\<forall>i \<in> set items. jclean A i"
  shows "\<exists>more. v = JArray (items @ more) \<and> eats (sum_list (map (\<lambda>i. Suc (jweight i)) more)) cs cs' \<and> jclean A v"
  using assms
proof (induction fuel arbitrary: items cs)
  case (Suc fuel)
  obtain x c1 where x: "pv cs = Some (Inr (x, c1))"
    using Suc.prems(3) by (auto split: option.splits sum.splits)
  have e: "eats (Suc (jweight x)) cs c1" "jclean A x" using soundD [OF Suc.prems(1,2) x] by auto
  have o1: "over A (skip_ws c1)" using over_eats Suc.prems(2) e(1) eats_skip_ws by metis
  have e1: "eats (Suc (jweight x)) cs (skip_ws c1)" by (rule eats_trans [OF e(1) eats_skip_ws]) simp
  obtain c c2 where b: "jbump (skip_ws c1) = (c, c2)" by fastforce
  then obtain c' where c: "c = Some c'" using Suc.prems(3) x by (cases c) auto
  have e2: "eats (Suc (jweight x)) cs c2"
    using eats_trans [OF e1 jbump_eats [OF o1 b [unfolded c]]] by simp
  have items: "\<forall>i \<in> set (items @ [x]). jclean A i" using Suc.prems(4) e(2) by auto
  show ?case
  proof (cases "c' = '',''")
    case True
    then have "array_loop fuel pv (items @ [x]) c2 = Some (Inr (v, cs'))" using Suc.prems(3) x b c by simp
    from Suc.IH [OF Suc.prems(1) over_eats [OF Suc.prems(2) e2] this items]
    obtain more where m: "v = JArray ((items @ [x]) @ more)" "eats (sum_list (map (\<lambda>i. Suc (jweight i)) more)) c2 cs'" "jclean A v"
      by blast
    then show ?thesis using eats_trans [OF e2 m(2)] by (intro exI [of _ "x # more"]) auto
  next
    case False
    then have "v = JArray (items @ [x])" "cs' = c2" using Suc.prems(3) x b c by (auto split: if_splits)
    then show ?thesis using e2 items by (intro exI [of _ "[x]"]) auto
  qed
qed simp

lemma parse_key_sound:
  assumes "over A cs" "parse_key cs = Inr (k, cs')" "{CHR 0x0A, CHR 0x09} \<subseteq> A"
  shows "clean_str A k \<and> eats (Suc (length k)) cs cs'"
proof -
  obtain k' c1 where s0: "parse_string (skip_ws cs) = Inr (k', c1)"
    using assms(2) by (auto simp: parse_key_def and_then_Inr_iff)
  obtain c r where b: "jbump (skip_ws c1) = (c, r)" by fastforce
  have k: "parse_string (skip_ws cs) = Inr (k, c1)" "jbump (skip_ws c1) = (Some '':'', cs')"
    using assms(2) s0 b by (auto simp: parse_key_def split: if_splits)
  have o1: "over A (skip_ws cs)" using over_eats [OF assms(1) eats_skip_ws] .
  have s: "clean_str A k" "eats (Suc (length k)) (skip_ws cs) c1" using parse_string_sound [OF o1 k(1) assms(3)] by auto
  have o2: "over A (skip_ws c1)" using over_eats o1 s(2) eats_skip_ws by metis
  have "eats (Suc (length k)) (skip_ws cs) (skip_ws c1)" by (rule eats_trans [OF s(2) eats_skip_ws]) simp
  from eats_trans [OF this jbump_eats [OF o2 k(2)]] have "eats (Suc (length k)) (skip_ws cs) cs'" by simp
  from eats_trans [OF eats_skip_ws this] s(1) show ?thesis by simp
qed

lemma object_loop_sound:
  assumes "sound A pv" "{CHR 0x0A, CHR 0x09} \<subseteq> A" "over A cs" "object_loop fuel pv m cs = Some (Inr (v, cs'))"
    "\<forall>(k, v) \<in> set m. clean_str A k \<and> jclean A v"
  shows "\<exists>more. v = JObject (m @ more) \<and> eats (sum_list (map (\<lambda>(k, v). Suc (length k + jweight v)) more)) cs cs' \<and> jclean A v"
  using assms
proof (induction fuel arbitrary: m cs)
  case (Suc fuel)
  obtain k c0 where k: "parse_key cs = Inr (k, c0)" using Suc.prems(4) by (auto split: sum.splits)
  have ek: "clean_str A k" "eats (Suc (length k)) cs c0" using parse_key_sound [OF Suc.prems(3) k Suc.prems(2)] by auto
  obtain x c1 where x: "pv c0 = Some (Inr (x, c1))"
    using Suc.prems(4) k by (auto split: option.splits sum.splits)
  have ex: "eats (Suc (jweight x)) c0 c1" "jclean A x" using soundD [OF Suc.prems(1) over_eats [OF Suc.prems(3) ek(2)] x] by auto
  have e: "eats (Suc (length k + jweight x)) cs (skip_ws c1)"
    by (rule eats_trans [OF ek(2) eats_trans [OF ex(1) eats_skip_ws order_refl]]) simp
  have o1: "over A (skip_ws c1)" using over_eats [OF Suc.prems(3) e] .
  obtain c c2 where b: "jbump (skip_ws c1) = (c, c2)" by fastforce
  then obtain c' where c: "c = Some c'" using Suc.prems(4) k x by (cases c) auto
  have e2: "eats (Suc (length k + jweight x)) cs c2"
    using eats_trans [OF e jbump_eats [OF o1 b [unfolded c]]] by simp
  have fields: "\<forall>(k, v) \<in> set (m @ [(k, x)]). clean_str A k \<and> jclean A v" using Suc.prems(5) ek(1) ex(2) by auto
  show ?case
  proof (cases "c' = '',''")
    case True
    then have "object_loop fuel pv (m @ [(k, x)]) c2 = Some (Inr (v, cs'))" using Suc.prems(4) k x b c by simp
    from Suc.IH [OF Suc.prems(1,2) over_eats [OF Suc.prems(3) e2] this fields]
    obtain more where m: "v = JObject ((m @ [(k, x)]) @ more)"
        "eats (sum_list (map (\<lambda>(k, v). Suc (length k + jweight v)) more)) c2 cs'" "jclean A v"
      by blast
    then show ?thesis using eats_trans [OF e2 m(2)] by (intro exI [of _ "(k, x) # more"]) auto
  next
    case False
    then have "v = JObject (m @ [(k, x)])" "cs' = c2" using Suc.prems(4) k x b c by (auto split: if_splits)
    then show ?thesis using e2 fields by (intro exI [of _ "[(k, x)]"]) auto
  qed
qed simp

lemma parse_value_sound:
  assumes A: "{CHR 0x0A, CHR 0x09} \<subseteq> A"
  shows "sound A (parse_value fuel)"
proof (induction fuel)
  case (Suc fuel)
  show ?case unfolding sound_def
  proof (intro allI impI)
    fix cs v cs' assume o: "over A cs" and p: "parse_value (Suc fuel) cs = Some (Inr (v, cs'))"
    let ?s = "skip_ws cs"
    have os: "over A ?s" using over_eats [OF o eats_skip_ws] .
    obtain c where c: "jpeek ?s = Some c" using p by (cases "jpeek ?s") (auto simp: Let_def parse_value.simps(2))
    let ?t = "skip_ws (snd (jbump ?s))"
    have t: "eats (Suc 0) ?s ?t" using eats_trans [OF jpeek_eats [OF os c] eats_skip_ws] by simp
    have ot: "over A ?t" using over_eats [OF os t] .
    have close: "eats (Suc 0) ?s (snd (jbump ?t))" if "jpeek ?t = Some d" for d
      using eats_trans [OF t jpeek_eats [OF ot that]] by simp
    consider (null) "c = ''n''" "parse_null ?s = Inr (v, cs')"
      | (bool) "parse_bool ?s = Inr (v, cs')"
      | (str) s where "parse_string ?s = Inr (s, cs')" "v = JString s"
      | (arr) "parse_array fuel (parse_value fuel) ?s = Some (Inr (v, cs'))"
      | (obj) "parse_object fuel (parse_value fuel) ?s = Some (Inr (v, cs'))"
      | (num) "parse_number ?s = Inr (v, cs')" "c = ''-'' \<or> is_ascii_digit c"
      using p c by (auto simp: Let_def and_then_Inr_iff parse_value.simps(2) split: if_splits)
    then have "eats (Suc (jweight v)) ?s cs' \<and> jclean A v"
    proof cases
      case null
      then show ?thesis using chars_start_eats [of ?s "''null''"]
        by (auto simp: parse_null_def numeral_eq_Suc intro: eats_weaken split: if_splits)
    next
      case bool
      then show ?thesis using chars_start_eats [of ?s "''true''"] chars_start_eats [of ?s "''false''"]
        by (auto simp: parse_bool_def numeral_eq_Suc intro: eats_weaken split: if_splits)
    next
      case str
      then show ?thesis using parse_string_sound [OF os str(1) A] by simp
    next
      case arr
      show ?thesis
      proof (cases "jpeek ?t = Some '']''")
        case True
        then show ?thesis using arr close by (auto simp: parse_array_def Let_def)
      next
        case False
        then have "array_loop fuel (parse_value fuel) [] ?t = Some (Inr (v, cs'))" using arr by (simp add: parse_array_def Let_def)
        from array_loop_sound [OF Suc ot this] show ?thesis using eats_trans [OF t] by fastforce
      qed
    next
      case obj
      show ?thesis
      proof (cases "jpeek ?t = Some ''}''")
        case True
        then show ?thesis using obj close by (auto simp: parse_object_def Let_def)
      next
        case False
        then have "object_loop fuel (parse_value fuel) [] ?t = Some (Inr (v, cs'))" using obj by (simp add: parse_object_def Let_def)
        from object_loop_sound [OF Suc A ot this] show ?thesis using eats_trans [OF t] by fastforce
      qed
    next
      case num
      then show ?thesis using parse_number_eats [OF os num(1)] c by auto
    qed
    then show "eats (Suc (jweight v)) cs cs' \<and> jclean A v" using eats_trans [OF eats_skip_ws] by fastforce
  qed
qed (simp add: sound_def)

section \<open>Termination\<close>

lemma over_all: "utf8_string s \<Longrightarrow> over (set s) (chars s)"
  using chars_is_char concat_chars by (simp add: over_def)

lemma array_loop_total:
  assumes "sound A pv" "\<And>cs. over A cs \<Longrightarrow> length cs < bound \<Longrightarrow> pv cs \<noteq> None"
  shows "over A cs \<Longrightarrow> length cs < bound \<Longrightarrow> length cs < fuel \<Longrightarrow> array_loop fuel pv items cs \<noteq> None"
proof (induction fuel arbitrary: items cs)
  case (Suc fuel)
  show ?case
  proof (cases "pv cs")
    case (Some r)
    show ?thesis
    proof (cases r)
      case (Inr vc)
      obtain v c1 where v: "vc = (v, c1)" by fastforce
      have e: "eats (Suc (jweight v)) cs c1" using soundD [OF assms(1) Suc.prems(1)] Some Inr v by blast
      obtain c c2 where b: "jbump (skip_ws c1) = (c, c2)" by fastforce
      have "eats 0 (skip_ws c1) c2" using b eats_drop [of "skip_ws c1" 1] eats_0
        by (auto simp: jbump_def split: list.splits)
      then have e2: "eats (Suc 0) cs c2" using eats_trans [OF e eats_trans [OF eats_skip_ws]] by fastforce
      have "array_loop fuel pv (items @ [v]) c2 \<noteq> None"
        using Suc.IH [OF over_eats [OF Suc.prems(1) e2]] eats_length [OF e2] Suc.prems(2,3) by simp
      then show ?thesis using Some Inr v b by simp
    qed (simp add: Some)
  qed (use assms(2) Suc.prems in blast)
qed simp

lemma object_loop_total:
  assumes "sound A pv" "{CHR 0x0A, CHR 0x09} \<subseteq> A" "\<And>cs. over A cs \<Longrightarrow> length cs < bound \<Longrightarrow> pv cs \<noteq> None"
  shows "over A cs \<Longrightarrow> length cs < bound \<Longrightarrow> length cs < fuel \<Longrightarrow> object_loop fuel pv m cs \<noteq> None"
proof (induction fuel arbitrary: m cs)
  case (Suc fuel)
  show ?case
  proof (cases "parse_key cs")
    case (Inr kc)
    obtain k c0 where k: "kc = (k, c0)" by fastforce
    have e0: "eats (Suc (length k)) cs c0" using parse_key_sound [OF Suc.prems(1) _ assms(2)] Inr k by blast
    have o0: "over A c0" "length c0 < bound"
      using over_eats [OF Suc.prems(1) e0] eats_length [OF e0] Suc.prems(2) by auto
    then obtain r where r: "pv c0 = Some r" using assms(3) by blast
    show ?thesis
    proof (cases r)
      case (Inr vc)
      obtain v c1 where v: "vc = (v, c1)" by fastforce
      have e: "eats (Suc (jweight v)) c0 c1" using soundD [OF assms(1) o0(1)] r Inr v by blast
      obtain c c2 where b: "jbump (skip_ws c1) = (c, c2)" by fastforce
      have "eats 0 (skip_ws c1) c2" using b eats_drop [of "skip_ws c1" 1] eats_0
        by (auto simp: jbump_def split: list.splits)
      then have "eats (Suc 0) c0 c2" using eats_trans [OF e eats_trans [OF eats_skip_ws]] by fastforce
      then have e2: "eats (Suc 0) cs c2" using eats_trans [OF e0] by fastforce
      have "object_loop fuel pv (m @ [(k, v)]) c2 \<noteq> None"
        using Suc.IH [OF over_eats [OF Suc.prems(1) e2]] eats_length [OF e2] Suc.prems(2,3) by simp
      then show ?thesis using \<open>parse_key cs = Inr kc\<close> k r Inr v b by simp
    qed (use \<open>parse_key cs = Inr kc\<close> k r in simp)
  qed simp
qed simp

lemma parse_value_total:
  assumes A: "{CHR 0x0A, CHR 0x09} \<subseteq> A"
  shows "over A cs \<Longrightarrow> length cs < fuel \<Longrightarrow> parse_value fuel cs \<noteq> None"
proof (induction fuel arbitrary: cs)
  case (Suc fuel)
  let ?s = "skip_ws cs" and ?t = "skip_ws (snd (jbump (skip_ws cs)))"
  have os: "over A ?s" "length ?s \<le> length cs"
    using over_eats [OF Suc.prems(1) eats_skip_ws] eats_length_le [OF eats_skip_ws] by auto
  have pa: "parse_array fuel (parse_value fuel) ?s \<noteq> None" "parse_object fuel (parse_value fuel) ?s \<noteq> None" if "jpeek ?s = Some c" for c
  proof -
    have t: "eats (Suc 0) ?s ?t" using eats_trans [OF jpeek_eats [OF os(1) that] eats_skip_ws] by simp
    have ot: "over A ?t" "length ?t < fuel" using over_eats [OF os(1) t] eats_length [OF t] os(2) Suc.prems(2) by auto
    show "parse_array fuel (parse_value fuel) ?s \<noteq> None"
      using array_loop_total [OF parse_value_sound [OF A] Suc.IH ot(1) ot(2) ot(2)] by (simp add: parse_array_def Let_def)
    show "parse_object fuel (parse_value fuel) ?s \<noteq> None"
      using object_loop_total [OF parse_value_sound [OF A] A Suc.IH ot(1) ot(2) ot(2)] by (simp add: parse_object_def Let_def)
  qed
  then show ?case by (auto simp: Let_def parse_value.simps(2) split: option.splits)
qed simp


section \<open>Values read from a document\<close>

lemma hex_pairs_length: "hex_pairs s out = Inr b \<Longrightarrow> length b \<le> length out + length s"
  by (induction s out rule: hex_pairs.induct) (fastforce simp: and_then_Inr_iff)+

lemma hex_decode_length: "hex_decode_bytes s = Inr b \<Longrightarrow> length b \<le> length s"
  using hex_pairs_length [of s "[]" b] by (auto simp: hex_decode_bytes_def split: if_splits)

lemma map_sum_Inr_iff: "map_sum f g r = Inr y \<longleftrightarrow> (\<exists>x. r = Inr x \<and> y = g x)"
  by (cases r) auto

lemma parse_scalar_key_wf:
  assumes "parse_scalar_key s = Inr k" "utf8_string s" "len_ok s"
  shows "wf_scalar k"
proof (cases k)
  case (String x)
  then show ?thesis using assms
    by (auto simp: parse_scalar_key_def map_sum_Inr_iff from_f64_def split: if_splits option.splits sum.splits)
next
  case (Bytes b)
  then obtain r where "hex_decode_bytes r = Inr b" "length r \<le> length s"
    using assms(1) by (auto simp: parse_scalar_key_def map_sum_Inr_iff from_f64_def strip_prefix_def
      split: if_splits option.splits sum.splits)
  then show ?thesis using Bytes assms(3) hex_decode_length by (fastforce simp: len_ok_def)
qed simp_all

definition fields_weight :: "(string \<times> JsonVal) list \<Rightarrow> nat" where
  "fields_weight m = sum_list (map (\<lambda>(k, v). Suc (length k + jweight v)) m)"

lemma fields_weight_simps [simp]:
  "fields_weight [] = 0" "fields_weight ((k, v) # m) = Suc (length k + jweight v) + fields_weight m"
  by (simp_all add: fields_weight_def)

lemma jweight_object [simp]: "jweight (JObject m) = fields_weight m"
  by (simp add: fields_weight_def)

declare jweight.simps(3) [simp del]

definition map_wf :: "('k::linorder \<Rightarrow> bool) \<Rightarrow> ('k \<times> Value) list \<Rightarrow> bool" where
  "map_wf ok h \<longleftrightarrow> bt_sorted h \<and> (\<forall>(k, v) \<in> set h. ok k \<and> wf_value v)"

lemma map_wf_Nil [simp]: "map_wf ok []"
  by (simp add: map_wf_def)

lemma map_wf_insert: "map_wf ok h \<Longrightarrow> ok k \<Longrightarrow> wf_value v \<Longrightarrow> map_wf ok (bt_insert k v h)"
  using set_bt_insert [of k v h] by (auto simp: map_wf_def bt_sorted_insert)

lemma map_wf_Hash: "map_wf (\<lambda>k. utf8_string k \<and> len_ok k) h \<Longrightarrow> len_ok h \<Longrightarrow> wf_value (Hash h)"
  by (auto simp: map_wf_def)

lemma map_wf_Tree: "map_wf wf_scalar h \<Longrightarrow> len_ok h \<Longrightarrow> wf_value (Tree h)"
  by (auto simp: map_wf_def)

lemma json_to_values_wf:
  "json_to_values js = Inr vs \<Longrightarrow> \<forall>i \<in> set js. \<forall>v. json_to_value i = Inr v \<longrightarrow> wf_value v \<Longrightarrow>
     length vs \<le> (\<Sum>i\<leftarrow>js. Suc (jweight i)) \<and> (\<forall>v \<in> set vs. wf_value v)"
  by (induction js arbitrary: vs) (fastforce simp: and_then_Inr_iff)+

lemma json_to_hash_wf:
  "json_to_hash m h = Inr h' \<Longrightarrow> \<forall>(k, i) \<in> set m. utf8_string k \<and> len_ok k \<and> (\<forall>v. json_to_value i = Inr v \<longrightarrow> wf_value v) \<Longrightarrow>
     map_wf (\<lambda>k. utf8_string k \<and> len_ok k) h \<Longrightarrow>
     map_wf (\<lambda>k. utf8_string k \<and> len_ok k) h' \<and> length h' \<le> length h + fields_weight m"
proof (induction m arbitrary: h)
  case (Cons ki m)
  obtain k i v where v: "ki = (k, i)" "json_to_value i = Inr v" "json_to_hash m (bt_insert k v h) = Inr h'"
    using Cons.prems(1) by (cases ki) (auto simp: and_then_Inr_iff)
  with Cons.IH [OF v(3)] Cons.prems(2,3) length_bt_insert [of k v h] show ?case by (auto simp: map_wf_insert)
qed simp

lemma json_to_tree_wf:
  "json_to_tree m h = Inr h' \<Longrightarrow> \<forall>(k, i) \<in> set m. utf8_string k \<and> len_ok k \<and> (\<forall>v. json_to_value i = Inr v \<longrightarrow> wf_value v) \<Longrightarrow>
     map_wf wf_scalar h \<Longrightarrow> map_wf wf_scalar h' \<and> length h' \<le> length h + fields_weight m"
proof (induction m arbitrary: h)
  case (Cons ki m)
  obtain k i sk v where v: "ki = (k, i)" "parse_scalar_key k = Inr sk" "json_to_value i = Inr v" "json_to_tree m (bt_insert sk v h) = Inr h'"
    using Cons.prems(1) by (cases ki) (auto simp: and_then_Inr_iff)
  moreover have "wf_scalar sk" using parse_scalar_key_wf [OF v(2)] Cons.prems(2) v(1) by simp
  ultimately show ?case using Cons.IH [OF v(4)] Cons.prems(2,3) length_bt_insert [of sk v h] by (auto simp: map_wf_insert)
qed simp

lemma json_object_cases:
  assumes "json_to_value (JObject m) = Inr v"
  obtains (bytes) h b where "m = [(''__bytes'', JString h)]" "hex_decode_bytes h = Inr b" "v = value_bytes b"
    | (set) items vs where "m = [(''__set'', JArray items)]" "json_to_values items = Inr vs" "v = Set vs"
    | (hash) inner h where "m = [(''__hash'', JObject inner)]" "json_to_hash inner [] = Inr h" "v = Hash h"
    | (tree) inner g where "m = [(''__tree'', JObject inner)]" "json_to_tree inner [] = Inr g" "v = Tree g"
    | (plain) h where "json_to_hash m [] = Inr h" "v = Hash h"
proof (cases "\<exists>k j. m = [(k, j)]")
  case True
  then obtain k j where m: "m = [(k, j)]" by blast
  show ?thesis
  proof (cases j)
    case (JString h)
    then show ?thesis using assms m bytes plain
      by (auto simp: and_then_Inr_iff map_sum_Inr_iff split: if_splits)
  next
    case (JArray items)
    then show ?thesis using assms m set plain
      by (auto simp: and_then_Inr_iff simp del: json_to_hash.simps split: if_splits)
  next
    case (JObject inner)
    then show ?thesis using assms m hash tree plain
      by (auto simp: and_then_Inr_iff simp del: json_to_hash.simps split: if_splits)
  qed (use assms m plain in \<open>simp_all add: and_then_Inr_iff del: json_to_hash.simps, (blast+)?\<close>)
next
  case False
  then have "json_to_value (JObject m) = and_then (json_to_hash m []) (\<lambda>hash. Inr (Hash hash))"
    by (auto simp del: json_to_hash.simps split: list.splits JsonVal.splits)
  then show ?thesis using assms plain by (auto simp: and_then_Inr_iff)
qed

lemma fields_weight_mem: "(k, i) \<in> set m \<Longrightarrow> Suc (length k + jweight i) \<le> fields_weight m"
  by (induction m) fastforce+

lemma items_weight_mem: "i \<in> set js \<Longrightarrow> Suc (jweight i) \<le> (\<Sum>i\<leftarrow>js. Suc (jweight i))"
  by (induction js) fastforce+

text \<open>What holds of the parts of a document; of an object also when it is read as a hash or a tree.\<close>

definition parts_wf :: "JsonVal \<Rightarrow> bool" where
  "parts_wf j \<longleftrightarrow>
     (\<forall>v. json_to_value j = Inr v \<longrightarrow> wf_value v)
   \<and> (\<forall>m. j = JObject m \<longrightarrow> (\<forall>(k, i) \<in> set m. utf8_string k \<and> len_ok k \<and> (\<forall>v. json_to_value i = Inr v \<longrightarrow> wf_value v)))
   \<and> (\<forall>js. j = JArray js \<longrightarrow> (\<forall>i \<in> set js. \<forall>v. json_to_value i = Inr v \<longrightarrow> wf_value v))"

lemma parts_wfI: "jclean A j \<Longrightarrow> jweight j < 2 ^ 32 \<Longrightarrow> parts_wf j"
proof (induction j)
  case (JString s)
  then show ?case by (simp add: parts_wf_def clean_str_def len_ok_def value_string_def)
next
  case (JArray js)
  have "parts_wf i" if "i \<in> set js" for i
    using JArray.IH [OF that] JArray.prems that items_weight_mem [OF that] by simp
  then have el: "\<forall>i \<in> set js. \<forall>v. json_to_value i = Inr v \<longrightarrow> wf_value v" by (simp add: parts_wf_def)
  moreover have "wf_value v" if "json_to_value (JArray js) = Inr v" for v
    using that json_to_values_wf [OF _ el] JArray.prems(2) by (fastforce simp: and_then_Inr_iff len_ok_def)
  ultimately show ?case by (simp add: parts_wf_def)
next
  case (JObject m)
  have part: "parts_wf i" "utf8_string k" "len_ok k" if "(k, i) \<in> set m" for k i
    using JObject.IH [OF that] JObject.prems that fields_weight_mem [OF that] by (auto simp: clean_str_def len_ok_def)
  then have el: "\<forall>(k, i) \<in> set m. utf8_string k \<and> len_ok k \<and> (\<forall>v. json_to_value i = Inr v \<longrightarrow> wf_value v)"
    by (auto simp: parts_wf_def)
  have "wf_value v" if "json_to_value (JObject m) = Inr v" for v
    using that
  proof (cases rule: json_object_cases)
    case (bytes h b)
    then show ?thesis using JObject.prems(2) hex_decode_length [OF bytes(2)] by (simp add: value_bytes_def len_ok_def)
  next
    case (set items vs)
    then have "parts_wf (JArray items)" using part by simp
    then show ?thesis using json_to_values_wf [OF set(2)] set JObject.prems(2) by (fastforce simp: parts_wf_def len_ok_def)
  next
    case (hash inner h)
    then have "parts_wf (JObject inner)" using part by simp
    then have "map_wf (\<lambda>k. utf8_string k \<and> len_ok k) h \<and> length h \<le> length ([] :: (string \<times> Value) list) + fields_weight inner"
      by (intro json_to_hash_wf [OF hash(2)]) (auto simp: parts_wf_def)
    then show ?thesis using hash JObject.prems(2) map_wf_Hash [of h] by (simp add: len_ok_def)
  next
    case (tree inner g)
    then have "parts_wf (JObject inner)" using part by simp
    then have "map_wf wf_scalar g \<and> length g \<le> length ([] :: (Scalar \<times> Value) list) + fields_weight inner"
      by (intro json_to_tree_wf [OF tree(2)]) (auto simp: parts_wf_def)
    then show ?thesis using tree JObject.prems(2) map_wf_Tree [of g] by (simp add: len_ok_def)
  next
    case (plain h)
    have "map_wf (\<lambda>k. utf8_string k \<and> len_ok k) h \<and> length h \<le> length ([] :: (string \<times> Value) list) + fields_weight m"
      using el by (intro json_to_hash_wf [OF plain(1)]) auto
    then show ?thesis using plain JObject.prems(2) map_wf_Hash [of h] by (simp add: len_ok_def)
  qed
  with el show ?case by (simp add: parts_wf_def)
qed (simp_all add: parts_wf_def value_null_def value_bool_def value_int_def value_float_def from_f64_def)

lemma json_to_value_wf: "jclean A j \<Longrightarrow> jweight j < 2 ^ 32 \<Longrightarrow> json_to_value j = Inr v \<Longrightarrow> wf_value v"
  using parts_wfI by (simp add: parts_wf_def)


section \<open>Importing any document\<close>

lemma trim_split: "\<exists>a b. chars s = a @ b @ drop (length a + length b) (chars s) \<and> trim s = concat b"
proof -
  let ?d = "dropWhile is_whitespace (chars s)"
  have "rev (dropWhile is_whitespace (rev ?d)) @ rev (takeWhile is_whitespace (rev ?d)) = ?d"
    by (metis rev_append rev_rev_ident takeWhile_dropWhile_id)
  then have "chars s = takeWhile is_whitespace (chars s) @ rev (dropWhile is_whitespace (rev ?d)) @ rev (takeWhile is_whitespace (rev ?d))"
    by (metis takeWhile_dropWhile_id)
  then show ?thesis
    unfolding trim_def by (metis append_assoc append_eq_conv_conj length_append)
qed

lemma trim_utf8: "utf8_string s \<Longrightarrow> utf8_string (trim s)"
  using trim_split [of s] chars_is_char [of s] by (metis list_all_append utf8_concat)

lemma trim_part: "set (trim s) \<subseteq> set s \<and> length (trim s) \<le> length s"
proof -
  obtain a b r where "chars s = a @ b @ r" "trim s = concat b" using trim_split by metis
  then have "s = concat a @ trim s @ concat r" by (metis concat_append concat_chars)
  then have "length s = length (concat a @ trim s @ concat r)" "set s = set (concat a @ trim s @ concat r)" by simp_all
  then show ?thesis by auto
qed

lemma length_chars_le: "utf8_string s \<Longrightarrow> length (chars s) \<le> length s"
proof -
  have "list_all is_char cs \<Longrightarrow> length cs \<le> length (concat cs)" for cs
  proof (induction cs)
    case (Cons c cs)
    then show ?case using char_length [of c] by auto
  qed simp
  moreover assume "utf8_string s"
  ultimately show ?thesis using chars_is_char [of s] by (metis concat_chars)
qed

text \<open>A step that ends in a well-formed state after taking at most \<open>c\<close> identifiers, whatever its result.\<close>

definition keeps :: "('s \<Rightarrow> kv) \<Rightarrow> ('s \<Rightarrow> bool) \<Rightarrow> u64 \<Rightarrow> nat \<Rightarrow> 's \<Rightarrow> bool" where
  "keeps view invar n c s' \<longleftrightarrow> (\<exists>t' n'. invar s' \<and> stores t' n' (bt_get (view s')) \<and> unat n' \<le> unat n + c)"

lemma keeps_refl: "invar s \<Longrightarrow> stores t n (bt_get (view s)) \<Longrightarrow> keeps view invar n c s"
  unfolding keeps_def by (intro exI [of _ t] exI [of _ n]) simp

lemma keeps_one:
  assumes "\<exists>t' n'. invar s' \<and> n' \<in> {n, n + 1} \<and> stores t' n' (bt_get (view s')) \<and> P t' n'" "n \<noteq> - 1" "1 \<le> c"
  shows "keeps view invar n c s'"
  using assms(1,3) unat_succ [OF assms(2)] unfolding keeps_def by fastforce

lemma keeps_mono: "keeps view invar n c s' \<Longrightarrow> c \<le> d \<Longrightarrow> keeps view invar n d s'"
  by (fastforce simp: keeps_def)

lemma path_ok_join: "path_join path k = Inr q \<Longrightarrow> path_ok (segments path) \<Longrightarrow> utf8_string k \<Longrightarrow> CHR 0x00 \<notin> set k \<Longrightarrow> path_ok (segments q)"
  by (auto simp: path_join_def path_ok_def wf_path_def utf8_path_def wf_segment_def split: if_splits)

lemma utf8_slash: "utf8_string k \<Longrightarrow> utf8_string (''/'' @ k)"
  by (rule utf8_append [OF utf8_string_ascii]) simp_all

lemma path_ok_parse: "path_parse s = Inr q \<Longrightarrow> utf8_string s \<Longrightarrow> path_ok (segments q)"
  using parse_Inr parse_utf8 by (simp add: path_ok_def)

context storage
begin

lemma import_set_keeps:
  assumes "invar s" "stores t n (bt_get (view s))" "n \<noteq> - 1" "path_ok (segments path)" "jclean A j" "jweight j < 2 ^ 32" "1 \<le> c"
  shows "keeps view invar n c (snd (try_at s (json_to_value j) (\<lambda>val. db_set S path val s)))"
proof (cases "json_to_value j")
  case (Inr v)
  obtain r s' where run: "db_set S path v s = (r, s')" by fastforce
  have "wf_value v" using json_to_value_wf [OF assms(5,6) Inr] .
  from set_tree [OF assms(1-4) this run] have "keeps view invar n c s'" by (rule keeps_one) fact+
  then show ?thesis using Inr run by simp
qed (use assms keeps_refl in simp)

definition node_keeps :: "char set \<Rightarrow> JsonVal \<Rightarrow> bool" where
  "node_keeps A j \<longleftrightarrow> (\<forall>path at_root s t n. invar s \<longrightarrow> stores t n (bt_get (view s)) \<longrightarrow> path_ok (segments path) \<longrightarrow>
     unat n + Suc (jweight j) < 2 ^ 64 \<longrightarrow> keeps view invar n (Suc (jweight j)) (snd (import_node S path j at_root s)))"

lemma node_keepsD:
  "node_keeps A j \<Longrightarrow> invar s \<Longrightarrow> stores t n (bt_get (view s)) \<Longrightarrow> path_ok (segments path) \<Longrightarrow>
   unat n + Suc (jweight j) < 2 ^ 64 \<Longrightarrow> keeps view invar n (Suc (jweight j)) (snd (import_node S path j at_root s))"
  by (simp add: node_keeps_def)

lemma import_children_keeps:
  assumes "\<And>k q. clean_str A k \<Longrightarrow> at k = Inr q \<Longrightarrow> path_ok (segments q)"
  shows "\<forall>(k, j) \<in> set m. clean_str A k \<and> node_keeps A j \<Longrightarrow> invar s \<Longrightarrow> stores t n (bt_get (view s)) \<Longrightarrow>
    unat n + fields_weight m < 2 ^ 64 \<Longrightarrow> keeps view invar n (fields_weight m) (snd (import_children S at m s))"
proof (induction m arbitrary: s t n)
  case Nil
  then show ?case by (simp add: keeps_refl)
next
  case (Cons kj m)
  obtain k j where kj: "kj = (k, j)" by fastforce
  show ?case
  proof (cases "at k")
    case (Inr q)
    obtain r s1 where run: "import_node S q j False s = (r, s1)" by fastforce
    have k1: "keeps view invar n (Suc (jweight j)) s1"
      using node_keepsD [of A j s t n q False] Cons.prems assms [OF _ Inr] kj run by simp
    obtain t1 n1 where s1: "invar s1" "stores t1 n1 (bt_get (view s1))" "unat n1 \<le> unat n + Suc (jweight j)" using k1
      by (auto simp: keeps_def)
    show ?thesis
    proof (cases r)
      case (Inl e)
      then show ?thesis using kj Inr run keeps_mono [OF k1] by simp
    next
      case ok: (Inr u)
      have "keeps view invar n1 (fields_weight m) (snd (import_children S at m s1))"
        using Cons.IH [OF _ s1(1,2)] Cons.prems(1,4) s1(3) kj by simp
      then have "keeps view invar n (fields_weight (kj # m)) (snd (import_children S at m s1))"
        using s1(3) kj unfolding keeps_def by fastforce
      then show ?thesis using kj Inr run ok by simp
    qed
  qed (use kj Cons.prems keeps_refl in simp)
qed

lemma import_dir_keeps:
  assumes nul: "CHR 0x00 \<notin> A" and kids: "\<forall>(k, j) \<in> set kids. clean_str A k \<and> node_keeps A j"
    and s: "invar s" "stores t n (bt_get (view s))" "path_ok (segments path)" "unat n + Suc (fields_weight kids) < 2 ^ 64"
  shows "keeps view invar n (Suc (fields_weight kids)) (snd (then_at
      (if \<not> at_root \<and> \<not> is_root path then
         try_at s (db_exists S s path) (\<lambda>ex. if \<not> ex then mkdir S path s else (Inr (), s))
       else (Inr (), s))
      (\<lambda>_. import_children S
         (\<lambda>k. if is_root path then ns_parse (''/'' @ k) else map_err NsPath (path_join path k)) kids)))"
proof -
  let ?at = "\<lambda>k. if is_root path then ns_parse (''/'' @ k) else map_err NsPath (path_join path k)"
  have at: "path_ok (segments q)" if "clean_str A k" "?at k = Inr q" for k q
  proof (cases "is_root path")
    case True
    moreover have "utf8_string (''/'' @ k)" using that(1) utf8_slash unfolding clean_str_def by blast
    ultimately show ?thesis using that(2) path_ok_parse by (simp add: ns_parse_def)
  next
    case False
    then show ?thesis using that path_ok_join [OF _ s(3)] nul by (auto simp: clean_str_def)
  qed
  have go: "keeps view invar n (Suc (fields_weight kids)) (snd (then_at (r, s1) (\<lambda>_. import_children S ?at kids)))"
    if k1: "keeps view invar n 1 s1" for r s1
  proof (cases r)
    case (Inl e)
    then show ?thesis using keeps_mono [OF k1] by simp
  next
    case (Inr u)
    obtain t1 n1 where s1: "invar s1" "stores t1 n1 (bt_get (view s1))" "unat n1 \<le> unat n + 1"
      using k1 by (auto simp: keeps_def)
    have "keeps view invar n1 (fields_weight kids) (snd (import_children S ?at kids s1))"
      using import_children_keeps [OF at kids s1(1,2)] s1(3) s(4) by simp
    then show ?thesis using s1(3) Inr unfolding keeps_def by fastforce
  qed
  have n: "n \<noteq> - 1" using not_last_id [OF s(4)] by simp
  obtain r s1 where run: "mkdir S path s = (r, s1)" by fastforce
  from mkdir_tree [OF s(1,2) n s(3) run] have "keeps view invar n 1 s1" by (rule keeps_one) (use n in simp_all)
  moreover have "keeps view invar n 1 s" by (rule keeps_refl [where invar = invar and view = view, OF s(1,2)])
  ultimately show ?thesis using go [of s1 r] go [of s "Inr ()"] run db_exists_tree [OF s(1,2), of path]
    by (cases "is_root path"; cases at_root; cases "t (segments path)") simp_all
qed

lemma atom_keeps:
  assumes "\<And>m. j \<noteq> JObject m" "jclean A j" "jweight j < 2 ^ 32"
  shows "node_keeps A j"
proof -
  have eq: "import_node S path j at_root s = (if at_root then (Inl (Invalid ''root import must be object''), s)
      else try_at s (json_to_value j) (\<lambda>val. db_set S path val s))" for path at_root s
  proof (cases j)
    case (JObject m)
    then show ?thesis using assms(1) by blast
  qed simp_all
  have "keeps view invar n (Suc (jweight j)) (snd (import_node S path j at_root s))"
    if s: "invar s" "stores t n (bt_get (view s))" "path_ok (segments path)" "unat n + Suc (jweight j) < 2 ^ 64"
    for path at_root s t n
    using import_set_keeps [OF s(1,2) not_last_id [OF s(4)] s(3) assms(2,3)] keeps_refl [where invar = invar and view = view, OF s(1,2)]
    unfolding eq by (cases at_root) simp_all
  then show ?thesis unfolding node_keeps_def by blast
qed

lemma import_node_keeps: "CHR 0x00 \<notin> A \<Longrightarrow> jclean A j \<Longrightarrow> jweight j < 2 ^ 32 \<Longrightarrow> node_keeps A j
    \<and> (\<forall>m. j = JObject m \<longrightarrow> (\<forall>(k, i) \<in> set m. clean_str A k \<and> node_keeps A i))"
proof (induction j)
  case (JObject m)
  have part: "clean_str A k \<and> node_keeps A i \<and> (\<forall>m. i = JObject m \<longrightarrow> (\<forall>(k, i) \<in> set m. clean_str A k \<and> node_keeps A i))"
    if "(k, i) \<in> set m" for k i
    using JObject.IH [OF that] JObject.prems that fields_weight_mem [OF that] by auto
  then have all: "\<forall>(k, i) \<in> set m. clean_str A k \<and> node_keeps A i" by blast
  have "keeps view invar n (Suc (fields_weight m)) (snd (import_node S path (JObject m) at_root s))"
    if s: "invar s" "stores t n (bt_get (view s))" "path_ok (segments path)" "unat n + Suc (fields_weight m) < 2 ^ 64"
    for path at_root s t n
  proof -
    have n: "n \<noteq> - 1" using not_last_id [OF s(4)] by simp
    have at: "path_ok (segments q)" if "clean_str A k" "ns_parse (''/'' @ k) = Inr q" for k q
    proof -
      have "utf8_string (''/'' @ k)" using that(1) utf8_slash unfolding clean_str_def by blast
      then show ?thesis using that(2) path_ok_parse by (simp add: ns_parse_def)
    qed
    consider (dir) kids where "m = [(''__dir'', JObject kids)]"
      | (bad) "import_node S path (JObject m) at_root s = (Inl (Invalid ''__dir must be object''), s)"
      | (root) "import_node S path (JObject m) at_root s = import_children S (\<lambda>k. ns_parse (''/'' @ k)) m s"
      | (val) "import_node S path (JObject m) at_root s = try_at s (json_to_value (JObject m)) (\<lambda>val. db_set S path val s)"
    proof (cases "\<exists>j. m = [(''__dir'', j)]")
      case True
      then obtain j where "m = [(''__dir'', j)]" by blast
      then show thesis using that(1,2) by (cases j) simp_all
    next
      case False
      then have "\<not> (length m = 1 \<and> fst (hd m) = ''__dir'')" by (cases m) auto
      then have eq: "import_node S path (JObject m) at_root s = (if at_root then import_children S (\<lambda>k. ns_parse (''/'' @ k)) m s
          else try_at s (json_to_value (JObject m)) (\<lambda>val. db_set S path val s))"
        by (simp only: import_node.simps if_False)
      show thesis
      proof (cases at_root)
        case True
        with eq have "import_node S path (JObject m) at_root s = import_children S (\<lambda>k. ns_parse (''/'' @ k)) m s" by argo
        then show thesis by (rule that(3))
      next
        case False
        with eq have "import_node S path (JObject m) at_root s = try_at s (json_to_value (JObject m)) (\<lambda>val. db_set S path val s)" by argo
        then show thesis by (rule that(4))
      qed
    qed
    then show ?thesis
    proof cases
      case (dir kids)
      then have "\<forall>(k, j) \<in> set kids. clean_str A k \<and> node_keeps A j" using part by auto
      from import_dir_keeps [OF JObject.prems(1) this s(1-3), of at_root] s(4) dir
      have "keeps view invar n (Suc (fields_weight kids)) (snd (import_node S path (JObject m) at_root s))" by simp
      then show ?thesis using dir by (auto intro: keeps_mono)
    next
      case bad
      then show ?thesis using keeps_refl [where invar = invar and view = view, OF s(1,2)] by simp
    next
      case root
      then show ?thesis using import_children_keeps [OF at all s(1,2)] s(4) keeps_mono by fastforce
    next
      case val
      then show ?thesis using import_set_keeps [OF s(1,2) n s(3) JObject.prems(2,3)] by simp
    qed
  qed
  with all show ?case by (simp add: node_keeps_def)
qed (simp_all add: atom_keeps)

lemma import_json_keeps:
  assumes "invar s" "stores t n (bt_get (view s))" "utf8_string json" "len_ok json" "CHR 0x00 \<notin> set json"
    and "unat n + length json < 2 ^ 64" "length json < fuel"
  shows "\<exists>r s'. import_json fuel S json s = Some (r, s') \<and> keeps view invar n (length json) s'"
proof -
  let ?A = "set json \<union> {CHR 0x0A, CHR 0x09}"
  have tr: "utf8_string (trim json)" "set (trim json) \<subseteq> set json" "length (trim json) \<le> length json"
    using trim_utf8 [OF assms(3)] trim_part [of json] by auto
  have o: "over ?A (chars (trim json))" using over_all [OF tr(1)] tr(2) by (auto simp: over_def)
  have len: "length (chars (trim json)) < fuel"
    using length_chars_le [OF tr(1)] tr(3) assms(7) by simp
  obtain p where p: "parse_value fuel (chars (trim json)) = Some p"
    using parse_value_total [of ?A, OF _ o len] by auto
  have same: "keeps view invar n (length json) s" by (rule keeps_refl [where invar = invar and view = view, OF assms(1,2)])
  show ?thesis
  proof (cases "\<exists>j cs. p = Inr (j, cs) \<and> skip_ws cs = []")
    case True
    then obtain j cs where j: "p = Inr (j, cs)" "skip_ws cs = []" by blast
    have e: "eats (Suc (jweight j)) (chars (trim json)) cs" "jclean ?A j"
      using soundD [OF parse_value_sound [of ?A fuel] o] p j(1) by auto
    then obtain pre where "trim json = concat pre @ concat cs" "Suc (jweight j) \<le> length (concat pre)"
      unfolding eats_def by (metis concat_append concat_chars)
    then have w: "Suc (jweight j) \<le> length json" using tr(3) by (metis le_add1 le_trans length_append)
    have "node_keeps ?A j" using import_node_keeps [of ?A j] assms(4,5) e(2) w by (simp add: len_ok_def)
    then have "keeps view invar n (Suc (jweight j)) (snd (import_node S path_root j True s))"
      using assms(6) w by (intro node_keepsD [OF _ assms(1,2)]) (simp_all add: path_root_def path_ok_def wf_path_def utf8_path_def)
    then have "keeps view invar n (length json) (snd (import_node S path_root j True s))" using w by (rule keeps_mono)
    moreover have "import_json fuel S json s = Some (import_node S path_root j True s)"
      using p j by (simp add: import_json_def parse_json_value_def)
    ultimately show ?thesis by (metis prod.collapse)
  next
    case False
    then have "\<exists>e. parse_json_value fuel (trim json) = Some (Inl e)"
      using p by (cases p) (auto simp: parse_json_value_def)
    then show ?thesis using same by (auto simp: import_json_def)
  qed
qed

end

end
