(* ===== verification/Server_Refine.thy ===== *)
theory Server_Refine
  imports Server Txn_Theorems Query_Theorems Json_Bounds
begin

text \<open>
  What the server promises for each request, stated on the abstract tree, and the proof that the
  dispatch of every request does that on a write-ahead-log database.
\<close>

section \<open>The text of an export\<close>

inductive export_text :: "ns_tree \<Rightarrow> string list \<Rightarrow> string \<Rightarrow> bool" for t where
  export_value: "t p = Some (ValN v) \<Longrightarrow> export_text t p (value_to_json v)"
| export_dir: "t p = Some DirN \<Longrightarrow> sorted_wrt (<) (map fst kids) \<Longrightarrow> fst ` set kids = {x. t (p @ [x]) \<noteq> None} \<Longrightarrow>
    (\<And>kid. kid \<in> set kids \<Longrightarrow> export_text t (p @ [fst kid]) (snd kid)) \<Longrightarrow>
    export_text t p (json_tagged ''__dir'' (''{'' @ join_with '', '' (map (\<lambda>(k, body). json_field k body) kids) @ ''}''))"

context storage
begin

lemma export_children_text:
  assumes "\<And>x. x \<in> fst ` set names \<Longrightarrow> \<exists>body. visit (DbPath (p @ [x])) = Some (Inr body) \<and> P x body"
    and "\<And>x. x \<in> fst ` set names \<Longrightarrow> path_join (DbPath p) x = Inr (DbPath (p @ [x]))"
  shows "\<exists>kids. map fst kids = map fst names \<and> (\<forall>(k, body) \<in> set kids. P k body)
    \<and> export_children visit (DbPath p) names parts = Some (Inr (parts @ map (\<lambda>(k, body). json_field k body) kids))"
  using assms
proof (induction names arbitrary: parts)
  case (Cons nk names)
  obtain x k where nk: "nk = (x, k)" by fastforce
  obtain body where v: "visit (DbPath (p @ [x])) = Some (Inr body)" "P x body" using Cons.prems(1) [of x] nk by auto
  obtain kids where k: "map fst kids = map fst names" "\<forall>(k, body) \<in> set kids. P k body"
      "export_children visit (DbPath p) names (parts @ [json_field x body])
        = Some (Inr ((parts @ [json_field x body]) @ map (\<lambda>(k, body). json_field k body) kids))"
    using Cons.IH [of "parts @ [json_field x body]"] Cons.prems by auto
  show ?case using k v nk Cons.prems(2) [of x] by (intro exI [of _ "(x, body) # kids"]) auto
qed simp

lemma export_node_text:
  assumes i: "invar s" and T: "ns_rep T n (bt_get (view s))"
  shows "T p \<noteq> None \<Longrightarrow> \<forall>q \<in> subtree T p. length q < length p + fuel \<Longrightarrow>
    \<exists>body. export_node fuel S s (DbPath p) = Some (Inr body) \<and> export_text (abs_tree T) p body"
proof (induction fuel arbitrary: p)
  case 0
  then show ?case by (auto simp: subtree_def)
next
  case (Suc fuel)
  have tr: "tree_ok T" and st: "stores (abs_tree T) n (bt_get (view s))"
    using T ns_rep_parts(1) by (auto simp: stores_def)
  obtain k nd where k: "T p = Some (k, nd)" using Suc.prems(1) by auto
  then have a: "abs_tree T p = Some nd" by (auto simp: abs_tree_Some)
  have get: "db_get S s (DbPath p) = Inr (spec_entry (DbPath p) nd)"
    using a by (simp add: db_get_tree [OF i st] spec_get_def)
  show ?case
  proof (cases nd)
    case DirN
    obtain names where l: "db_list S s (DbPath p) = Inr names" "sorted_wrt (<) (map fst names)"
        "\<And>x kd. (x, kd) \<in> set names \<longleftrightarrow> (\<exists>nd. abs_tree T (p @ [x]) = Some nd \<and> kd = node_kind nd)"
      using db_list_tree [OF i st, of "DbPath p"] a DirN by auto
    have "x \<in> fst ` set names \<longleftrightarrow> (\<exists>kd. (x, kd) \<in> set names)" for x by force
    then have cs: "fst ` set names = {x. abs_tree T (p @ [x]) \<noteq> None}"
      unfolding l(3) by (intro set_eqI) (simp only: mem_Collect_eq not_None_eq, blast)
    then have cT: "T (p @ [x]) \<noteq> None" if "x \<in> fst ` set names" for x using that by (simp add: abs_tree_def)
    have join: "path_join (DbPath p) x = Inr (DbPath (p @ [x]))" if h: "x \<in> fst ` set names" for x
    proof -
      obtain r where "T (p @ [x]) = Some r" using cT [OF h] by blast
      then have "path_ok (p @ [x])" using tree_node [OF tr] by (cases r) blast
      then show ?thesis by (simp add: path_ok_def wf_path_def wf_segment_def path_join_def)
    qed
    have visit: "\<exists>body. export_node fuel S s (DbPath (p @ [x])) = Some (Inr body) \<and> export_text (abs_tree T) (p @ [x]) body"
      if "x \<in> fst ` set names" for x
      using Suc.IH [OF cT [OF that]] Suc.prems(2) by (auto simp: subtree_def)
    obtain kids where kids: "map fst kids = map fst names" "\<forall>(k, body) \<in> set kids. export_text (abs_tree T) (p @ [k]) body"
        "export_children (export_node fuel S s) (DbPath p) names [] = Some (Inr ([] @ map (\<lambda>(k, body). json_field k body) kids))"
      using export_children_text [of names "export_node fuel S s" p "\<lambda>x. export_text (abs_tree T) (p @ [x])" "[]"] visit join by auto
    have "export_text (abs_tree T) p (json_tagged ''__dir'' (''{'' @ join_with '', '' (map (\<lambda>(k, body). json_field k body) kids) @ ''}''))"
    proof (rule export_dir)
      show "fst ` set kids = {x. abs_tree T (p @ [x]) \<noteq> None}" using cs kids(1) by (metis image_set)
    qed (use a DirN l(2) kids in auto)
    then show ?thesis using get l(1) kids(3) DirN by (simp add: spec_entry_def)
  next
    case (ValN v)
    then show ?thesis using get a export_value by (simp add: spec_entry_def)
  qed
qed

lemma export_json_text:
  assumes i: "invar s" and st: "stores t n (bt_get (view s))" and "length (view s) \<le> fuel"
  shows "\<exists>json. export_json fuel S s = Some (Inr json) \<and> export_text t [] json"
proof -
  obtain T where T: "ns_rep T n (bt_get (view s))" "t = abs_tree T" using st by (auto simp: stores_def)
  have "T [] \<noteq> None" using tree_root [OF ns_rep_parts(1) [OF T(1)]] by simp
  moreover have "\<forall>q \<in> subtree T []. length q < length ([] :: string list) + fuel"
    using depth_bound [OF i T(1)] assms(3) by (fastforce simp: subtree_def)
  ultimately show ?thesis using export_node_text [OF i T(1)] T(2) by (auto simp: export_json_def path_root_def)
qed

lemma db_list_other:
  assumes i: "invar s" and st: "stores t n (bt_get (view s))"
  shows "t (segments path) = None \<Longrightarrow> db_list S s path = Inl (NotFound (as_str path))"
    and "t (segments path) = Some (ValN v) \<Longrightarrow> db_list S s path = Inl (NotDirectory (as_str path))"
proof -
  obtain T where T: "ns_rep T n (bt_get (view s))" "t = abs_tree T" using st by (auto simp: stores_def)
  show "db_list S s path = Inl (NotFound (as_str path))" if "t (segments path) = None"
    using that T(2) by (simp add: db_list_def resolve_tree [OF i T(1)])
  show "db_list S s path = Inl (NotDirectory (as_str path))" if "t (segments path) = Some (ValN v)"
    using that T(2) by (auto simp: db_list_def resolve_tree [OF i T(1)] abs_tree_Some)
qed

end

section \<open>The contract of each request\<close>

text \<open>The answer to a call that may fail.\<close>

fun reply_of :: "Response \<Rightarrow> NsError + 'a \<Rightarrow> Response" where
  "reply_of ok (Inl e) = RsErr (show_ns_error e)"
| "reply_of ok (Inr _) = ok"

fun ok_message :: "TxnOp \<Rightarrow> string" where
  "ok_message (TMkdir p) = ''ok '' @ as_str p"
| "ok_message (TSet p v) = ''ok '' @ as_str p"
| "ok_message (TDelete p) = ''ok '' @ as_str p"
| "ok_message _ = ''ok''"

definition mutated :: "string + TxnOp \<Rightarrow> ns_tree \<Rightarrow> Response \<Rightarrow> ns_tree \<Rightarrow> bool" where
  "mutated op t resp t' \<longleftrightarrow>
     (case op of
        Inl e \<Rightarrow> resp = RsErr e \<and> t' = t
      | Inr op \<Rightarrow> \<exists>r. outcome (spec_op op t) t r t' \<and> resp = reply_of (RsOk (ok_message op)) r)"

definition spec_get_reply :: "string \<Rightarrow> ns_tree \<Rightarrow> Response" where
  "spec_get_reply path t =
     (case parse_path path of
        Inl e \<Rightarrow> RsErr e
      | Inr p \<Rightarrow>
          (case t (segments p) of
             None \<Rightarrow> RsErr (show_ns_error (NotFound (as_str p)))
           | Some DirN \<Rightarrow> RsValue ''directory'' (as_str p)
           | Some (ValN v) \<Rightarrow> RsValue (typename v) (format_value v)))"

definition kind_text :: "ns_node \<Rightarrow> string" where
  "kind_text nd = (case nd of DirN \<Rightarrow> ''dir'' | ValN _ \<Rightarrow> ''val'')"

definition listed :: "string \<Rightarrow> ns_tree \<Rightarrow> Response \<Rightarrow> bool" where
  "listed path t resp \<longleftrightarrow>
     (case parse_path path of
        Inl e \<Rightarrow> resp = RsErr e
      | Inr p \<Rightarrow>
          (case t (segments p) of
             None \<Rightarrow> resp = RsErr (show_ns_error (NotFound (as_str p)))
           | Some (ValN _) \<Rightarrow> resp = RsErr (show_ns_error (NotDirectory (as_str p)))
           | Some DirN \<Rightarrow> \<exists>es. resp = RsList es \<and> sorted_wrt (<) (map le_name es)
               \<and> set es = {\<lparr>le_name = x, le_kind = kind_text nd\<rparr> | x nd. t (segments p @ [x]) = Some nd}))"

definition queried :: "(Tok option \<Rightarrow> string) \<Rightarrow> string \<Rightarrow> ns_tree \<Rightarrow> Response \<Rightarrow> bool" where
  "queried dbg query t resp \<longleftrightarrow>
     (case parse_query (Suc (length query)) query of
        None \<Rightarrow> False
      | Some (Inl e) \<Rightarrow> resp = RsErr (show_parse_error dbg e)
      | Some (Inr e) \<Rightarrow> \<exists>hits. resp = RsQuery (map query_hit hits) \<and> distinct (map hit_path hits)
          \<and> set hits = {\<lparr>hit_path = path, hit_type = node_type nd\<rparr> | path nd. t (segments path) = Some nd \<and> satisfies e path nd})"

text \<open>\<open>served req t resp t'\<close>: on the tree \<open>t\<close> the request may answer \<open>resp\<close> and leave \<open>t'\<close>.\<close>

fun served :: "DebugText \<Rightarrow> Request \<Rightarrow> ns_tree \<Rightarrow> Response \<Rightarrow> ns_tree \<Rightarrow> bool" where
  "served dbg RqPing t resp t' \<longleftrightarrow> t' = t \<and> resp = RsOk ''pong''"
| "served dbg RqStats t resp t' \<longleftrightarrow> t' = t \<and> (\<exists>up rq mu qu er keys. resp = RsStats up rq mu qu er keys)"
| "served dbg (RqGet path) t resp t' \<longleftrightarrow> t' = t \<and> resp = spec_get_reply path t"
| "served dbg (RqLs path) t resp t' \<longleftrightarrow> t' = t \<and> listed path t resp"
| "served dbg (RqQuery query) t resp t' \<longleftrightarrow> t' = t \<and> queried (dbg_tok dbg) query t resp"
| "served dbg RqExport t resp t' \<longleftrightarrow> t' = t \<and> (\<exists>json. resp = RsExport json \<and> export_text t [] json)"
| "served dbg RqCompact t resp t' \<longleftrightarrow> t' = t \<and> (resp = RsOk ''ok compacted'' \<or> (\<exists>e. resp = RsErr (show_storage_error e)))"
| "served dbg (RqImport json) t resp t' \<longleftrightarrow> resp = RsOk ''ok imported'' \<or> (\<exists>e. resp = RsErr (show_ns_error e))"
| "served dbg (RqBatch ops) t resp t' \<longleftrightarrow>
     (case try_map (request_to_txn (dbg_request dbg)) ops of
        Inl e \<Rightarrow> resp = RsErr e \<and> t' = t
      | Inr txn \<Rightarrow> \<exists>r. outcome (spec_txn txn t) t r t' \<and> resp = reply_of (RsOk (''ok batch '' @ show_nat (length txn))) r)"
| "served dbg req t resp t' \<longleftrightarrow> mutated (request_to_txn (dbg_request dbg) req) t resp t'"

text \<open>
  What is asked of a request: its strings are UTF-8 and short enough for the codec, a collection it
  extends stays within the codec's limits, and identifiers are left.
\<close>

fun request_ok :: "DebugText \<Rightarrow> Request \<Rightarrow> ns_tree \<Rightarrow> u64 \<Rightarrow> bool" where
  "request_ok dbg (RqMkdir path) t n \<longleftrightarrow> n \<noteq> - 1 \<and> utf8_string path"
| "request_ok dbg (RqSet path ty raw) t n \<longleftrightarrow> n \<noteq> - 1 \<and> utf8_string path \<and> utf8_string raw \<and> len_ok raw"
| "request_ok dbg (RqRm path) t n \<longleftrightarrow> n \<noteq> - 1"
| "request_ok dbg (RqHset path key ty raw) t n \<longleftrightarrow>
     n \<noteq> - 1 \<and> (\<forall>op. request_to_txn (dbg_request dbg) (RqHset path key ty raw) = Inr op \<longrightarrow> op_wf op t)"
| "request_ok dbg (RqLpush path ty raw) t n \<longleftrightarrow>
     n \<noteq> - 1 \<and> (\<forall>op. request_to_txn (dbg_request dbg) (RqLpush path ty raw) = Inr op \<longrightarrow> op_wf op t)"
| "request_ok dbg (RqSadd path ty raw) t n \<longleftrightarrow>
     n \<noteq> - 1 \<and> (\<forall>op. request_to_txn (dbg_request dbg) (RqSadd path ty raw) = Inr op \<longrightarrow> op_wf op t)"
| "request_ok dbg (RqTset path key ty raw) t n \<longleftrightarrow>
     n \<noteq> - 1 \<and> (\<forall>op. request_to_txn (dbg_request dbg) (RqTset path key ty raw) = Inr op \<longrightarrow> op_wf op t)"
| "request_ok dbg (RqBatch ops) t n \<longleftrightarrow>
     unat n + length ops < 2 ^ 64 \<and> (\<forall>txn. try_map (request_to_txn (dbg_request dbg)) ops = Inr txn \<longrightarrow> txn_wf txn t)"
| "request_ok dbg (RqImport json) t n \<longleftrightarrow>
     unat n + length json < 2 ^ 64 \<and> utf8_string json \<and> len_ok json \<and> CHR 0x00 \<notin> set json"
| "request_ok dbg _ t n \<longleftrightarrow> True"

text \<open>The fuel that is always enough: the rows of the store and the length of the text of the request.\<close>

fun request_fuel :: "Request \<Rightarrow> nat" where
  "request_fuel (RqQuery query) = Suc (length query)"
| "request_fuel (RqImport json) = Suc (length json)"
| "request_fuel _ = 0"

definition good_db :: "ns_tree \<Rightarrow> u64 \<Rightarrow> DbHandle \<Rightarrow> bool" where
  "good_db t n db \<longleftrightarrow> \<not> poisoned db \<and> ns_state wal_map wal_map_ok t n (hd_db db)"


section \<open>Each request keeps its contract\<close>

text \<open>The requests that are one operation of a transaction.\<close>

fun single_op :: "Request \<Rightarrow> bool" where
  "single_op (RqMkdir _) = True"
| "single_op (RqSet _ _ _) = True"
| "single_op (RqRm _) = True"
| "single_op (RqHset _ _ _ _) = True"
| "single_op (RqLpush _ _ _) = True"
| "single_op (RqSadd _ _ _) = True"
| "single_op (RqTset _ _ _ _) = True"
| "single_op _ = False"

lemma try_at_and_then: "try_at s (and_then r f) g = try_at s r (\<lambda>x. try_at s (f x) g)"
  by (cases r) simp_all

lemma serve_single_op:
  assumes "single_op req"
  shows "serve_request fuel dbg now stats req db =
    with_db_mut (\<lambda>d. Some (try_at d (request_to_txn (dbg_request dbg) req) (\<lambda>op.
      ns_reply (RsOk (ok_message op)) (direct_op wal_storage op d)))) db"
  using assms by (cases req) (simp_all add: try_at_and_then Let_def)

lemma with_db_good:
  assumes "\<not> poisoned db" "f (hd_db db) = Returns r"
  shows "with_db f db = (Returns (case r of Inl e \<Rightarrow> RsErr e | Inr resp \<Rightarrow> resp), db)"
  using assms by (cases r) (simp_all add: with_db_def)

lemma with_db_mut_reply:
  assumes "\<not> poisoned db" "f (hd_db db) = Some (ns_reply resp (r, d'))"
  shows "with_db_mut f db = (Returns (reply_of resp r), db\<lparr>hd_db := d'\<rparr>)"
  using assms by (cases r) (simp_all add: with_db_mut_def ns_reply_def)

lemma parse_path_ok: "parse_path s = Inr p \<Longrightarrow> utf8_string s \<Longrightarrow> path_ok (segments p)"
  using path_ok_parse by (simp add: parse_path_def)

lemma parse_typed_value_wf:
  assumes "parse_typed_value ty raw = Inr v" "utf8_string raw" "len_ok raw"
  shows "wf_value v"
  using assms
  by (auto simp: parse_typed_value_def and_then_Inr_iff value_null_def value_bool_def value_int_def value_float_def
      from_f64_def value_string_def value_bytes_def len_ok_def as_bytes_def split: if_splits)

lemma single_op_wf:
  assumes "single_op req" "request_ok dbg req t n" "request_to_txn (dbg_request dbg) req = Inr op"
  shows "op_wf op t" "n \<noteq> - 1"
proof -
  show "n \<noteq> - 1" using assms by (cases req) simp_all
  show "op_wf op t"
  proof (cases req)
    case (RqMkdir path)
    then show ?thesis using assms parse_path_ok by (auto simp: and_then_Inr_iff)
  next
    case (RqSet path ty raw)
    then show ?thesis using assms parse_path_ok parse_typed_value_wf by (auto simp: and_then_Inr_iff)
  next
    case (RqRm path)
    then show ?thesis using assms by (auto simp: and_then_Inr_iff)
  qed (use assms in simp_all)
qed

lemma single_op_served:
  assumes "good_db t n db" "single_op req" "request_ok dbg req t n"
  shows "\<exists>resp t' n' db'. serve_request fuel dbg now stats req db = (Returns resp, db') \<and> good_db t' n' db'
    \<and> mutated (request_to_txn (dbg_request dbg) req) t resp t'"
proof -
  have p: "\<not> poisoned db" and s: "wal_map_ok (hd_db db)" "stores t n (bt_get (wal_map (hd_db db)))"
    using assms(1) by (simp_all add: good_db_def ns_state_def)
  show ?thesis
  proof (cases "request_to_txn (dbg_request dbg) req")
    case (Inl e)
    have "serve_request fuel dbg now stats req db = (Returns (RsErr e), db)"
      using p Inl by (simp add: serve_single_op [OF assms(2)] with_db_mut_def)
    then show ?thesis using assms(1) Inl by (auto simp: mutated_def)
  next
    case (Inr op)
    obtain r d' where run: "direct_op wal_storage op (hd_db db) = (r, d')" by fastforce
    obtain t' n' where o: "wal_map_ok d'" "stores t' n' (bt_get (wal_map d'))" "outcome (spec_op op t) t r t'"
      using wal.direct_op_tree [OF s single_op_wf(2,1) [OF assms(2,3) Inr] run] by blast
    have "serve_request fuel dbg now stats req db = (Returns (reply_of (RsOk (ok_message op)) r), db\<lparr>hd_db := d'\<rparr>)"
      unfolding serve_single_op [OF assms(2)] by (rule with_db_mut_reply [OF p]) (simp add: Inr run)
    moreover have "good_db t' n' (db\<lparr>hd_db := d'\<rparr>)" using p o by (simp add: good_db_def ns_state_def)
    ultimately show ?thesis using o(3) Inr unfolding mutated_def by fastforce
  qed
qed

lemma try_map_length: "try_map f xs = Inr ys \<Longrightarrow> length ys = length xs"
  by (induction xs arbitrary: ys) (auto simp: and_then_Inr_iff)

lemma batch_served:
  assumes "good_db t n db" "request_ok dbg (RqBatch ops) t n"
  shows "\<exists>resp t' n' db'. apply_batch (dbg_request dbg) ops db = (Returns resp, db') \<and> good_db t' n' db'
    \<and> served dbg (RqBatch ops) t resp t'"
proof -
  have p: "\<not> poisoned db" and s: "wal_map_ok (hd_db db)" "stores t n (bt_get (wal_map (hd_db db)))"
    using assms(1) by (simp_all add: good_db_def ns_state_def)
  show ?thesis
  proof (cases "try_map (request_to_txn (dbg_request dbg)) ops")
    case (Inl e)
    then have "apply_batch (dbg_request dbg) ops db = (Returns (RsErr e), db)" using p by (simp add: apply_batch_def with_db_mut_def)
    then show ?thesis using assms(1) Inl by auto
  next
    case (Inr txn)
    obtain r d' where run: "apply_txn wal_storage txn (hd_db db) = (r, d')" by fastforce
    have "unat n + length txn < 2 ^ 64" "txn_wf txn t" using assms(2) Inr try_map_length [OF Inr] by simp_all
    from wal.apply_txn_tree [OF s this run] obtain t' n' where
      o: "wal_map_ok d'" "stores t' n' (bt_get (wal_map d'))" "outcome (spec_txn txn t) t r t'" by blast
    have "apply_batch (dbg_request dbg) ops db = (Returns (reply_of (RsOk (''ok batch '' @ show_nat (length txn))) r), db\<lparr>hd_db := d'\<rparr>)"
      unfolding apply_batch_def by (rule with_db_mut_reply [OF p]) (simp add: Inr run)
    moreover have "good_db t' n' (db\<lparr>hd_db := d'\<rparr>)" using p o by (simp add: good_db_def ns_state_def)
    moreover have "served dbg (RqBatch ops) t (reply_of (RsOk (''ok batch '' @ show_nat (length txn))) r) t'"
      using o(3) Inr by auto
    ultimately show ?thesis by blast
  qed
qed


lemma get_served:
  assumes "good_db t n db"
  shows "serve_request fuel dbg now stats (RqGet path) db = (Returns (spec_get_reply path t), db)"
proof -
  have p: "\<not> poisoned db" and s: "wal_map_ok (hd_db db)" "stores t n (bt_get (wal_map (hd_db db)))"
    using assms by (simp_all add: good_db_def ns_state_def)
  show ?thesis using p
    by (cases "parse_path path"; cases "t (segments (projr (parse_path path)))" rule: option.exhaust [case_names None Some])
      (auto simp: with_db_def spec_get_reply_def wal.db_get_tree [OF s] spec_get_def get_reply_def spec_entry_def
        split: ns_node.splits)
qed

lemma list_served:
  assumes "good_db t n db"
  shows "\<exists>resp. serve_request fuel dbg now stats (RqLs path) db = (Returns resp, db) \<and> listed path t resp"
proof -
  have p: "\<not> poisoned db" and s: "wal_map_ok (hd_db db)" "stores t n (bt_get (wal_map (hd_db db)))"
    using assms by (simp_all add: good_db_def ns_state_def)
  show ?thesis
  proof (cases "parse_path path")
    case (Inl e)
    then show ?thesis using p by (simp add: with_db_def listed_def)
  next
    case (Inr q)
    show ?thesis
    proof (cases "t (segments q)")
      case None
      then show ?thesis using p Inr wal.db_list_other [OF s] by (simp add: with_db_def listed_def)
    next
      case (Some nd)
      show ?thesis
      proof (cases nd)
        case DirN
        obtain xs where xs: "db_list wal_storage (hd_db db) q = Inr xs" "sorted_wrt (<) (map fst xs)"
            "\<And>x k. (x, k) \<in> set xs \<longleftrightarrow> (\<exists>nd. t (segments q @ [x]) = Some nd \<and> k = node_kind nd)"
          using wal.db_list_tree [OF s, of q] Some DirN by blast
        have k: "(case node_kind nd of Directory \<Rightarrow> ''dir'' | EntryValue \<Rightarrow> ''val'') = kind_text nd" for nd
          by (cases nd) (simp_all add: kind_text_def)
        have "set (map list_entry xs) = {\<lparr>le_name = x, le_kind = kind_text nd\<rparr> | x nd. t (segments q @ [x]) = Some nd}"
        proof (intro set_eqI iffI)
          fix e assume "e \<in> set (map list_entry xs)"
          then obtain x kd where "(x, kd) \<in> set xs" "e = list_entry (x, kd)" by auto
          then show "e \<in> {\<lparr>le_name = x, le_kind = kind_text nd\<rparr> | x nd. t (segments q @ [x]) = Some nd}"
            unfolding xs(3) list_entry_def using k by auto
        next
          fix e assume "e \<in> {\<lparr>le_name = x, le_kind = kind_text nd\<rparr> | x nd. t (segments q @ [x]) = Some nd}"
          then obtain x nd where "t (segments q @ [x]) = Some nd" "e = \<lparr>le_name = x, le_kind = kind_text nd\<rparr>" by blast
          then have "(x, node_kind nd) \<in> set xs" "e = list_entry (x, node_kind nd)" unfolding xs(3) list_entry_def using k by auto
          then show "e \<in> set (map list_entry xs)" by (metis image_eqI list.set_map)
        qed
        moreover have "map le_name (map list_entry xs) = map fst xs" by (induction xs) (auto simp: list_entry_def)
        ultimately have "\<exists>es. RsList (map list_entry xs) = RsList es \<and> sorted_wrt (<) (map le_name es)
            \<and> set es = {\<lparr>le_name = x, le_kind = kind_text nd\<rparr> | x nd. t (segments q @ [x]) = Some nd}"
          using xs(2) by (intro exI [of _ "map list_entry xs"]) argo
        then have "listed path t (RsList (map list_entry xs))" using Inr Some DirN by (simp add: listed_def)
        then show ?thesis using p Inr xs(1) by (simp add: with_db_def)
      next
        case (ValN v)
        then show ?thesis using p Inr Some wal.db_list_other [OF s] by (simp add: with_db_def listed_def)
      qed
    qed
  qed
qed


lemma parse_query_enough: "length query < fuel \<Longrightarrow> parse_query fuel query = parse_query (Suc (length query)) query"
  using parse_query_fuel [of query "Suc (length query)"] by (metis Suc_leI le_refl lessI)

lemma query_served:
  assumes "good_db t n db" "length (wal_map (hd_db db)) + Suc (length query) \<le> fuel"
  shows "\<exists>resp. serve_request fuel dbg now stats (RqQuery query) db = (Returns resp, db) \<and> queried (dbg_tok dbg) query t resp"
proof -
  have p: "\<not> poisoned db" and s: "wal_map_ok (hd_db db)" "stores t n (bt_get (wal_map (hd_db db)))"
    using assms(1) by (simp_all add: good_db_def ns_state_def)
  have "length query < fuel" using assms(2) by simp
  note eq = parse_query_enough [OF this]
  obtain r where r: "parse_query (Suc (length query)) query = Some r"
    using parse_query_fuel [of query "Suc (length query)"] by blast
  show ?thesis
  proof (cases r)
    case (Inl e)
    then show ?thesis using p r by (simp add: with_db_def execute_def eq queried_def)
  next
    case (Inr e)
    obtain cs where cs: "candidates_for fuel wal_storage (hd_db db) e = Some (Inr cs)" "candidates_ok t e cs"
      using wal.candidates_tree [OF s, of fuel e] assms(2) by auto
    then have "serve_request fuel dbg now stats (RqQuery query) db = (Returns (RsQuery (map query_hit (hits_of e cs))), db)"
      using p r Inr by (simp add: with_db_def execute_def eq)
    then show ?thesis using hits_of_candidates [OF cs(2)] r Inr by (auto simp: queried_def)
  qed
qed

lemma export_served:
  assumes "good_db t n db" "length (wal_map (hd_db db)) \<le> fuel"
  shows "\<exists>json. serve_request fuel dbg now stats RqExport db = (Returns (RsExport json), db) \<and> export_text t [] json"
proof -
  have p: "\<not> poisoned db" and s: "wal_map_ok (hd_db db)" "stores t n (bt_get (wal_map (hd_db db)))"
    using assms(1) by (simp_all add: good_db_def ns_state_def)
  from wal.export_json_text [OF s assms(2)] show ?thesis using p by (auto simp: with_db_def)
qed

lemma compact_served:
  assumes "good_db t n db"
  shows "\<exists>resp db'. serve_request fuel dbg now stats RqCompact db = (Returns resp, db') \<and> good_db t n db'
    \<and> (resp = RsOk ''ok compacted'' \<or> (\<exists>e. resp = RsErr (show_storage_error e)))"
proof -
  obtain r d' where run: "wal_compact (hd_db db) = (r, d')" by fastforce
  then have "wal_map d' = wal_map (hd_db db)" using wal_compact_map by simp
  then have "good_db t n (db\<lparr>hd_db := d'\<rparr>)" using assms by (simp add: good_db_def ns_state_def wal_map_ok_def)
  then show ?thesis using assms run by (cases r) (auto simp: with_db_mut_def good_db_def)
qed

lemma import_served:
  assumes "good_db t n db" "request_ok dbg (RqImport json) t n" "length json < fuel"
  shows "\<exists>resp t' n' db'. serve_request fuel dbg now stats (RqImport json) db = (Returns resp, db') \<and> good_db t' n' db'
    \<and> (resp = RsOk ''ok imported'' \<or> (\<exists>e. resp = RsErr (show_ns_error e)))"
proof -
  have p: "\<not> poisoned db" and s: "wal_map_ok (hd_db db)" "stores t n (bt_get (wal_map (hd_db db)))"
    using assms(1) by (simp_all add: good_db_def ns_state_def)
  obtain r d' where run: "import_json fuel wal_storage json (hd_db db) = Some (r, d')" and
      k: "keeps wal_map wal_map_ok n (length json) d'"
    using wal.import_json_keeps [OF s, of json fuel] assms(2,3) by auto
  have "serve_request fuel dbg now stats (RqImport json) db = (Returns (reply_of (RsOk ''ok imported'') r), db\<lparr>hd_db := d'\<rparr>)"
    unfolding serve_request.simps by (rule with_db_mut_reply [OF p]) (simp add: run)
  moreover obtain t' n' where "good_db t' n' (db\<lparr>hd_db := d'\<rparr>)" using k p by (auto simp: good_db_def ns_state_def keeps_def)
  moreover have "reply_of (RsOk ''ok imported'') r = RsOk ''ok imported'' \<or> (\<exists>e. reply_of (RsOk ''ok imported'') r = RsErr (show_ns_error e))"
    by (cases r) auto
  ultimately show ?thesis by blast
qed

lemma request_served:
  assumes "good_db t n db" "request_ok dbg req t n" "length (wal_map (hd_db db)) + request_fuel req \<le> fuel"
  shows "\<exists>resp t' n' db'. serve_request fuel dbg now stats req db = (Returns resp, db') \<and> good_db t' n' db'
    \<and> served dbg req t resp t'"
proof (cases "single_op req")
  case True
  then have "served dbg req t resp t' = mutated (request_to_txn (dbg_request dbg) req) t resp t'" for resp t'
    by (cases req) (simp_all del: request_to_txn.simps)
  then show ?thesis using single_op_served [OF assms(1) True assms(2)] by simp
next
  case False
  then show ?thesis
  proof (cases req)
    case (RqGet path)
    then show ?thesis using get_served [OF assms(1)] assms(1) by fastforce
  next
    case (RqLs path)
    then show ?thesis using list_served [OF assms(1)] assms(1) by fastforce
  next
    case (RqQuery query)
    then show ?thesis using query_served [OF assms(1), of query fuel] assms(1,3) by fastforce
  next
    case RqExport
    then show ?thesis using export_served [OF assms(1), of fuel] assms(1,3) by fastforce
  next
    case RqCompact
    then show ?thesis using compact_served [OF assms(1)] by fastforce
  next
    case (RqImport json)
    then show ?thesis using import_served [OF assms(1), of dbg json fuel] assms(2,3) by fastforce
  next
    case (RqBatch ops)
    then show ?thesis using batch_served [OF assms(1), of dbg ops] assms(2) by fastforce
  qed (use assms(1) in \<open>simp_all, (auto simp: stats_response_def Let_def)?\<close>)
qed

end
