(* ===== verification/Fuse_Refine.thy ===== *)
theory Fuse_Refine
  imports Fuse Projection_Theorems Server_Refine
begin

text \<open>
  The file system keeps its table of inodes a bijection and its database well-formed, and every call
  that changes the namespace has exactly the effect that the tree of the database prescribes.
\<close>

section \<open>The table of inodes\<close>

definition inodes_ok :: "Fs \<Rightarrow> bool" where
  "inodes_ok fs \<longleftrightarrow>
     (\<forall>ino path. ino_to_path fs ino = Some path \<longleftrightarrow> path_to_ino fs path = Some ino)
   \<and> (\<forall>ino path. ino_to_path fs ino = Some path \<longrightarrow> ino < next_ino fs \<and> utf8_string path \<and> path \<noteq> [])
   \<and> ino_to_path fs FUSE_ROOT_ID = Some ''/''"

text \<open>What a call may change of the table: it only grows, by at most \<open>k\<close> inodes.\<close>

definition grown :: "nat \<Rightarrow> Fs \<Rightarrow> Fs \<Rightarrow> bool" where
  "grown k fs fs' \<longleftrightarrow>
     inodes_ok fs' \<and> ino_to_path fs \<subseteq>\<^sub>m ino_to_path fs' \<and> unat (next_ino fs') \<le> unat (next_ino fs) + k"

lemma inodes_ok_new: "inodes_ok (fs_new db)"
  by (auto simp: inodes_ok_def fs_new_def FUSE_ROOT_ID_def utf8_string_ascii)

lemma inodes_okD:
  assumes "inodes_ok fs"
  shows "ino_to_path fs ino = Some path \<longleftrightarrow> path_to_ino fs path = Some ino"
    and "ino_to_path fs ino = Some path \<Longrightarrow> ino < next_ino fs"
    and "ino_to_path fs ino = Some path \<Longrightarrow> utf8_string path"
    and "ino_to_path fs ino = Some path \<Longrightarrow> path \<noteq> []"
  using assms by (auto simp: inodes_ok_def)

lemma grown_refl: "inodes_ok fs \<Longrightarrow> grown k fs fs"
  by (simp add: grown_def)

lemma grown_trans: "grown j fs fs' \<Longrightarrow> grown k fs' fs'' \<Longrightarrow> grown (j + k) fs fs''"
  by (auto simp: grown_def intro: map_le_trans)

lemma grown_fields [simp]:
  "grown k (fs\<lparr>dirty := d\<rparr>) fs' = grown k fs fs'" "grown k fs (fs'\<lparr>dirty := d\<rparr>) = grown k fs fs'"
  "grown k (fs\<lparr>fs_db := db\<rparr>) fs' = grown k fs fs'" "grown k fs (fs'\<lparr>fs_db := db\<rparr>) = grown k fs fs'"
  "grown k (put_db w fs) fs' = grown k fs fs'" "grown k fs (put_db w fs') = grown k fs fs'"
  by (simp_all add: grown_def inodes_ok_def put_db_def)

lemma inodes_ok_fields [simp]:
  "inodes_ok (fs\<lparr>dirty := d\<rparr>) = inodes_ok fs" "inodes_ok (fs\<lparr>fs_db := db\<rparr>) = inodes_ok fs"
  "inodes_ok (put_db w fs) = inodes_ok fs"
  by (simp_all add: inodes_ok_def put_db_def)

lemma ino_for_path_grown:
  assumes ok: "inodes_ok fs" and u: "utf8_string path" "path \<noteq> []" and room: "unat (next_ino fs) + 1 < 2 ^ 64"
    and get: "ino_for_path path fs = (ino, fs')"
  shows "grown 1 fs fs'" "path_to_ino fs' path = Some ino" "fs_db fs' = fs_db fs" "dirty fs' = dirty fs"
proof -
  show "fs_db fs' = fs_db fs" "dirty fs' = dirty fs" "path_to_ino fs' path = Some ino"
    using get by (auto simp: ino_for_path_def Let_def split: option.splits)
  show "grown 1 fs fs'"
  proof (cases "path_to_ino fs path")
    case (Some i)
    then show ?thesis using get ok by (simp add: ino_for_path_def grown_refl)
  next
    case None
    let ?n = "next_ino fs"
    have n: "?n \<noteq> - 1" using room unat_minus_1 by auto
    have fs': "fs' = fs\<lparr>next_ino := ?n + 1, path_to_ino := (path_to_ino fs)(path \<mapsto> ?n), ino_to_path := (ino_to_path fs)(?n \<mapsto> path)\<rparr>"
      using get None by (auto simp: ino_for_path_def Let_def)
    have fresh: "ino_to_path fs ?n = None" using inodes_okD(2) [OF ok] by (cases "ino_to_path fs ?n") auto
    have unused: "path_to_ino fs q \<noteq> Some ?n" for q using inodes_okD(1) [OF ok, of ?n q] fresh by simp
    have "inodes_ok fs'" unfolding inodes_ok_def
    proof (intro conjI allI impI)
      show "ino_to_path fs' i = Some p \<longleftrightarrow> path_to_ino fs' p = Some i" for i p
        using inodes_okD(1) [OF ok, of i p] fresh unused [of p] None by (auto simp: fs')
      show "i < next_ino fs'" if "ino_to_path fs' i = Some p" for i p
        using that inodes_okD(2) [OF ok, of i p] less_succ [OF n] by (auto simp: fs' split: if_splits)
      show "utf8_string p" if "ino_to_path fs' i = Some p" for i p
        using that inodes_okD(3) [OF ok, of i p] u by (auto simp: fs' split: if_splits)
      show "p \<noteq> []" if "ino_to_path fs' i = Some p" for i p
        using that inodes_okD(4) [OF ok, of i p] u by (auto simp: fs' split: if_splits)
      show "ino_to_path fs' FUSE_ROOT_ID = Some ''/''"
        using ok fresh by (auto simp: fs' inodes_ok_def)
    qed
    moreover have "ino_to_path fs \<subseteq>\<^sub>m ino_to_path fs'" using fresh by (auto simp: fs' map_le_def)
    moreover have "unat (next_ino fs') \<le> unat ?n + 1" using unat_succ [of ?n] n by (simp add: fs')
    ultimately show ?thesis by (simp add: grown_def)
  qed
qed

lemma grown_mono: "grown j fs fs' \<Longrightarrow> j \<le> k \<Longrightarrow> grown k fs fs'"
  by (simp add: grown_def)

lemma utf8_child_path: "utf8_string a \<Longrightarrow> utf8_string b \<Longrightarrow> utf8_string (child_path a b)"
  using utf8_append [OF utf8_string_ascii [of "''/''"], of b] utf8_append [of a "''/'' @ b"] by (simp add: child_path_def)

lemma child_path_ne [simp]: "child_path a b \<noteq> []"
  by (simp add: child_path_def)

lemma add_entries_grown:
  assumes "inodes_ok fs" "unat (next_ino fs) + length es < 2 ^ 64" "utf8_string path_str \<and> path_str \<noteq> []"
    and "\<forall>(name, ft) \<in> set es. utf8_string name" and "add_entries full path_str i es rows fs = (rows', fs')"
  shows "grown (length es) fs fs' \<and> fs_db fs' = fs_db fs \<and> dirty fs' = dirty fs"
  using assms
proof (induction es arbitrary: i rows fs)
  case (Cons e es)
  obtain name ft where e: "e = (name, ft)" by (cases e)
  define child where "child = (if name = ''.'' \<or> name = ''..'' then path_str else child_path path_str name)"
  obtain ino fs1 where get: "ino_for_path child fs = (ino, fs1)" by (cases "ino_for_path child fs")
  have "utf8_string child" "child \<noteq> []" using Cons.prems(3,4) e by (auto simp: child_def utf8_child_path)
  note g = ino_for_path_grown [OF Cons.prems(1) this _ get]
  have room: "unat (next_ino fs) + 1 < 2 ^ 64" using Cons.prems(2) by simp
  note g = g [OF room]
  let ?row = "(ino, of_nat (i + 1), ft, name)"
  have step: "add_entries full path_str i (e # es) rows fs =
      (if full rows ?row then (rows, fs1) else add_entries full path_str (i + 1) es (rows @ [?row]) fs1)"
    using get by (simp add: e child_def Let_def)
  show "grown (length (e # es)) fs fs' \<and> fs_db fs' = fs_db fs \<and> dirty fs' = dirty fs"
  proof (cases "full rows ?row")
    case True
    then show ?thesis using g Cons.prems(5) step grown_mono [OF g(1)] by simp
  next
    case False
    have "unat (next_ino fs1) + length es < 2 ^ 64" using g(1) Cons.prems(2) by (simp add: grown_def)
    note IH = Cons.IH [of fs1 "i + 1" "rows @ [?row]", OF _ this Cons.prems(3)]
    have "inodes_ok fs1" using g(1) by (simp add: grown_def)
    with IH Cons.prems(4,5) step False show ?thesis
      using grown_trans [OF g(1), of "length es" fs'] g(3,4) by simp
  qed
qed (simp_all add: grown_refl)


section \<open>Reading the tree\<close>

definition good_fs :: "ns_tree \<Rightarrow> u64 \<Rightarrow> Fs \<Rightarrow> bool" where
  "good_fs t n fs \<longleftrightarrow> good_db t n (fs_db fs) \<and> inodes_ok fs"

definition tree_value :: "ns_tree \<Rightarrow> DbPath \<Rightarrow> Value option" where
  "tree_value t path = (case t (segments path) of Some (ValN v) \<Rightarrow> Some v | _ \<Rightarrow> None)"

lemma good_fs_state:
  assumes "good_fs t n fs"
  shows "inodes_ok fs" "\<not> poisoned (fs_db fs)" "wal_map_ok (hd_db (fs_db fs))"
    "stores t n (bt_get (wal_map (hd_db (fs_db fs))))"
  using assms by (simp_all add: good_fs_def good_db_def ns_state_def)

lemma good_fs_locked: "good_fs t n fs \<Longrightarrow> locked fs k = k (hd_db (fs_db fs))"
  by (simp add: locked_def good_fs_state)

lemma good_fs_put:
  "good_fs t n fs \<Longrightarrow> wal_map_ok d \<Longrightarrow> stores t' n' (bt_get (wal_map d)) \<Longrightarrow> good_fs t' n' (put_db d fs)"
  by (simp add: good_fs_def good_db_def ns_state_def put_db_def)

lemma good_fs_grown:
  "good_fs t n fs \<Longrightarrow> grown k fs fs' \<Longrightarrow> fs_db fs' = fs_db fs \<Longrightarrow> good_fs t n fs'"
  by (simp add: good_fs_def grown_def)

lemma stores_tree:
  assumes "stores t n f"
  shows "t [] = Some DirN" "t p = Some nd \<Longrightarrow> path_ok p \<and> node_ok nd" "t (p @ [x]) = Some nd \<Longrightarrow> t p = Some DirN"
    "t p = Some (ValN v) \<Longrightarrow> t (p @ q @ [x]) = None"
proof -
  obtain T where "ns_rep T n f" and t: "t = abs_tree T" using assms by (auto simp: stores_def)
  then have T: "tree_ok T" by (simp add: ns_rep_def graph_rep_def)
  show "t [] = Some DirN" using tree_root [OF T] by (auto simp: t abs_tree_Some)
  show "path_ok p \<and> node_ok nd" if "t p = Some nd" using that tree_node [OF T] by (auto simp: t abs_tree_Some)
  show "t p = Some DirN" if "t (p @ [x]) = Some nd" for p x nd
    using that tree_parent [OF T] by (fastforce simp: t abs_tree_Some)
  then show "t (p @ q @ [x]) = None" if "t p = Some (ValN v)"
    using that by (induction q arbitrary: x rule: rev_induct) (metis append.assoc append_Nil ns_node.distinct(1) option.exhaust option.inject)+
qed

lemma value_of_tree: "good_fs t n fs \<Longrightarrow> value_of (hd_db (fs_db fs)) path = tree_value t path"
  using wal.db_get_tree [OF good_fs_state(3,4), of t n fs t n path]
  by (auto simp: value_of_def tree_value_def spec_get_def spec_entry_def split: option.splits ns_node.splits)

lemma db_get_good:
  "good_fs t n fs \<Longrightarrow> db_get wal_storage (hd_db (fs_db fs)) path =
     (case t (segments path) of Some nd \<Rightarrow> Inr (spec_entry path nd) | None \<Rightarrow> Inl (NotFound (as_str path)))"
  using wal.db_get_tree [OF good_fs_state(3,4), of t n fs t n path] by (simp add: spec_get_def split: option.splits)

lemma parent_value_tree:
  "good_fs t n fs \<Longrightarrow> parent_value (hd_db (fs_db fs)) path = Option.bind (path_parent path) (tree_value t)"
  by (cases "path_parent path") (simp_all add: parent_value_def value_of_tree)

lemma tree_value_ok:
  "stores t n f \<Longrightarrow> tree_value t path = Some v \<Longrightarrow> wf_value v \<and> canonical v \<and> path_ok (segments path) \<and> \<not> is_root path"
  using stores_tree(1) [of t n f] stores_tree(2) [of t n f "segments path" "ValN v"]
  by (auto simp: tree_value_def is_root_def split: option.splits ns_node.splits)


section \<open>The path of a child\<close>

lemma append_slash_eq:
  assumes "a @ slash # x = b @ slash # y" "slash \<notin> set x" "slash \<notin> set y"
  shows "a = b \<and> x = y"
proof -
  have "takeWhile (\<lambda>c. c \<noteq> slash) (rev (a @ slash # x)) = rev x" "takeWhile (\<lambda>c. c \<noteq> slash) (rev (b @ slash # y)) = rev y"
    using assms(2,3) by (auto simp: takeWhile_append takeWhile_eq_all_conv)
  then show ?thesis using assms(1) by (metis append_same_eq list.inject rev_rev_ident same_append_eq append_eq_append_conv length_rev)
qed

lemma as_str_snoc: "as_str (DbPath (ss @ [x])) = (if ss = [] then [] else as_str (DbPath ss)) @ slash # x"
  by (simp add: as_str_def join_with_snoc)

lemma child_segments:
  assumes p: "path_parse (child_path pp name) = Inr q" and "pp \<noteq> []" "name \<noteq> []" "slash \<notin> set name"
  shows "path_parse pp = Inr (DbPath (butlast (segments q))) \<and> segments q = butlast (segments q) @ [name]"
proof -
  obtain k where wf: "wf_path q" and k: "child_path pp name = as_str q @ replicate k slash" using parse_Inr [OF p] by blast
  have "last name \<noteq> slash" by (rule notI) (use assms(4) last_in_set [OF assms(3)] in simp)
  then have "last (child_path pp name) \<noteq> slash" using assms(3) by (simp add: child_path_def)
  then have "k = 0" using k by (metis append_is_Nil_conv last_append last_replicate replicate_empty)
  then have eq: "child_path pp name = as_str q" using k by simp
  have "segments q \<noteq> []"
    using eq assms(2,3) by (cases pp) (auto simp: child_path_def as_str_def split: if_splits)
  then obtain ss x where q: "segments q = ss @ [x]" by (metis rev_exhaust)
  then have qs: "q = DbPath (ss @ [x])" by (cases q) simp
  have "wf_segment x" "wf_path (DbPath ss)" using wf qs by (simp_all add: wf_path_def)
  then have x: "slash \<notin> set x" by (simp add: wf_segment_def)
  have "(if pp = ''/'' then [] else pp) @ slash # name = (if ss = [] then [] else as_str (DbPath ss)) @ slash # x"
    using eq by (auto simp: qs as_str_snoc child_path_def split: if_splits)
  from append_slash_eq [OF this assms(4) x]
  have "name = x" "(if pp = ''/'' then [] else pp) = (if ss = [] then [] else as_str (DbPath ss))" by simp_all
  then have "pp = as_str (DbPath ss)" using assms(2) by (auto simp: as_str_def split: if_splits)
  then show ?thesis using parse_as_str [OF \<open>wf_path (DbPath ss)\<close>] \<open>name = x\<close> q by simp
qed


section \<open>The effect of a call on the tree\<close>

text \<open>The path of the parent and the name, or the error that the call replies.\<close>

definition spec_child :: "Fs \<Rightarrow> u64 \<Rightarrow> bytes \<Rightarrow> Errno + string \<times> string" where
  "spec_child fs parent name =
     and_then (ok_or ENOENT (path_for_ino fs parent)) (\<lambda>pp.
     and_then (ok_or EINVAL (from_utf8 name)) (\<lambda>nm. Inr (pp, nm)))"

text \<open>The tree in which the value at a path is replaced by what \<open>f\<close> makes of it.\<close>

definition tree_update :: "(Value \<Rightarrow> Value option) \<Rightarrow> string \<Rightarrow> ns_tree \<Rightarrow> ns_tree option" where
  "tree_update f pp t =
     (case path_parse pp of
        Inl _ \<Rightarrow> None
      | Inr p \<Rightarrow> map_option (\<lambda>v. t(segments p \<mapsto> ValN v)) (Option.bind (tree_value t p) f))"

definition on_child :: "(DbPath \<Rightarrow> NsError + ns_tree) \<Rightarrow> string \<Rightarrow> Errno + ns_tree" where
  "on_child f child = and_then (map_err (\<lambda>_. EINVAL) (path_parse child)) (\<lambda>p. map_err (\<lambda>_. EIO) (f p))"

fun new_field :: "string \<Rightarrow> Value \<Rightarrow> Value option" where
  "new_field name (Hash m) = Some (Hash (bt_insert name (value_string []) m))"
| "new_field name _ = None"

text \<open>Writing the text \<open>data\<close> to a scalar or to a field of a hash; a missing field counts as an empty string.\<close>

fun new_text :: "bytes \<Rightarrow> Value \<Rightarrow> Errno + Value" where
  "new_text data (Scalar s) = map_sum (\<lambda>_. EINVAL) Scalar (parse_scalar_text s data)"
| "new_text data _ = Inl EPERM"

definition spec_flush :: "string \<Rightarrow> bytes \<Rightarrow> ns_tree \<Rightarrow> Errno + ns_tree" where
  "spec_flush path_str data t =
     and_then (map_err (\<lambda>_. EINVAL) (path_parse path_str)) (\<lambda>p.
       case t (segments p) of
         Some DirN \<Rightarrow> Inl EPERM
       | Some (ValN old) \<Rightarrow> and_then (new_text data old) (\<lambda>v. Inr (t(segments p \<mapsto> ValN v)))
       | None \<Rightarrow>
           (case Option.bind (path_parent p) (tree_value t) of
              Some (Hash m) \<Rightarrow>
                and_then (new_text data (case bt_get m (last_name p) of Some v \<Rightarrow> v | None \<Rightarrow> value_string [])) (\<lambda>v.
                  Inr (t(butlast (segments p) \<mapsto> ValN (Hash (bt_insert (last_name p) v m)))))
            | _ \<Rightarrow> Inl ENOENT))"

definition spec_commit :: "u64 \<Rightarrow> Fs \<Rightarrow> ns_tree \<Rightarrow> Errno + ns_tree" where
  "spec_commit ino fs t =
     (case dirty fs ino of
        None \<Rightarrow> Inr t
      | Some data \<Rightarrow> and_then (ok_or ENOENT (path_for_ino fs ino)) (\<lambda>ps. spec_flush ps data t))"

definition spec_unlink :: "(bytes \<Rightarrow> u64) \<Rightarrow> u64 \<Rightarrow> bytes \<Rightarrow> Fs \<Rightarrow> ns_tree \<Rightarrow> Errno + ns_tree" where
  "spec_unlink hash parent name fs t =
     and_then (spec_child fs parent name) (\<lambda>(pp, nm).
       case tree_update (\<lambda>v. project_unlink hash v nm) pp t of
         Some t' \<Rightarrow> Inr t'
       | None \<Rightarrow> on_child (\<lambda>p. spec_delete p t) (child_path pp nm))"

text \<open>\<open>None\<close> for the calls that only read.\<close>

fun fs_effect :: "(bytes \<Rightarrow> u64) \<Rightarrow> FsOp \<Rightarrow> Fs \<Rightarrow> ns_tree \<Rightarrow> (Errno + ns_tree) option" where
  "fs_effect hash (OpFlush ino) fs t = Some (spec_commit ino fs t)"
| "fs_effect hash (OpFsync ino) fs t = Some (spec_commit ino fs t)"
| "fs_effect hash (OpMkdir parent name) fs t =
     Some (and_then (spec_child fs parent name) (\<lambda>(pp, nm). on_child (\<lambda>p. spec_mkdir p t) (child_path pp nm)))"
| "fs_effect hash (OpUnlink parent name) fs t = Some (spec_unlink hash parent name fs t)"
| "fs_effect hash (OpRmdir parent name) fs t = Some (spec_unlink hash parent name fs t)"
| "fs_effect hash (OpCreate parent name) fs t =
     Some (and_then (spec_child fs parent name) (\<lambda>(pp, nm).
       case tree_update (new_field nm) pp t of
         Some t' \<Rightarrow> Inr t'
       | None \<Rightarrow> on_child (\<lambda>p. spec_set p (value_string []) t) (child_path pp nm)))"
| "fs_effect hash _ fs t = None"

text \<open>
  What a reply says of the tree: the prescribed effect or the prescribed error without an effect; a
  failure of the store may also be answered with \<open>EIO\<close>, with the effect or without it.
\<close>

definition fs_outcome :: "(Errno + ns_tree) option \<Rightarrow> ns_tree \<Rightarrow> Reply \<Rightarrow> ns_tree \<Rightarrow> bool" where
  "fs_outcome eff t reply t' \<longleftrightarrow>
     (case eff of
        None \<Rightarrow> t' = t
      | Some (Inl e) \<Rightarrow> reply = ReplyError e \<and> t' = t
      | Some (Inr t1) \<Rightarrow>
          reply = ReplyError EIO \<and> (t' = t \<or> t' = t1) \<or> (\<forall>e. reply \<noteq> ReplyError e) \<and> t' = t1)"

text \<open>
  What a call relies on: names are single path components and the paths of parents do not
  end in a slash (the kernel resolves paths and looks every parent up first), lengths stay
  within the codec's \<open>u32\<close> fields, and neither identifiers nor inodes run out.
\<close>

definition component_name :: "bytes \<Rightarrow> bool" where
  "component_name name \<longleftrightarrow>
     name \<noteq> [] \<and> name \<noteq> as_bytes ''.'' \<and> name \<noteq> as_bytes ''..'' \<and> byte_of_char slash \<notin> set name \<and> 0 \<notin> set name \<and> len_ok name"

definition plain_path :: "Fs \<Rightarrow> u64 \<Rightarrow> bool" where
  "plain_path fs ino \<longleftrightarrow> (\<forall>pp. path_for_ino fs ino = Some pp \<longrightarrow> pp = ''/'' \<or> last pp \<noteq> slash)"

definition hashes_fit :: "ns_tree \<Rightarrow> bool" where
  "hashes_fit t \<longleftrightarrow> (\<forall>p m. t p = Some (ValN (Hash m)) \<longrightarrow> Suc (length m) < 2 ^ 32)"

definition flush_ok :: "u64 \<Rightarrow> Fs \<Rightarrow> ns_tree \<Rightarrow> u64 \<Rightarrow> bool" where
  "flush_ok ino fs t n \<longleftrightarrow> unat n + 2 < 2 ^ 64 \<and> hashes_fit t
     \<and> (\<forall>data. dirty fs ino = Some data \<longrightarrow> len_ok data) \<and> (\<forall>ps. path_for_ino fs ino = Some ps \<longrightarrow> len_ok ps)"

fun call_ok :: "(bytes \<Rightarrow> u64) \<Rightarrow> FsOp \<Rightarrow> Fs \<Rightarrow> ns_tree \<Rightarrow> u64 \<Rightarrow> bool" where
  "call_ok hash (OpLookup parent name) fs t n \<longleftrightarrow> component_name name \<and> unat (next_ino fs) + 1 < 2 ^ 64"
| "call_ok hash (OpWrite ino offset data) fs t n \<longleftrightarrow> unat offset + length data < 2 ^ 64"
| "call_ok hash (OpFlush ino) fs t n \<longleftrightarrow> flush_ok ino fs t n"
| "call_ok hash (OpFsync ino) fs t n \<longleftrightarrow> flush_ok ino fs t n"
| "call_ok hash (OpReaddir ino offset) fs t n \<longleftrightarrow>
     (\<forall>ps path entry entries. path_for_ino fs ino = Some ps \<longrightarrow> path_parse ps = Inr path
        \<longrightarrow> dir_entries hash (hd_db (fs_db fs)) path entry = Some entries \<longrightarrow> unat (next_ino fs) + length entries < 2 ^ 64)"
| "call_ok hash (OpMkdir parent name) fs t n \<longleftrightarrow> unat n + 2 < 2 ^ 64 \<and> component_name name \<and> unat (next_ino fs) + 1 < 2 ^ 64"
| "call_ok hash (OpUnlink parent name) fs t n \<longleftrightarrow> unat n + 2 < 2 ^ 64 \<and> component_name name \<and> plain_path fs parent"
| "call_ok hash (OpRmdir parent name) fs t n \<longleftrightarrow> unat n + 2 < 2 ^ 64 \<and> component_name name \<and> plain_path fs parent"
| "call_ok hash (OpCreate parent name) fs t n \<longleftrightarrow>
     unat n + 2 < 2 ^ 64 \<and> component_name name \<and> plain_path fs parent \<and> unat (next_ino fs) + 1 < 2 ^ 64 \<and> hashes_fit t"
| "call_ok hash _ fs t n \<longleftrightarrow> True"


section \<open>Every call keeps its contract\<close>

definition answers :: "(Errno + ns_tree) option \<Rightarrow> ns_tree \<Rightarrow> Fs \<Rightarrow> Reply run \<times> Fs \<Rightarrow> bool" where
  "answers eff t fs res \<longleftrightarrow>
     (\<exists>reply fs' t' n'. res = (Returns reply, fs') \<and> good_fs t' n' fs' \<and> ino_to_path fs \<subseteq>\<^sub>m ino_to_path fs'
        \<and> fs_outcome eff t reply t')"

lemma answersI:
  "res = (Returns reply, fs') \<Longrightarrow> good_fs t' n' fs' \<Longrightarrow> ino_to_path fs \<subseteq>\<^sub>m ino_to_path fs' \<Longrightarrow> fs_outcome eff t reply t'
   \<Longrightarrow> answers eff t fs res"
  by (auto simp: answers_def)

lemma answers_read: "good_fs t n fs \<Longrightarrow> answers None t fs (Returns reply, fs)"
  by (rule answersI) (auto simp: fs_outcome_def)

lemma answers_error: "good_fs t n fs \<Longrightarrow> answers (Some (Inl e)) t fs (fail e fs)"
  by (rule answersI) (auto simp: fs_outcome_def)

lemma fields_put [simp]:
  "ino_to_path (put_db d fs) = ino_to_path fs" "next_ino (put_db d fs) = next_ino fs" "dirty (put_db d fs) = dirty fs"
  "hd_db (fs_db (put_db d fs)) = d"
  by (simp_all add: put_db_def)

lemma give_entry_good:
  assumes "good_fs t n fs" "utf8_string path" "path \<noteq> []" "unat (next_ino fs) + 1 < 2 ^ 64"
  shows "\<exists>a fs'. give_entry reply attr path fs = (Returns (reply a), fs') \<and> good_fs t n fs'
    \<and> ino_to_path fs \<subseteq>\<^sub>m ino_to_path fs'"
proof -
  obtain ino fs' where get: "ino_for_path path fs = (ino, fs')" by fastforce
  note g = ino_for_path_grown [OF good_fs_state(1) [OF assms(1)] assms(2-4) get]
  have "good_fs t n fs'" by (rule good_fs_grown [OF assms(1) g(1,3)])
  moreover have "ino_to_path fs \<subseteq>\<^sub>m ino_to_path fs'" using g(1) by (simp add: grown_def)
  ultimately show ?thesis using get by (auto simp: give_entry_def)
qed

lemma answers_entry:
  assumes "good_fs t' n fs1" "ino_to_path fs1 = ino_to_path fs" "utf8_string path" "path \<noteq> []" "unat (next_ino fs1) + 1 < 2 ^ 64"
    and "\<And>a. fs_outcome eff t (reply a) t'"
  shows "answers eff t fs (give_entry reply attr path fs1)"
proof -
  obtain a fs' where "give_entry reply attr path fs1 = (Returns (reply a), fs')" "good_fs t' n fs'" "ino_to_path fs1 \<subseteq>\<^sub>m ino_to_path fs'"
    using give_entry_good [OF assms(1,3-5)] by blast
  then show ?thesis using assms(2,6) by (intro answersI [of _ "reply a" fs' t' n]) simp_all
qed

lemma at_child_answers:
  assumes "good_fs t n fs"
    and "\<And>pp nm. path_for_ino fs parent = Some pp \<Longrightarrow> from_utf8 name = Some nm \<Longrightarrow> answers (Some (f (pp, nm))) t fs (k pp nm)"
  shows "answers (Some (and_then (spec_child fs parent name) f)) t fs (at_child parent name fs k)"
proof (cases "path_for_ino fs parent")
  case None
  then show ?thesis using answers_error [OF assms(1)] by (simp add: at_child_def spec_child_def)
next
  case (Some pp)
  then show ?thesis using answers_error [OF assms(1)] assms(2)
    by (cases "from_utf8 name") (simp_all add: at_child_def spec_child_def)
qed

lemma n_bounds: "unat (n :: u64) + 2 < 2 ^ 64 \<Longrightarrow> n \<noteq> - 1 \<and> n + 1 \<noteq> - 1"
proof -
  assume a: "unat n + 2 < 2 ^ 64"
  then have n: "n \<noteq> - 1" using unat_minus_1 by auto
  then have "unat (n + 1) \<noteq> unat (- 1 :: u64)" using a unat_succ [OF n] unat_minus_1 by simp
  then show ?thesis using n by metis
qed

lemma set_good:
  assumes "good_fs t n fs" "n \<noteq> - 1" "path_ok (segments path)" "wf_value v"
    and "db_set wal_storage path v (hd_db (fs_db fs)) = (r, d)"
  shows "\<exists>t' n'. good_fs t' n' (put_db d fs) \<and> n' \<in> {n, n + 1} \<and> outcome (spec_set path v t) t r t'"
  using wal.set_tree [OF good_fs_state(3,4) [OF assms(1)] assms(2-5)] good_fs_put [OF assms(1)] by blast

lemma set_existing:
  assumes "good_fs t n fs" "n \<noteq> - 1" "tree_value t path = Some old" "wf_value v" "canonical v"
    and "db_set wal_storage path v (hd_db (fs_db fs)) = (r, d)"
  shows "\<exists>t' n'. good_fs t' n' (put_db d fs) \<and> n' \<in> {n, n + 1}
    \<and> (if is_ok r then t' = t(segments path \<mapsto> ValN v) else t' = t \<or> t' = t(segments path \<mapsto> ValN v))"
proof -
  note st = good_fs_state(4) [OF assms(1)]
  have t: "t (segments path) = Some (ValN old)" using assms(3) by (auto simp: tree_value_def split: option.splits ns_node.splits)
  have p: "path_ok (segments path)" "\<not> is_root path" using tree_value_ok [OF st assms(3)] by simp_all
  have "t (butlast (segments path)) = Some DirN" using stores_tree(3) [OF st] t nonroot_path [OF p(2)] by metis
  then have "spec_set path v t = Inr (t(segments path \<mapsto> ValN v))"
    using t p(2) canon_id [OF assms(5)] by (simp add: spec_set_def spec_parent_def)
  then show ?thesis using set_good [OF assms(1,2) p(1) assms(4,6)] by (cases r) (auto simp: outcome_def)
qed


lemma mkdir_good:
  assumes "good_fs t n fs" "n \<noteq> - 1" "path_ok (segments path)" and "mkdir wal_storage path (hd_db (fs_db fs)) = (r, d)"
  shows "\<exists>t' n'. good_fs t' n' (put_db d fs) \<and> n' \<in> {n, n + 1} \<and> outcome (spec_mkdir path t) t r t'"
  using wal.mkdir_tree [OF good_fs_state(3,4) [OF assms(1)] assms(2-4)] good_fs_put [OF assms(1)] by blast

lemma delete_good:
  assumes "good_fs t n fs" and "db_delete wal_storage path (hd_db (fs_db fs)) = (r, d)"
  shows "\<exists>t' n'. good_fs t' n' (put_db d fs) \<and> n' \<in> {n, n + 1} \<and> outcome (spec_delete path t) t r t'"
  using wal.delete_tree [OF good_fs_state(3,4) [OF assms(1)] assms(2)] good_fs_put [OF assms(1)] by blast

lemma answers_failed:
  assumes "good_fs t' n' (put_db d fs)" "outcome spec t (Inl e) t'"
  shows "answers (Some (map_err (\<lambda>_. EIO) spec)) t fs (fail EIO (put_db d fs))"
  using assms by (cases spec; intro answersI [of _ "ReplyError EIO" "put_db d fs" t' n']) (auto simp: fs_outcome_def outcome_def)

lemma fs_outcome_done: "fs_outcome (Some (Inr t1)) t reply t1 \<longleftrightarrow> (\<forall>e. e \<noteq> EIO \<longrightarrow> reply \<noteq> ReplyError e)"
  by (auto simp: fs_outcome_def)

lemma child_utf8:
  assumes "good_fs t n fs" "path_for_ino fs parent = Some pp" "from_utf8 name = Some nm"
  shows "utf8_string (child_path pp nm)" "utf8_string nm" "pp \<noteq> []"
  using assms inodes_okD(3,4) [OF good_fs_state(1) [OF assms(1)]]
  by (auto simp: path_for_ino_def from_utf8_Some_iff intro: utf8_child_path)

lemma mkdir_answers:
  assumes g: "good_fs t n fs" and ok: "call_ok hash (OpMkdir parent name) fs t n"
  shows "answers (fs_effect hash (OpMkdir parent name) fs t) t fs (fuse_mkdir parent name fs)"
  unfolding fs_effect.simps fuse_mkdir_def Let_def good_fs_locked [OF g]
proof (rule at_child_answers [OF g], goal_cases)
  case (1 pp nm)
  note u = child_utf8(1) [OF g 1]
  show ?case
  proof (cases "path_parse (child_path pp nm)")
    case (Inl e)
    then show ?thesis using answers_error [OF g] by (simp add: on_child_def)
  next
    case (Inr p)
    obtain r d where run: "mkdir wal_storage p (hd_db (fs_db fs)) = (r, d)" by fastforce
    have "n \<noteq> - 1" using ok n_bounds by simp
    then obtain t' n' where o: "good_fs t' n' (put_db d fs)" "outcome (spec_mkdir p t) t r t'"
      using mkdir_good [OF g _ path_ok_parse [OF Inr u] run] by blast
    show ?thesis
    proof (cases r)
      case (Inl e)
      then show ?thesis using Inr run answers_failed [OF o(1)] o(2) by (simp add: on_child_def)
    next
      case r: (Inr u')
      have "answers (Some (Inr t')) t fs (give_entry ReplyEntry (attr_for Directory None) (child_path pp nm) (put_db d fs))"
        using ok u by (intro answers_entry [OF o(1)]) (simp_all add: fs_outcome_done)
      then show ?thesis using Inr r run o(2) by (simp add: on_child_def)
    qed
  qed
qed

lemma delete_child_answers:
  assumes "good_fs t n fs1" "fs1 = put_db d fs" "utf8_string child"
  shows "answers (Some (on_child (\<lambda>p. spec_delete p t) child)) t fs (delete_child child d fs)"
proof (cases "path_parse child")
  case (Inl e)
  then show ?thesis using assms(1,2)
    by (intro answersI [of _ "ReplyError EINVAL" fs1 t n]) (simp_all add: on_child_def delete_child_def fs_outcome_def)
next
  case (Inr p)
  obtain r d' where run: "db_delete wal_storage p d = (r, d')" by fastforce
  obtain t' n' where o: "good_fs t' n' (put_db d' fs1)" "outcome (spec_delete p t) t r t'"
    using delete_good [OF assms(1), of p r d'] run assms(2) by auto
  have put: "put_db d' fs1 = put_db d' fs" by (simp add: assms(2) put_db_def)
  show ?thesis
  proof (cases r)
    case (Inl e)
    then show ?thesis using Inr run answers_failed [OF o(1) [unfolded put]] o(2) by (simp add: on_child_def delete_child_def)
  next
    case r: (Inr u)
    then show ?thesis using Inr run o put
      by (intro answersI [of _ ReplyOk "put_db d' fs" t' n']) (simp_all add: on_child_def delete_child_def fs_outcome_done)
  qed
qed


lemma plain_child:
  assumes "path_parse pp = Inr p" "pp = ''/'' \<or> last pp \<noteq> slash" "component_name (as_bytes nm)"
  shows "path_parse (child_path pp nm) = Inr (DbPath (segments p @ [nm]))"
proof -
  obtain k where wf: "wf_path p" and k: "pp = as_str p @ replicate k slash" using parse_Inr [OF assms(1)] by blast
  have "k = 0 \<or> pp = ''/''"
    using k assms(2) by (metis append_is_Nil_conv last_append last_replicate replicate_empty)
  then have pp: "pp = as_str p" using k by (cases k; cases "as_str p") (auto simp: as_str_def split: if_splits)
  have "slash \<notin> set nm" using assms(3) by (auto simp: component_name_def as_bytes_def)
  moreover have "CHR 0x00 \<notin> set nm" using assms(3) by (simp add: component_name_def zero_in_as_bytes)
  moreover have "nm \<notin> {[], ''.'', ''..''}" using assms(3) by (auto simp: component_name_def)
  ultimately have "wf_segment nm" by (simp add: wf_segment_def)
  then have "wf_path (DbPath (segments p @ [nm]))" using wf by (simp add: wf_path_def)
  moreover have "child_path pp nm = as_str (DbPath (segments p @ [nm]))"
    using join_with_eq_Nil [of "segments p" "''/''"] wf
    by (auto simp: child_path_def pp as_str_def join_with_snoc wf_path_def wf_segment_def)
  ultimately show ?thesis using parse_as_str by simp
qed


lemma below_value:
  assumes "good_fs t n fs" "tree_value t p = Some v" and child: "path_parse child = Inr (DbPath (segments p @ [nm]))"
  shows "on_child (\<lambda>q. spec_delete q t) child = Inl EIO \<and> on_child (\<lambda>q. spec_set q v' t) child = Inl EIO"
proof -
  have p: "t (segments p) = Some (ValN v)" using assms(2) by (auto simp: tree_value_def split: option.splits ns_node.splits)
  then have "t (segments p @ [nm]) = None" using stores_tree(4) [OF good_fs_state(4) [OF assms(1)] p, of "[]"] by simp
  then show ?thesis using p child
    by (simp add: on_child_def spec_delete_def spec_get_def spec_set_def spec_parent_def is_root_def)
qed

lemma tree_value_upd: "tree_value (t(segments p \<mapsto> ValN v)) p = Some v"
  by (simp add: tree_value_def)

text \<open>
  Replacing the value at a parent, and going on to \<open>after\<close> when that fails: \<open>after\<close> then answers \<open>EIO\<close>,
  because nothing is stored below a value.
\<close>

lemma update_answers:
  assumes g: "good_fs t n fs" "n \<noteq> - 1" and p: "path_parse pp = Inr p" and old: "tree_value t p = Some old"
    and v: "wf_value v" "canonical v"
    and ok: "\<And>d n'. good_fs (t(segments p \<mapsto> ValN v)) n' (put_db d fs)
      \<Longrightarrow> answers (Some (Inr (t(segments p \<mapsto> ValN v)))) t fs (finish d)"
    and bad: "\<And>d t' n'. good_fs t' n' (put_db d fs) \<Longrightarrow> n' \<in> {n, n + 1} \<Longrightarrow> tree_value t' p \<noteq> None
      \<Longrightarrow> answers (Some (Inl EIO)) t' fs (after d)"
  shows "answers (Some (Inr (t(segments p \<mapsto> ValN v)))) t fs
    (case db_set wal_storage p v (hd_db (fs_db fs)) of (Inr _, d) \<Rightarrow> finish d | (Inl _, d) \<Rightarrow> after d)"
proof -
  obtain r d where run: "db_set wal_storage p v (hd_db (fs_db fs)) = (r, d)" by fastforce
  obtain t' n' where o: "good_fs t' n' (put_db d fs)" "n' \<in> {n, n + 1}"
      "if is_ok r then t' = t(segments p \<mapsto> ValN v) else t' = t \<or> t' = t(segments p \<mapsto> ValN v)"
    using set_existing [OF g old v run] by blast
  show ?thesis
  proof (cases r)
    case (Inr u)
    then show ?thesis using o ok run by simp
  next
    case (Inl e)
    then have t': "t' = t \<or> t' = t(segments p \<mapsto> ValN v)" using o(3) by simp
    then have "tree_value t' p \<noteq> None" using old tree_value_upd by auto
    then obtain reply fs' t'' n'' where a: "after d = (Returns reply, fs')" "good_fs t'' n'' fs'"
        "ino_to_path fs \<subseteq>\<^sub>m ino_to_path fs'" "fs_outcome (Some (Inl EIO)) t' reply t''"
      using bad [OF o(1,2)] by (auto simp: answers_def)
    then show ?thesis using Inl run t' by (intro answersI [of _ reply fs' t'' n'']) (auto simp: fs_outcome_def)
  qed
qed


lemma unlink_answers:
  assumes g: "good_fs t n fs" and n: "unat n + 2 < 2 ^ 64" and nm: "component_name name" and pl: "plain_path fs parent"
  shows "answers (Some (spec_unlink hash parent name fs t)) t fs (fuse_unlink hash parent name fs)"
  unfolding spec_unlink_def fuse_unlink_def Let_def good_fs_locked [OF g] value_of_tree [OF g]
proof (rule at_child_answers [OF g], goal_cases)
  case (1 pp nm)
  note u = child_utf8 [OF g 1]
  have put: "fs = put_db (hd_db (fs_db fs)) fs" by (simp add: put_db_def)
  note del = delete_child_answers [OF _ _ u(1)]
  show ?case
  proof (cases "path_parse pp")
    case (Inl e)
    then show ?thesis using del [OF g put] by (simp add: tree_update_def)
  next
    case p: (Inr p)
    have child: "path_parse (child_path pp nm) = Inr (DbPath (segments p @ [nm]))"
      using plain_child [OF p] 1 pl nm by (simp add: plain_path_def from_utf8_Some_iff)
    show ?thesis
    proof (cases "Option.bind (tree_value t p) (\<lambda>val. project_unlink hash val nm)")
      case None
      then show ?thesis using del [OF g put] p by (simp add: tree_update_def)
    next
      case (Some v)
      then obtain old where old: "tree_value t p = Some old" "project_unlink hash old nm = Some v" by (auto split: bind_splits)
      have wf: "wf_value v" "canonical v"
        using project_unlink_ok [OF _ _ old(2)] tree_value_ok [OF good_fs_state(4) [OF g] old(1)] by simp_all
      have "answers (Some (Inr (t(segments p \<mapsto> ValN v)))) t fs
        (case db_set wal_storage p v (hd_db (fs_db fs)) of
           (Inr _, d) \<Rightarrow> (Returns ReplyOk, put_db d fs) | (Inl _, d) \<Rightarrow> delete_child (child_path pp nm) d fs)"
      proof (rule update_answers [OF g _ p old(1) wf], goal_cases)
        case 1
        then show ?case using n n_bounds by simp
      next
        case (2 d n')
        then show ?case by (intro answersI [of _ ReplyOk "put_db d fs" "t(segments p \<mapsto> ValN v)" n']) (simp_all add: fs_outcome_done)
      next
        case (3 d t' n')
        then show ?case using del [OF 3(1) refl] below_value [OF 3(1) _ child] by auto
      qed
      then show ?thesis using p Some by (simp add: tree_update_def case_prod_beta' cong: sum.case_cong prod.case_cong)
    qed
  qed
qed


lemma create_value_answers:
  assumes g: "good_fs t n fs1" "n \<noteq> - 1" "fs1 = put_db d fs" and u: "utf8_string child" "child \<noteq> []"
    and room: "unat (next_ino fs) + 1 < 2 ^ 64"
  shows "answers (Some (on_child (\<lambda>p. spec_set p (value_string []) t) child)) t fs (create_value child d fs)"
proof (cases "path_parse child")
  case (Inl e)
  then show ?thesis using g
    by (intro answersI [of _ "ReplyError EINVAL" fs1 t n]) (simp_all add: on_child_def create_value_def fs_outcome_def)
next
  case (Inr p)
  obtain r d' where run: "db_set wal_storage p (value_string []) d = (r, d')" by fastforce
  have "wf_value (value_string [])" by (simp add: value_ctor_defs len_ok_def utf8_string_ascii)
  then obtain t' n' where o: "good_fs t' n' (put_db d' fs1)" "outcome (spec_set p (value_string []) t) t r t'"
    using set_good [OF g(1,2) path_ok_parse [OF Inr u(1)], of "value_string []" r d'] run g(3) by auto
  have put: "put_db d' fs1 = put_db d' fs" by (simp add: g(3) put_db_def)
  show ?thesis
  proof (cases r)
    case (Inl e)
    then show ?thesis using Inr run answers_failed [OF o(1) [unfolded put]] o(2) by (simp add: on_child_def create_value_def)
  next
    case r: (Inr u')
    have "answers (Some (Inr t')) t fs (give_entry ReplyCreated (attr_for EntryValue (Some (value_string []))) child (put_db d' fs))"
      using room u by (intro answers_entry [OF o(1) [unfolded put]]) (simp_all add: fs_outcome_done)
    then show ?thesis using Inr r run o(2) by (simp add: on_child_def create_value_def)
  qed
qed

lemma hash_insert_ok:
  assumes "wf_value (Hash m)" "canonical (Hash m)" "utf8_string k" "len_ok k" "wf_value v" "canonical v" "Suc (length m) < 2 ^ 32"
  shows "wf_value (Hash (bt_insert k v m)) \<and> canonical (Hash (bt_insert k v m))"
proof -
  have "len_ok (bt_insert k v m)" using length_bt_insert [of k v m] assms(7) by (simp add: len_ok_def)
  moreover have "set (bt_insert k v m) \<subseteq> insert (k, v) (set m)" by (rule set_bt_insert)
  ultimately show ?thesis using assms by (fastforce simp: bt_sorted_insert)
qed

lemma create_answers:
  assumes g: "good_fs t n fs" and ok: "call_ok hash (OpCreate parent name) fs t n"
  shows "answers (fs_effect hash (OpCreate parent name) fs t) t fs (fuse_create parent name fs)"
  unfolding fs_effect.simps fuse_create_def Let_def good_fs_locked [OF g] value_of_tree [OF g]
proof (rule at_child_answers [OF g], goal_cases)
  case (1 pp nm)
  note u = child_utf8 [OF g 1]
  have put: "fs = put_db (hd_db (fs_db fs)) fs" by (simp add: put_db_def)
  have n: "n \<noteq> - 1" "n + 1 \<noteq> - 1" using ok n_bounds by simp_all
  have room: "unat (next_ino fs) + 1 < 2 ^ 64" using ok by simp
  note cre = create_value_answers [OF _ _ _ u(1) child_path_ne room]
  let ?new = "attr_for EntryValue (Some (value_string []))"
  show ?case
  proof (cases "path_parse pp")
    case (Inl e)
    then show ?thesis using cre [OF g n(1) put] by (simp add: tree_update_def)
  next
    case p: (Inr p)
    have child: "path_parse (child_path pp nm) = Inr (DbPath (segments p @ [nm]))"
      using plain_child [OF p] 1 ok by (simp add: plain_path_def from_utf8_Some_iff)
    show ?thesis
    proof (cases "\<exists>m. tree_value t p = Some (Hash m)")
      case False
      then show ?thesis using cre [OF g n(1) put] p
        by (cases "tree_value t p"; cases "the (tree_value t p)") (auto simp: tree_update_def)
    next
      case True
      then obtain m where m: "tree_value t p = Some (Hash m)" by blast
      then have "t (segments p) = Some (ValN (Hash m))" by (auto simp: tree_value_def split: option.splits ns_node.splits)
      then have fit: "Suc (length m) < 2 ^ 32" using ok by (simp add: hashes_fit_def)
      have wfm: "wf_value (Hash m)" "canonical (Hash m)" using tree_value_ok [OF good_fs_state(4) [OF g] m] by simp_all
      have "len_ok nm" using ok 1(2) by (simp add: component_name_def from_utf8_Some_iff len_ok_def)
      then have wf: "wf_value (Hash (bt_insert nm (value_string []) m))" "canonical (Hash (bt_insert nm (value_string []) m))"
        using hash_insert_ok [OF wfm u(2) _ _ _ fit, of "value_string []"] by (simp_all add: value_ctor_defs len_ok_def utf8_string_ascii)
      let ?v = "Hash (bt_insert nm (value_string []) m)"
      have "answers (Some (Inr (t(segments p \<mapsto> ValN ?v)))) t fs
        (case db_set wal_storage p ?v (hd_db (fs_db fs)) of
           (Inr _, d) \<Rightarrow> give_entry ReplyCreated ?new (child_path pp nm) (put_db d fs) | (Inl _, d) \<Rightarrow> create_value (child_path pp nm) d fs)"
      proof (rule update_answers [OF g n(1) p m wf], goal_cases)
        case (1 d n')
        then show ?case using room u(1) by (intro answers_entry [OF 1]) (simp_all add: fs_outcome_done)
      next
        case (2 d t' n')
        then have "n' \<noteq> - 1" using n by auto
        then show ?case using cre [OF 2(1) _ refl] below_value [OF 2(1) _ child] 2(3) by auto
      qed
      then show ?thesis using p m by (simp add: tree_update_def case_prod_beta' cong: sum.case_cong prod.case_cong)
    qed
  qed
qed


lemma parse_scalar_text_ok:
  assumes "parse_scalar_text old data = Inr s" "len_ok data"
  shows "wf_scalar s \<and> typename (Scalar s) = typename (Scalar old)"
  using assms by (cases old) (auto simp: and_then_Inr_iff from_utf8_Some_iff len_ok_def from_f64_def ok_or_def split: if_splits option.splits)

lemma new_text_ok:
  assumes "new_text data old = Inr v" "len_ok data"
  shows "wf_value v \<and> canonical v \<and> typename v = typename old"
  using assms parse_scalar_text_ok by (cases old) (auto simp: map_sum_Inr_iff)

lemma commit_value_answers:
  assumes g: "good_fs t n fs0" "n \<noteq> - 1" "tree_value t p = Some old" "wf_value v" "canonical v"
    and "ino_to_path fs0 = ino_to_path fs" "p' = segments p"
  shows "answers (Some (Inr (t(p' \<mapsto> ValN v)))) t fs (empty_reply (commit_value p v (hd_db (fs_db fs0)) fs0))"
proof -
  obtain r d where run: "db_set wal_storage p v (hd_db (fs_db fs0)) = (r, d)" by fastforce
  obtain t' n' where o: "good_fs t' n' (put_db d fs0)"
      "if is_ok r then t' = t(segments p \<mapsto> ValN v) else t' = t \<or> t' = t(segments p \<mapsto> ValN v)"
    using set_existing [OF g run] by blast
  show ?thesis using o run assms(6,7)
    by (cases r; intro answersI [of _ "if is_ok r then ReplyOk else ReplyError EIO" "put_db d fs0" t' n'])
      (auto simp: commit_value_def empty_reply_def fs_outcome_def)
qed


lemma empty_reply_error: "empty_reply (Returns (Inl e), fs) = fail e fs"
  by (simp add: empty_reply_def)

lemma good_fs_dirty [simp]: "good_fs t n (fs\<lparr>dirty := d\<rparr>) = good_fs t n fs"
  by (simp add: good_fs_def)

lemma answers_dirty_error: "good_fs t n fs \<Longrightarrow> answers (Some (Inl e)) t fs (fail e (fs\<lparr>dirty := d\<rparr>))"
  by (rule answersI [of _ "ReplyError e" "fs\<lparr>dirty := d\<rparr>" t n]) (simp_all add: fs_outcome_def)

lemma commit_dirty_tree:
  assumes g: "good_fs t n fs" and data: "dirty fs ino = Some data" and ps: "path_for_ino fs ino = Some ps"
    and fs0: "fs0 = fs\<lparr>dirty := (dirty fs)(ino := None)\<rparr>"
  shows "commit_dirty ino fs = (case path_parse ps of
      Inl _ \<Rightarrow> (Returns (Inl EINVAL), fs0)
    | Inr path \<Rightarrow>
        (case t (segments path) of
           Some DirN \<Rightarrow> (Returns (Inl EPERM), fs0)
         | Some (ValN old) \<Rightarrow>
             (case new_text data old of Inl e \<Rightarrow> (Returns (Inl e), fs0) | Inr v \<Rightarrow> commit_value path v (hd_db (fs_db fs0)) fs0)
         | None \<Rightarrow>
             (case path_parent path of
                None \<Rightarrow> (Returns (Inl ENOENT), fs0)
              | Some parent \<Rightarrow>
                  (case tree_value t parent of
                     Some (Hash m) \<Rightarrow>
                       (case new_text data (case bt_get m (last_name path) of Some v \<Rightarrow> v | None \<Rightarrow> value_string []) of
                          Inl e \<Rightarrow> (Returns (Inl e), fs0)
                        | Inr v \<Rightarrow> commit_value parent (Hash (bt_insert (last_name path) v m)) (hd_db (fs_db fs0)) fs0)
                   | _ \<Rightarrow> (Returns (Inl ENOENT), fs0)))))"
proof (cases "path_parse ps")
  case (Inl e)
  then show ?thesis using assms by (simp add: commit_dirty_def good_fs_locked path_for_ino_def)
next
  case (Inr p)
  have g0: "good_fs t n fs0" using g by (simp add: fs0)
  have ps0: "path_for_ino fs0 ino = Some ps" using ps by (simp add: fs0 path_for_ino_def)
  show ?thesis
    unfolding commit_dirty_def data option.case Let_def fs0 [symmetric] ps0 good_fs_locked [OF g0] Inr sum.case
      db_get_good [OF g0] value_of_tree [OF g0]
    by (auto simp: spec_entry_def split: option.splits ns_node.splits Value.splits sum.splits)
qed

lemma last_name_ok:
  assumes "path_parse ps = Inr p" "segments p \<noteq> []" "utf8_string ps" "len_ok ps"
  shows "utf8_string (last_name p) \<and> len_ok (last_name p)"
proof -
  obtain k where wf: "wf_path p" and ps: "ps = as_str p @ replicate k slash" using parse_Inr [OF assms(1)] by blast
  obtain ss x where x: "segments p = ss @ [x]" using assms(2) by (metis rev_exhaust)
  then have p: "p = DbPath (ss @ [x])" by (cases p) simp
  have "length x \<le> length ps" by (simp add: ps p as_str_snoc)
  moreover have "utf8_string x" using path_ok_parse [OF assms(1,3)] x by (simp add: path_ok_def utf8_path_def)
  ultimately show ?thesis using assms(4) x by (simp add: last_name_def path_name_def len_ok_def)
qed

text \<open>What every flush of a written file starts from: the buffer is taken, the rest is as before.\<close>

lemma flush_setup:
  assumes "good_fs t n fs" "flush_ok ino fs t n" "dirty fs ino = Some data" "fs0 = fs\<lparr>dirty := (dirty fs)(ino := None)\<rparr>"
  shows "good_fs t n fs0" "ino_to_path fs0 = ino_to_path fs" "path_for_ino fs0 = path_for_ino fs"
    "answers (Some (Inl e)) t fs (fail e fs0)" "n \<noteq> - 1" "hashes_fit t" "len_ok data"
proof -
  show "answers (Some (Inl e)) t fs (fail e fs0)" unfolding assms(4) by (rule answers_dirty_error [OF assms(1)])
  show "n \<noteq> - 1" "hashes_fit t" "len_ok data" using assms(2,3) n_bounds by (simp_all add: flush_ok_def)
qed (use assms in \<open>simp_all add: path_for_ino_def fun_eq_iff\<close>)

lemma flush_existing:
  assumes g: "good_fs t n fs" and ok: "flush_ok ino fs t n" and d: "dirty fs ino = Some data"
    and ps: "path_for_ino fs ino = Some ps" and p: "path_parse ps = Inr p" and nd: "t (segments p) = Some nd"
  shows "answers (Some (spec_commit ino fs t)) t fs (empty_reply (commit_dirty ino fs))"
proof -
  define fs0 where "fs0 = fs\<lparr>dirty := (dirty fs)(ino := None)\<rparr>"
  note start = flush_setup [OF g ok d fs0_def]
  note simps = d ps p nd spec_commit_def spec_flush_def empty_reply_error start(4) commit_dirty_tree [OF g d ps fs0_def]
  show ?thesis
  proof (cases nd)
    case (ValN old)
    then have old: "tree_value t p = Some old" using nd by (simp add: tree_value_def)
    show ?thesis
    proof (cases "new_text data old")
      case (Inr v)
      then show ?thesis
        using ValN commit_value_answers [OF start(1,5) old _ _ start(2) refl, of v] new_text_ok [OF Inr start(7)] by (simp add: simps)
    qed (use ValN in \<open>simp add: simps\<close>)
  qed (simp add: simps)
qed

text \<open>A file that is not a node is a field of the hash above it, or nothing.\<close>

lemma flush_field:
  assumes g: "good_fs t n fs" and ok: "flush_ok ino fs t n" and d: "dirty fs ino = Some data"
    and ps: "path_for_ino fs ino = Some ps" and p: "path_parse ps = Inr p" and none: "t (segments p) = None"
    and par: "path_parent p = Some parent" and m: "tree_value t parent = Some (Hash m)"
  shows "answers (Some (spec_commit ino fs t)) t fs (empty_reply (commit_dirty ino fs))"
proof -
  define fs0 where "fs0 = fs\<lparr>dirty := (dirty fs)(ino := None)\<rparr>"
  note start = flush_setup [OF g ok d fs0_def]
  note simps = d ps p none par m spec_commit_def spec_flush_def empty_reply_error start(4) commit_dirty_tree [OF g d ps fs0_def]
  have seg: "segments parent = butlast (segments p)" "segments p \<noteq> []"
    using par by (auto simp: path_parent_def split: if_splits)
  have "utf8_string ps" "len_ok ps" using ps ok inodes_okD(3) [OF good_fs_state(1) [OF g]]
    by (simp_all add: path_for_ino_def flush_ok_def)
  then have name: "utf8_string (last_name p)" "len_ok (last_name p)" using last_name_ok [OF p seg(2)] by simp_all
  have "t (segments parent) = Some (ValN (Hash m))" using m by (auto simp: tree_value_def split: option.splits ns_node.splits)
  then have room: "Suc (length m) < 2 ^ 32" using start(6) by (simp add: hashes_fit_def)
  show ?thesis
  proof (cases "new_text data (case bt_get m (last_name p) of Some v \<Rightarrow> v | None \<Rightarrow> value_string [])")
    case (Inl e)
    then show ?thesis by (simp add: simps)
  next
    case (Inr v)
    have "wf_value (Hash (bt_insert (last_name p) v m)) \<and> canonical (Hash (bt_insert (last_name p) v m))"
      using hash_insert_ok [OF _ _ name] new_text_ok [OF Inr start(7)] tree_value_ok [OF good_fs_state(4) [OF g] m] room by blast
    then show ?thesis using Inr commit_value_answers [OF start(1,5) m _ _ start(2) seg(1) [symmetric]] by (simp add: simps)
  qed
qed

lemma flush_answers:
  assumes g: "good_fs t n fs" and ok: "flush_ok ino fs t n"
  shows "answers (Some (spec_commit ino fs t)) t fs (empty_reply (commit_dirty ino fs))"
proof (cases "dirty fs ino")
  case None
  then show ?thesis using g
    by (intro answersI [of _ ReplyOk fs t n]) (simp_all add: commit_dirty_def empty_reply_def spec_commit_def fs_outcome_done)
next
  case d: (Some data)
  define fs0 where "fs0 = fs\<lparr>dirty := (dirty fs)(ino := None)\<rparr>"
  note start = flush_setup [OF g ok d fs0_def]
  show ?thesis
  proof (cases "path_for_ino fs ino")
    case None
    then show ?thesis using d start(3,4) by (simp add: commit_dirty_def spec_commit_def empty_reply_error fs0_def [symmetric])
  next
    case ps: (Some ps)
    note simps = d ps spec_commit_def spec_flush_def empty_reply_error start(4) commit_dirty_tree [OF g d ps fs0_def]
    show ?thesis
    proof (cases "path_parse ps")
      case p: (Inr p)
      show ?thesis
      proof (cases "t (segments p) \<noteq> None \<or> (\<exists>parent m. path_parent p = Some parent \<and> tree_value t parent = Some (Hash m))")
        case True
        then show ?thesis using flush_existing [OF g ok d ps p] flush_field [OF g ok d ps p] by blast
      next
        case False
        then show ?thesis using p
          by (cases "path_parent p"; cases "tree_value t (the (path_parent p))"; cases "the (tree_value t (the (path_parent p)))")
            (auto simp: simps)
      qed
    qed (simp add: simps)
  qed
qed

section \<open>Reads\<close>

lemma lookup_answers:
  assumes g: "good_fs t n fs" and ok: "call_ok hash (OpLookup parent name) fs t n"
  shows "answers None t fs (fuse_lookup hash parent name fs)"
proof (cases "path_for_ino fs parent")
  case (Some pp)
  show ?thesis
  proof (cases "from_utf8 name")
    case nm: (Some nm)
    have e: "answers None t fs (give_entry ReplyEntry attr (child_path pp nm) fs)" for attr
      using ok child_utf8(1) [OF g Some nm] by (intro answers_entry [OF g]) (simp_all add: fs_outcome_def)
    show ?thesis using Some nm e answers_read [OF g]
      by (auto simp: fuse_lookup_def at_child_def good_fs_locked [OF g] Let_def split: sum.split option.split)
  qed (use Some answers_read [OF g] in \<open>simp add: fuse_lookup_def at_child_def\<close>)
qed (use answers_read [OF g] in \<open>simp add: fuse_lookup_def at_child_def\<close>)

lemma getattr_answers: "good_fs t n fs \<Longrightarrow> answers None t fs (fuse_getattr hash ino fs)"
  by (auto simp: fuse_getattr_def good_fs_locked answers_read split: option.split sum.split)

lemma read_answers: "good_fs t n fs \<Longrightarrow> answers None t fs (fuse_read hash ino offset len fs)"
  by (auto simp: fuse_read_def good_fs_locked answers_read split: option.split sum.split Value.split)

lemma getxattr_answers: "good_fs t n fs \<Longrightarrow> answers None t fs (fuse_getxattr hash ino name len fs)"
  by (auto simp: fuse_getxattr_def good_fs_locked answers_read Let_def split: option.split sum.split)

lemma write_answers:
  assumes "good_fs t n fs" "unat offset + length data < 2 ^ 64"
  shows "answers None t fs (fuse_write ino offset data fs)"
  using assms by (simp add: fuse_write_def Let_def, intro answersI [OF refl]) (simp_all add: fs_outcome_def)


lemma those_Some:
  assumes "\<And>x. x \<in> set xs \<Longrightarrow> f x = Some (g x)"
  shows "those (map f xs) = Some (map g xs)"
  using assms by (induction xs) auto

lemma dir_entries_ok:
  assumes g: "good_fs t n fs" and nd: "t (segments path) = Some nd"
  shows "\<exists>entries. dir_entries hash (hd_db (fs_db fs)) path (spec_entry path nd) = Some entries
    \<and> (\<forall>(name, ft) \<in> set entries. utf8_string name)"
proof (cases nd)
  case (ValN v)
  then have "wf_value v" using stores_tree(2) [OF good_fs_state(4) [OF g] nd] by simp
  then show ?thesis using ValN listing_utf8 [of v _ _ hash] by (auto simp: dir_entries_def spec_entry_def utf8_string_ascii)
next
  case DirN
  obtain xs where xs: "db_list wal_storage (hd_db (fs_db fs)) path = Inr xs"
      "\<And>x k. (x, k) \<in> set xs \<longleftrightarrow> (\<exists>nd. t (segments path @ [x]) = Some nd \<and> k = node_kind nd)"
    using wal.db_list_tree [OF good_fs_state(3,4) [OF g]] nd DirN by blast
  let ?ft = "\<lambda>(name, kind). (name, case kind of Directory \<Rightarrow> FtDirectory
    | EntryValue \<Rightarrow> (case tree_value t (DbPath (segments path @ [name])) of Some (Scalar _) \<Rightarrow> RegularFile | _ \<Rightarrow> FtDirectory))"
  have seg: "wf_segment x \<and> utf8_string x" if "(x, k) \<in> set xs" for x k
    using that xs(2) [of x k] stores_tree(2) [OF good_fs_state(4) [OF g]] by (fastforce simp: path_ok_def wf_path_def utf8_path_def)
  have "listed_type (hd_db (fs_db fs)) path e = Some (?ft e)" if "e \<in> set xs" for e
  proof -
    obtain x k where e: "e = (x, k)" by (cases e)
    then have "path_join path x = Inr (DbPath (segments path @ [x]))" using seg that by (simp add: path_join_def wf_segment_def)
    then show ?thesis using e by (simp add: listed_type_def value_of_tree [OF g] split: EntryKind.split)
  qed
  then have "those (map (listed_type (hd_db (fs_db fs)) path) xs) = Some (map ?ft xs)" by (rule those_Some)
  then show ?thesis using xs(1) seg DirN by (auto simp: dir_entries_def spec_entry_def utf8_string_ascii)
qed

lemma readdir_answers:
  assumes g: "good_fs t n fs" and ok: "call_ok hash (OpReaddir ino offset) fs t n"
  shows "answers None t fs (fuse_readdir hash full ino offset fs)"
proof (cases "path_for_ino fs ino")
  case None
  then show ?thesis using answers_read [OF g] by (simp add: fuse_readdir_def)
next
  case (Some ps)
  have ps: "utf8_string ps \<and> ps \<noteq> []" using Some inodes_okD(3,4) [OF good_fs_state(1) [OF g]] by (simp add: path_for_ino_def)
  show ?thesis
  proof (cases "\<exists>p nd. path_parse ps = Inr p \<and> t (segments p) = Some nd")
    case False
    then show ?thesis using answers_read [OF g] Some
      by (auto simp: fuse_readdir_def good_fs_locked [OF g] db_get_good [OF g] split: sum.split option.split)
  next
    case True
    then obtain p nd where p: "path_parse ps = Inr p" "t (segments p) = Some nd" by blast
    obtain entries where e: "dir_entries hash (hd_db (fs_db fs)) p (spec_entry p nd) = Some entries"
        "\<forall>(name, ft) \<in> set entries. utf8_string name"
      using dir_entries_ok [OF g p(2)] by blast
    let ?es = "drop (unat offset) entries"
    obtain rows fs' where add: "add_entries full ps (unat offset) ?es [] fs = (rows, fs')" by fastforce
    have "unat (next_ino fs) + length entries < 2 ^ 64" using ok Some p e(1) by auto
    then have "grown (length ?es) fs fs' \<and> fs_db fs' = fs_db fs \<and> dirty fs' = dirty fs"
      using e(2) by (intro add_entries_grown [OF good_fs_state(1) [OF g] _ ps _ add]) (auto dest: in_set_dropD)
    then have "good_fs t n fs'" "ino_to_path fs \<subseteq>\<^sub>m ino_to_path fs'" using good_fs_grown [OF g] by (auto simp: grown_def)
    moreover have "fuse_readdir hash full ino offset fs = (Returns (ReplyDir rows), fs')"
      using Some p e(1) add by (simp add: fuse_readdir_def good_fs_locked [OF g] db_get_good [OF g])
    ultimately show ?thesis by (intro answersI [of _ "ReplyDir rows" fs' t n]) (simp_all add: fs_outcome_def)
  qed
qed

lemma call_answers:
  assumes "good_fs t n fs" "call_ok hash op fs t n"
  shows "answers (fs_effect hash op fs t) t fs (fs_call hash full op fs)"
  using assms
  by (cases op) (simp_all add: lookup_answers getattr_answers read_answers write_answers getxattr_answers readdir_answers
      mkdir_answers [simplified] create_answers [simplified] unlink_answers fuse_rmdir_def fuse_flush_def fuse_fsync_def flush_answers
      fuse_rename_def answers_read)

end
