(* ===== verification/Server_Theorems.thy ===== *)
theory Server_Theorems
  imports Server_Refine
begin

text \<open>
  The properties of the server: the contract of the dispatch, message framing, and a connection that
  answers a stream of requests in order, and always when it only reads.
\<close>

section \<open>A database with only the root\<close>

definition wal_root :: WalStorage where
  "wal_root = appended root_batch (fresh_wal 100000)"

definition root_handle :: DbHandle where
  "root_handle = \<lparr>hd_db = wal_root, poisoned = False\<rparr>"

definition plain_debug :: DebugText where
  "plain_debug = \<lparr>dbg_tok = (\<lambda>_. ''_''), dbg_request = (\<lambda>_. ''_'')\<rparr>"

lemma wal_root_map: "wal_map wal_root = apply_ops [] root_batch"
  by (simp add: wal_root_def appended_def)

lemma root_handle_good: "good_db empty_tree 2 root_handle"
proof -
  have "stores empty_tree 2 (bt_get (wal_map wal_root))"
    unfolding wal_root_map stores_def using root_rep by (auto simp flip: abs_root_tree)
  moreover have "wal_map_ok wal_root" unfolding wal_map_ok_def wal_root_map by simp
  ultimately show ?thesis by (simp add: good_db_def root_handle_def ns_state_def)
qed

lemma length_wal_root: "length (wal_map wal_root) \<le> 3"
  using length_root_batch unfolding wal_root_map .

section \<open>Dispatch\<close>



section \<open>Framing\<close>

definition frame :: "bytes \<Rightarrow> bytes" where
  "frame payload = u32_to_le (of_nat (length payload)) @ payload"

lemma length_u32_to_le [simp]: "length (u32_to_le w) = 4"
  by (simp add: u32_to_le_def)

lemma write_all_room:
  "length data \<le> s_room st \<Longrightarrow>
   write_all data st = (Inr (), st\<lparr>s_out := s_out st @ data, s_room := s_room st - length data\<rparr>)"
  by (simp add: write_all_def)

lemma write_all_Inr:
  "write_all data st = (Inr (), st') \<longleftrightarrow>
     length data \<le> s_room st \<and> st' = st\<lparr>s_out := s_out st @ data, s_room := s_room st - length data\<rparr>"
  by (auto simp: write_all_def Let_def split: if_splits)

lemma write_message_Inr:
  "write_message payload st = (Inr (), st') \<longleftrightarrow>
     length (frame payload) \<le> s_room st
     \<and> st' = st\<lparr>s_out := s_out st @ frame payload, s_room := s_room st - length (frame payload)\<rparr>"
proof (cases "4 \<le> s_room st")
  case True
  then show ?thesis
    by (auto simp: write_message_def write_all_room write_all_Inr frame_def)
next
  case False
  then have "\<exists>st1. write_all (u32_to_le (of_nat (length payload))) st = (Inl (SeIo BROKEN_PIPE), st1)"
    by (auto simp: write_all_def Let_def)
  then show ?thesis using False by (auto simp: write_message_def frame_def)
qed

lemma read_header:
  assumes "s_in st = u32_to_le w @ rest"
  shows "read_message st =
    (if unat w > MAX_MESSAGE then (Inl (SeInternal ''message too large''), st\<lparr>s_in := rest\<rparr>)
     else if unat w \<le> length rest then (Inr (Some (take (unat w) rest)), st\<lparr>s_in := drop (unat w) rest\<rparr>)
     else (Inl (SeIo (case s_fault st of None \<Rightarrow> ''failed to fill whole buffer'' | Some e \<Rightarrow> e)), st\<lparr>s_in := []\<rparr>))"
  using assms by (auto simp: read_message_def read_exact_def Let_def u32_from_to_le split: option.splits)

lemma read_frame:
  assumes "length payload \<le> MAX_MESSAGE" "s_in st = frame payload @ rest"
  shows "read_message st = (Inr (Some payload), st\<lparr>s_in := rest\<rparr>)"
proof -
  have "unat (of_nat (length payload) :: u32) = length payload"
    using assms(1) by (simp add: MAX_MESSAGE_def unat_of_nat)
  then show ?thesis using assms read_header [of st "of_nat (length payload)" "payload @ rest"] by (simp add: frame_def)
qed

text \<open>
  Framing round trip.  A message of at most 64 MiB that \<open>write_message\<close> has sent is read back by
  \<open>read_message\<close> at the other end exactly, whatever follows it, and the reader is left at the first
  byte behind it.
\<close>

theorem framing_roundtrip:
  assumes "length payload \<le> MAX_MESSAGE" and "write_message payload st = (Inr (), st')"
  shows "\<exists>sent. s_out st' = s_out st @ sent \<and>
    (\<forall>peer rest. s_in peer = sent @ rest \<longrightarrow> read_message peer = (Inr (Some payload), peer\<lparr>s_in := rest\<rparr>))"
  using assms read_frame [OF assms(1)] by (intro exI [of _ "frame payload"]) (simp add: write_message_Inr)

theorem framing_roundtrip_witness:
  "\<exists>st' sent. write_message [7, 8] \<lparr>s_in = [], s_fault = None, s_out = [], s_room = 10\<rparr> = (Inr (), st') \<and> s_out st' = sent
     \<and> read_message \<lparr>s_in = sent @ [9], s_fault = None, s_out = [], s_room = 0\<rparr>
         = (Inr (Some [7, 8]), \<lparr>s_in = [9], s_fault = None, s_out = [], s_room = 0\<rparr>)"
proof -
  let ?st = "\<lparr>s_in = [], s_fault = None, s_out = [], s_room = 10\<rparr>"
  obtain st' where w: "write_message [7, 8] ?st = (Inr (), st')" by (auto simp: write_message_Inr frame_def)
  have "length [7 :: u8, 8] \<le> MAX_MESSAGE" by (simp add: MAX_MESSAGE_def)
  from framing_roundtrip [OF this w] obtain sent where "s_out st' = sent"
      "\<And>peer rest. s_in peer = sent @ rest \<longrightarrow> read_message peer = (Inr (Some [7, 8]), peer\<lparr>s_in := rest\<rparr>)" by auto
  then show ?thesis using w by (intro exI [of _ st'] exI [of _ sent]) simp
qed




section \<open>A connection\<close>

text \<open>
  The messages of a connection taken one after another: each is decoded and dispatched on the state
  the previous one left, or answered as a bad request.
\<close>

inductive session :: "nat \<Rightarrow> DebugText \<Rightarrow> (nat \<Rightarrow> Instant) \<Rightarrow> (bytes \<Rightarrow> string + Request)
    \<Rightarrow> bytes list \<Rightarrow> ServerStats \<Rightarrow> DbHandle \<Rightarrow> Response list \<Rightarrow> ServerStats \<Rightarrow> DbHandle \<Rightarrow> bool"
  for fuel dbg now from_slice where
  session_end: "session fuel dbg now from_slice [] stats db [] stats db"
| session_request: "from_slice p = Inr req \<Longrightarrow>
    dispatch_with_stats fuel dbg (now (length (concat (map frame ps)))) req (stats\<lparr>requests := requests stats + 1\<rparr>) db
      = (Returns resp, stats1, db1) \<Longrightarrow>
    session fuel dbg now from_slice ps (count_error resp stats1) db1 resps stats2 db2 \<Longrightarrow>
    session fuel dbg now from_slice (p # ps) stats db (resp # resps) stats2 db2"
| session_bad: "from_slice p = Inl e \<Longrightarrow>
    session fuel dbg now from_slice ps (stats\<lparr>errors := errors stats + 1\<rparr>) db resps stats2 db2 \<Longrightarrow>
    session fuel dbg now from_slice (p # ps) stats db (RsErr (''bad request: '' @ e) # resps) stats2 db2"

fun is_err :: "Response \<Rightarrow> bool" where
  "is_err (RsErr _) = True"
| "is_err _ = False"

lemma count_error_eq: "count_error resp stats = (if is_err resp then stats\<lparr>errors := errors stats + 1\<rparr> else stats)"
  by (cases resp) (simp_all add: count_error_def)

lemma count_request_counters [simp]:
  "requests (count_request req stats) = requests stats" "errors (count_request req stats) = errors stats"
  by (cases req; simp add: count_request_def)+

lemma dispatch_stats: "dispatch_with_stats fuel dbg now req stats db = (r, stats', db') \<Longrightarrow> stats' = count_request req stats"
  by (auto simp: dispatch_with_stats_def Let_def split: prod.splits)

lemma session_counts:
  assumes "session fuel dbg now from_slice ps stats db resps stats' db'"
  shows "length resps = length ps"
    "requests stats' = requests stats + of_nat (length (filter (\<lambda>p. is_ok (from_slice p)) ps))"
    "errors stats' = errors stats + of_nat (length (filter is_err resps))"
  using assms
  by (induction rule: session.induct) (auto simp: count_error_eq is_ok_iff dest!: dispatch_stats)

lemma session_connection:
  assumes "session fuel dbg now from_slice ps stats db resps stats' db'"
    and "\<forall>p \<in> set ps. length p \<le> MAX_MESSAGE" and "\<forall>r \<in> set resps. to_vec r = Inr (enc r)"
    and "s_in st = concat (map frame ps)" and "s_fault st = None" and "length (concat (map (\<lambda>r. frame (enc r)) resps)) \<le> s_room st"
  shows "\<exists>st'. handle_connection fuel dbg now from_slice to_vec st stats db = (Returns (Inr ()), st', stats', db')
    \<and> s_out st' = s_out st @ concat (map (\<lambda>r. frame (enc r)) resps)"
  using assms
proof (induction arbitrary: st rule: session.induct)
  case (session_end stats db)
  then have "read_message st = (Inr None, st)" by (simp add: read_message_def read_exact_def)
  then show ?case by (simp add: handle_connection.simps)
next
  case (session_request p req ps stats db resp stats1 db1 resps stats2 db2)
  let ?st1 = "st\<lparr>s_in := concat (map frame ps)\<rparr>" and ?out = "frame (enc resp)"
  let ?st2 = "?st1\<lparr>s_out := s_out st @ ?out, s_room := s_room st - length ?out\<rparr>"
  have r: "read_message st = (Inr (Some p), ?st1)" using read_frame [of p st] session_request.prems by simp
  have w: "write_message (enc resp) ?st1 = (Inr (), ?st2)" using session_request.prems(5) by (simp add: write_message_Inr)
  have step: "handle_connection fuel dbg now from_slice to_vec st stats db
      = handle_connection fuel dbg now from_slice to_vec ?st2 (count_error resp stats1) db1"
    by (subst handle_connection.simps) (simp add: r session_request.hyps session_request.prems(2) w Let_def)
  have "\<exists>st'. handle_connection fuel dbg now from_slice to_vec ?st2 (count_error resp stats1) db1 = (Returns (Inr ()), st', stats2, db2)
      \<and> s_out st' = s_out ?st2 @ concat (map (\<lambda>r. frame (enc r)) resps)"
    using session_request.prems by (intro session_request.IH) simp_all
  then show ?case unfolding step by auto
next
  case (session_bad p e ps stats db resps stats2 db2)
  let ?resp = "RsErr (''bad request: '' @ e)"
  let ?st1 = "st\<lparr>s_in := concat (map frame ps)\<rparr>" and ?out = "frame (enc ?resp)"
  let ?st2 = "?st1\<lparr>s_out := s_out st @ ?out, s_room := s_room st - length ?out\<rparr>"
  have r: "read_message st = (Inr (Some p), ?st1)" using read_frame [of p st] session_bad.prems by simp
  have w: "write_message (enc ?resp) ?st1 = (Inr (), ?st2)" using session_bad.prems(5) by (simp add: write_message_Inr)
  have step: "handle_connection fuel dbg now from_slice to_vec st stats db
      = handle_connection fuel dbg now from_slice to_vec ?st2 (stats\<lparr>errors := errors stats + 1\<rparr>) db"
    using session_bad.prems(2) by (subst handle_connection.simps) (simp add: r session_bad.hyps w Let_def del: append.simps)
  have "\<exists>st'. handle_connection fuel dbg now from_slice to_vec ?st2 (stats\<lparr>errors := errors stats + 1\<rparr>) db = (Returns (Inr ()), st', stats2, db2)
      \<and> s_out st' = s_out ?st2 @ concat (map (\<lambda>r. frame (enc r)) resps)"
    using session_bad.prems by (intro session_bad.IH) simp_all
  then show ?case unfolding step by auto
qed


text \<open>
  C21. A connection answers its messages in order.  For every stream of framed messages that the
  dispatcher can serve one after another, \<open>handle_connection\<close> writes exactly one framed response per
  message, in the order of the messages and behind what was written before, ends cleanly when the
  peer closes, leaves the database of the last dispatch, counts every decoded message as a request
  and every error response (bad requests included) as an error; counters wrap at 64 bits.
\<close>

theorem connection_serves_in_order:
  assumes "session fuel dbg now from_slice ps stats db resps stats' db'"
    and "\<forall>p \<in> set ps. length p \<le> MAX_MESSAGE" and "\<forall>r \<in> set resps. to_vec r = Inr (enc r)"
    and "s_in st = concat (map frame ps)" and "s_fault st = None"
    and "length (concat (map (\<lambda>r. frame (enc r)) resps)) \<le> s_room st"
  shows "(\<exists>st'. handle_connection fuel dbg now from_slice to_vec st stats db = (Returns (Inr ()), st', stats', db')
      \<and> s_out st' = s_out st @ concat (map (\<lambda>r. frame (enc r)) resps))
    \<and> length resps = length ps
    \<and> requests stats' = requests stats + of_nat (length (filter (\<lambda>p. is_ok (from_slice p)) ps))
    \<and> errors stats' = errors stats + of_nat (length (filter is_err resps))"
  using session_connection [OF assms] session_counts [OF assms(1)] by blast

definition tiny_decode :: "bytes \<Rightarrow> string + Request" where
  "tiny_decode p = (if p = [0] then Inr RqPing else Inl ''?'')"

definition tiny_encode :: "Response \<Rightarrow> bytes" where
  "tiny_encode r = [if is_err r then 1 else 0]"

lemma tiny_session:
  "session 0 plain_debug (\<lambda>_. 0) tiny_decode [[0], [5]] (stats_new 0) root_handle [RsOk ''pong'', RsErr ''bad request: ?'']
     ((stats_new 0)\<lparr>requests := 1, errors := 1\<rparr>) root_handle"
proof -
  let ?s = "(stats_new 0)\<lparr>requests := 1\<rparr>"
  have d: "dispatch_with_stats 0 plain_debug 0 RqPing ?s root_handle = (Returns (RsOk ''pong''), ?s, root_handle)"
    by (simp add: dispatch_with_stats_def count_request_def)
  have "session 0 plain_debug (\<lambda>_. 0) tiny_decode [] (?s\<lparr>errors := errors ?s + 1\<rparr>) root_handle []
      ((stats_new 0)\<lparr>requests := 1, errors := 1\<rparr>) root_handle"
    using session_end by (simp add: stats_new_def)
  from session_bad [where from_slice = tiny_decode and p = "[5]" and e = "''?''", OF _ this]
  have "session 0 plain_debug (\<lambda>_. 0) tiny_decode [[5]] (count_error (RsOk ''pong'') ?s) root_handle [RsErr ''bad request: ?'']
      ((stats_new 0)\<lparr>requests := 1, errors := 1\<rparr>) root_handle"
    by (simp add: tiny_decode_def count_error_def)
  from session_request [where from_slice = tiny_decode and p = "[0]" and req = RqPing and stats = "stats_new 0" and now = "\<lambda>_. 0", OF _ _ this]
  show ?thesis using d by (simp add: tiny_decode_def stats_new_def)
qed

theorem connection_serves_in_order_witness:
  "\<exists>st' stats'. handle_connection 0 plain_debug (\<lambda>_. 0) tiny_decode (\<lambda>r. Inr (tiny_encode r))
       \<lparr>s_in = frame [0] @ frame [5], s_fault = None, s_out = [], s_room = 100\<rparr> (stats_new 0) root_handle
       = (Returns (Inr ()), st', stats', root_handle)
     \<and> s_out st' = frame [0] @ frame [1] \<and> requests stats' = 1 \<and> errors stats' = 1"
proof -
  have r: "length (concat (map (\<lambda>r. frame (tiny_encode r)) [RsOk ''pong'', RsErr ''bad request: ?''])) \<le> 100"
    by (simp add: frame_def tiny_encode_def)
  from connection_serves_in_order [OF tiny_session, where to_vec = "\<lambda>r. Inr (tiny_encode r)" and enc = tiny_encode
      and st = "\<lparr>s_in = frame [0] @ frame [5], s_fault = None, s_out = [], s_room = 100\<rparr>"]
  show ?thesis using r by (auto simp: MAX_MESSAGE_def tiny_encode_def)
qed


text \<open>The requests that only read.\<close>

fun read_only :: "Request \<Rightarrow> bool" where
  "read_only RqPing = True"
| "read_only RqStats = True"
| "read_only (RqGet _) = True"
| "read_only (RqLs _) = True"
| "read_only (RqQuery _) = True"
| "read_only RqExport = True"
| "read_only _ = False"

lemma read_only_served:
  assumes "good_db t n db" "read_only req" "length (wal_map (hd_db db)) + request_fuel req \<le> fuel"
  shows "\<exists>resp. dispatch_with_stats fuel dbg now req stats db = (Returns resp, count_request req stats, db) \<and> served dbg req t resp t"
proof -
  obtain resp t' db' where r: "serve_request fuel dbg now (count_request req stats) req db = (Returns resp, db')" "served dbg req t resp t'"
    using request_served [OF assms(1) _ assms(3), of dbg now "count_request req stats"] assms(2) by (cases req) auto
  then have "db' = db" using assms(2)
    by (cases req) (auto simp: with_db_def split: if_splits run.splits sum.splits)
  moreover have "t' = t" using r(2) assms(2) by (cases req) simp_all
  ultimately show ?thesis using r by (auto simp: dispatch_with_stats_def)
qed

lemma read_session:
  assumes "good_db t n db"
    and "\<forall>p \<in> set ps. \<exists>req. from_slice p = Inr req \<and> read_only req \<and> length (wal_map (hd_db db)) + request_fuel req \<le> fuel"
  shows "\<exists>resps stats'. session fuel dbg now from_slice ps stats db resps stats' db
    \<and> list_all2 (\<lambda>p resp. \<exists>req. from_slice p = Inr req \<and> served dbg req t resp t) ps resps"
  using assms(2)
proof (induction ps arbitrary: stats)
  case Nil
  then show ?case using session_end by fastforce
next
  case (Cons p ps)
  obtain req where req: "from_slice p = Inr req" "read_only req" "length (wal_map (hd_db db)) + request_fuel req \<le> fuel"
    using Cons.prems by auto
  let ?now = "now (length (concat (map frame ps)))" and ?stats = "stats\<lparr>requests := requests stats + 1\<rparr>"
  obtain resp where d: "dispatch_with_stats fuel dbg ?now req ?stats db = (Returns resp, count_request req ?stats, db)"
      "served dbg req t resp t"
    using read_only_served [OF assms(1) req(2,3), of dbg ?now ?stats] by blast
  obtain resps stats' where rs: "session fuel dbg now from_slice ps (count_error resp (count_request req ?stats)) db resps stats' db"
      "list_all2 (\<lambda>p resp. \<exists>req. from_slice p = Inr req \<and> served dbg req t resp t) ps resps"
    using Cons by fastforce
  have "session fuel dbg now from_slice (p # ps) stats db (resp # resps) stats' db"
    by (rule session_request [OF req(1) d(1) rs(1)])
  then show ?case using rs(2) req(1) d(2) by (intro exI [of _ "resp # resps"] exI [of _ stats']) auto
qed

text \<open>
  Readers always get their answers.  On a well-formed database a connection that sends any number
  of read requests (ping, stats, get, ls, query, export) is served to the end: one response per
  request, each the one its contract names for the unchanged tree, the database untouched, and the
  connection closed cleanly, provided the peer accepts the responses.
\<close>

theorem readers_are_answered:
  assumes "good_db t n db"
    and "\<forall>p \<in> set ps. length p \<le> MAX_MESSAGE \<and> (\<exists>req. from_slice p = Inr req \<and> read_only req
      \<and> length (wal_map (hd_db db)) + request_fuel req \<le> fuel)"
    and "\<forall>r. to_vec r = Inr (enc r)"
  shows "\<exists>resps stats'. list_all2 (\<lambda>p resp. \<exists>req. from_slice p = Inr req \<and> served dbg req t resp t) ps resps
    \<and> (\<forall>st. s_in st = concat (map frame ps) \<and> s_fault st = None \<and> length (concat (map (\<lambda>r. frame (enc r)) resps)) \<le> s_room st \<longrightarrow>
        (\<exists>st'. handle_connection fuel dbg now from_slice to_vec st stats db = (Returns (Inr ()), st', stats', db)
           \<and> s_out st' = s_out st @ concat (map (\<lambda>r. frame (enc r)) resps)))"
proof -
  obtain resps stats' where s: "session fuel dbg now from_slice ps stats db resps stats' db"
      "list_all2 (\<lambda>p resp. \<exists>req. from_slice p = Inr req \<and> served dbg req t resp t) ps resps"
    using read_session [OF assms(1), of ps from_slice fuel dbg now stats] assms(2) by blast
  then show ?thesis using session_connection [OF s(1), of to_vec enc] assms(2,3) by blast
qed

theorem readers_are_answered_witness:
  "\<exists>resp stats' st'. handle_connection 3 plain_debug (\<lambda>_. 0) tiny_decode (\<lambda>r. Inr (tiny_encode r))
       \<lparr>s_in = frame [0], s_fault = None, s_out = [], s_room = 100\<rparr> (stats_new 0) root_handle
       = (Returns (Inr ()), st', stats', root_handle)
     \<and> served plain_debug RqPing empty_tree resp empty_tree \<and> s_out st' = frame (tiny_encode resp)"
proof -
  have "\<forall>p \<in> set [[0]]. length p \<le> MAX_MESSAGE \<and> (\<exists>req. tiny_decode p = Inr req \<and> read_only req
      \<and> length (wal_map (hd_db root_handle)) + request_fuel req \<le> 3)"
    using length_wal_root by (simp add: tiny_decode_def MAX_MESSAGE_def root_handle_def)
  from readers_are_answered [OF root_handle_good this, of "\<lambda>r. Inr (tiny_encode r)" tiny_encode plain_debug "\<lambda>_. 0" "stats_new 0"]
  obtain resps stats' where r: "list_all2 (\<lambda>p resp. \<exists>req. tiny_decode p = Inr req \<and> served plain_debug req empty_tree resp empty_tree) [[0]] resps"
      "\<And>st. s_in st = frame [0] \<and> s_fault st = None \<and> length (concat (map (\<lambda>r. frame (tiny_encode r)) resps)) \<le> s_room st \<Longrightarrow>
        \<exists>st'. handle_connection 3 plain_debug (\<lambda>_. 0) tiny_decode (\<lambda>r. Inr (tiny_encode r)) st (stats_new 0) root_handle
           = (Returns (Inr ()), st', stats', root_handle) \<and> s_out st' = s_out st @ concat (map (\<lambda>r. frame (tiny_encode r)) resps)"
    by auto
  then obtain resp where resp: "resps = [resp]" "served plain_debug RqPing empty_tree resp empty_tree"
    by (auto simp: list_all2_Cons1 tiny_decode_def)
  have "length (frame (tiny_encode resp)) \<le> 100" by (simp add: frame_def tiny_encode_def)
  then show ?thesis using r(2) [of "\<lparr>s_in = frame [0], s_fault = None, s_out = [], s_room = 100\<rparr>"] resp by auto
qed

end
