(* ===== verification/Json_Import.thy ===== *)
theory Json_Import
  imports Json_Bounds
begin

text \<open>
  The properties of importing arbitrary documents: a document without NUL bytes keeps the database
  well-formed, whatever it says; a NUL byte in a name breaks the type index.
\<close>

section \<open>Names with a NUL byte\<close>

lemma try_map_fails: "x \<in> set xs \<Longrightarrow> f x = Inl e \<Longrightarrow> \<exists>e'. try_map f xs = Inl e'"
proof (induction xs)
  case (Cons y ys)
  then show ?case by (cases "f y"; cases "try_map f ys") auto
qed simp

lemma join_with_part: "x \<in> set xs \<Longrightarrow> set x \<subseteq> set (join_with sep xs)"
  by (induction sep xs rule: join_with.induct) auto

lemma join_with_chars: "c \<in> set (join_with sep ss) \<Longrightarrow> c \<in> set sep \<or> (\<exists>s \<in> set ss. c \<in> set s)"
  by (induction sep ss rule: join_with.induct) auto

lemma nul_not_in_path: "wf_path p \<Longrightarrow> CHR 0x00 \<notin> set (as_str p)"
  using join_with_chars [of "CHR 0x00" "''/''" "segments p"] by (auto simp: as_str_def wf_path_def wf_segment_def)

lemma nul_path_not_parsed:
  assumes "CHR 0x00 \<in> set x"
  shows "\<exists>e. path_parse (as_str (DbPath (q @ [x]))) = Inl e"
proof (cases "path_parse (as_str (DbPath (q @ [x])))")
  case (Inr p)
  from parse_Inr [OF this] obtain k where "wf_path p" "as_str (DbPath (q @ [x])) = as_str p @ replicate k slash" by blast
  moreover have "CHR 0x00 \<in> set (as_str (DbPath (q @ [x])))"
    using assms join_with_part [of x "q @ [x]" "''/''"] by (auto simp: as_str_def)
  ultimately show ?thesis using nul_not_in_path [of p] by auto
qed simp

context storage
begin

lemma set_new_batch:
  assumes i: "invar s" and T: "ns_rep T n (bt_get (view s))" and q: "T q = Some (j, DirN)" "T (q @ [x]) = None"
  shows "set_batch S s (DbPath (q @ [x])) v = Inr [Put meta_next_id (encode_id (n + 1)),
          Put (node_key n) (encode_value_node (encode v)), Put (child_key j x) (encode_id n),
          Put (type_index_key (typename v) n) (as_bytes (as_str (DbPath (q @ [x]))))]"
proof -
  have id: "bt_get (view s) meta_next_id = Some (encode_id n)" using ns_rep_parts [OF T] by (simp add: ids_rep_def)
  have link: "bt_get (view s) (child_key j x) = None"
  proof (rule ccontr)
    assume "bt_get (view s) (child_key j x) \<noteq> None"
    then obtain p nd k nd' where "T p = Some (j, nd)" "T (p @ [x]) = Some (k, nd')"
      using ns_rep_parts [OF T] unfolding links_rep_def by blast
    moreover have "p = q" using ns_rep_parts(1) [OF T] calculation(1) q(1) unfolding tree_ok_def by blast
    ultimately show False using q(2) by simp
  qed
  show ?thesis
    by (simp add: set_batch_def path_parent_def path_name_def is_root_def parent_dir_def resolve_tree [OF i T] q
        store_get_view [OF i] alloc_id_def next_id_def id_of_def id link batch_put_def batch_new_def Let_def)
qed

lemma set_nul_breaks_index:
  assumes i: "invar s" and T: "ns_rep T n (bt_get (view s))" and q: "T q = Some (j, DirN)" "T (q @ [x]) = None"
    and x: "CHR 0x00 \<in> set x" "utf8_string x" and run: "db_set S (DbPath (q @ [x])) v s = (Inr (), s')"
  shows "\<exists>e. paths_with_type S s' (typename v) = Inl e"
proof -
  let ?p = "DbPath (q @ [x])" and ?k = "type_index_key (typename v) n"
  let ?b = "[Put meta_next_id (encode_id (n + 1)), Put (node_key n) (encode_value_node (encode v)),
    Put (child_key j x) (encode_id n), Put ?k (as_bytes (as_str ?p))]"
  have c: "st_commit S ?b s = (Inr (), s')"
    using run set_new_batch [OF i T q] by (auto simp: db_set_def store_commit_def split: prod.splits)
  have i': "invar s'" using commit_invar [OF i c] .
  have "bt_get (view s') ?k = Some (as_bytes (as_str ?p))"
    using commit_ok [OF i c] by (simp add: bt_get_insert)
  then have row: "(?k, as_bytes (as_str ?p)) \<in> set (view s')" using bt_get_iff [OF view_sorted [OF i']] by blast
  let ?row = "\<lambda>(k :: bytes, val). and_then (ok_or (Invalid ''idx path utf8'') (from_utf8 val)) ns_parse"
  have "starts_with ?k (type_index_prefix (typename v))" by (simp add: type_index_key_prefix starts_with_iff)
  then have mem: "(?k, as_bytes (as_str ?p)) \<in> set (filter (\<lambda>(k, _). starts_with k (type_index_prefix (typename v))) (view s'))"
    using row by simp
  have "utf8_path ?p"
    using tree_node [OF ns_rep_parts(1) [OF T] q(1)] x(2) by (simp add: path_ok_def utf8_path_def)
  then have "from_utf8 (as_bytes (as_str ?p)) = Some (as_str ?p)" using utf8_as_str by simp
  moreover obtain e where "path_parse (as_str ?p) = Inl e" using nul_path_not_parsed [OF x(1)] by blast
  ultimately have "?row (?k, as_bytes (as_str ?p)) = Inl (NsPath e)" by (simp add: ns_parse_def)
  from try_map_fails [where f = ?row, OF mem this] show ?thesis
    by (auto simp: paths_with_type_def store_scan_view [OF i'])
qed

end

section \<open>Properties\<close>



text \<open>
  C24. A NUL byte in an imported name breaks the type index.  \<open>join\<close> accepts it, so a document that
  puts a value with such a name into an existing directory is imported and acknowledged; the path
  stored in the type index then does not parse, and \<open>paths_with_type\<close> (and every query that uses the
  index for that type) fails from then on.
\<close>

theorem import_nul_name_breaks_type_index:
  assumes "storage S view invar" and "ns_state view invar t n s" and "q \<noteq> []" and "t q = Some DirN" and "t (q @ [x]) = None"
    and "CHR 0x00 \<in> set x" and "utf8_string x" and "slash \<notin> set x"
    and "import_node S (DbPath q) (JObject [(''__dir'', JObject [(x, JNumber k)])]) False s = (Inr (), s')"
  shows "\<exists>e. paths_with_type S s' ''int'' = Inl e"
proof -
  have i: "invar s" and st: "stores t n (bt_get (view s))" using assms(2) by (simp_all add: ns_state_def)
  obtain T where T: "ns_rep T n (bt_get (view s))" "t = abs_tree T" using st by (auto simp: stores_def)
  obtain j where j: "T q = Some (j, DirN)" using assms(4) T(2) by (auto simp: abs_tree_Some)
  have none: "T (q @ [x]) = None" using assms(5) T(2) by simp
  have "x \<noteq> []" "x \<noteq> ''.''" "x \<noteq> ''..''" using assms(6) by auto
  then have join: "path_join (DbPath q) x = Inr (DbPath (q @ [x]))" using assms(8) by (simp add: path_join_def)
  have "db_set S (DbPath (q @ [x])) (value_int k) s = (Inr (), s')"
    using assms(9) join storage.db_exists_tree [OF assms(1) i st, of "DbPath q"] assms(3,4)
    by (auto simp: is_root_def then_at_def split: prod.splits sum.splits)
  from storage.set_nul_breaks_index [OF assms(1) i T(1) j none assms(6,7) this] show ?thesis by (simp add: value_int_def)
qed


theorem import_nul_name_breaks_type_index_witness:
  "\<exists>s s' e. import_node memory_storage (DbPath [''d'']) (JObject [(''__dir'', JObject [([CHR 0x00], JNumber 1)])]) False s = (Inr (), s')
     \<and> paths_with_type memory_storage s' ''int'' = Inl e"
proof -
  let ?x = "[CHR 0x00]"
  have sp: "spec_mkdir (DbPath [''d'']) empty_tree = Inr (empty_tree([''d''] \<mapsto> DirN))"
    by (simp add: spec_mkdir_def is_root_def empty_tree_def spec_parent_def)
  have ok: "path_ok [''d'']"
    by (simp add: path_ok_def wf_path_def wf_segment_def utf8_path_def utf8_string_ascii)
  obtain s where run: "mkdir memory_storage (DbPath [''d'']) mem_root = (Inr (), s)"
    by (rule mem_mkdir_ok [OF mem_root_state _ _ sp]) (simp_all add: ok)
  obtain n where s: "ns_state mem_map memory_inv (empty_tree([''d''] \<mapsto> DirN)) n s"
    using mem.mkdir_tree [of mem_root empty_tree 2 "DbPath [''d'']" "Inr ()" s] mem_root_state run sp
    by (auto simp: ns_state_def ok)
  then obtain T where T: "ns_rep T n (bt_get (mem_map s))" "empty_tree([''d''] \<mapsto> DirN) = abs_tree T" "memory_inv s"
    by (auto simp: ns_state_def stores_def)
  have "abs_tree T [''d''] = Some DirN" "abs_tree T ([''d''] @ [?x]) = None"
    by (simp_all add: T(2) [symmetric] empty_tree_def)
  then obtain j where j: "T [''d''] = Some (j, DirN)" "T ([''d''] @ [?x]) = None" by (auto simp: abs_tree_Some)
  obtain s' where set: "db_set memory_storage (DbPath [''d'', ?x]) (value_int 1) s = (Inr (), s')"
    using mem.set_new_batch [OF T(3,1) j, of "value_int 1"] by (simp add: db_set_def store_commit_def)
  have st: "memory_inv s" "stores (empty_tree([''d''] \<mapsto> DirN)) n (bt_get (mem_map s))" using s by (simp_all add: ns_state_def)
  have "import_node memory_storage (DbPath [''d'']) (JObject [(''__dir'', JObject [(?x, JNumber 1)])]) False s = (Inr (), s')"
    using set mem.db_exists_tree [OF st, of "DbPath [''d'']"] by (simp add: is_root_def path_join_def)
  moreover from import_nul_name_breaks_type_index [OF mem.storage_axioms s _ _ _ _ _ _ this]
  obtain e where "paths_with_type memory_storage s' ''int'' = Inl e"
    by (auto simp: empty_tree_def utf8_string_ascii)
  ultimately show ?thesis by blast
qed

end
