(* ===== verification/Server_Restart.thy ===== *)
theory Server_Restart
  imports Server_Theorems Json_Import
begin

text \<open>
  The server and its data directory together: what was acknowledged is there after a restart.
\<close>

section \<open>Restart\<close>

lemma open_db_good:
  assumes "wal_inv s" "ns_state wal_map wal_map_ok t n s" "length (wal_map s) \<le> fuel"
  shows "\<exists>r d'. open_db fuel (disk s) = Some (r, d') \<and> (\<forall>h. r = Inr h \<longrightarrow> good_db t n h)
    \<and> (\<forall>e. r = Inl e \<longrightarrow> (\<exists>m. e = SeInternal (show_ns_error (NsStorage m))))"
proof -
  obtain s1 where s1: "wal_open (disk s) = Inr s1" "wal_map s1 = wal_map s" using wal_reopen [OF assms(1)] by metis
  have i: "wal_map_ok s1" using s1(2) assms(2) by (simp add: ns_state_def wal_map_ok_def)
  obtain T where T: "ns_rep T n (bt_get (wal_map s1))" "t = abs_tree T"
    using assms(2) s1(2) by (auto simp: ns_state_def stores_def)
  obtain r s2 where o: "db_open fuel wal_storage s1 = Some (r, s2)" "wal_map_ok s2" "opened T n r (bt_get (wal_map s2))"
    using wal.db_open_tree [OF i, of T n fuel] ns_rep_parts [OF T(1)] ns_rep_graph [OF T(1)] assms(3) s1(2) T(1)
    by (auto simp: ns_rep_iff)
  show ?thesis
  proof (cases r)
    case (Inl e)
    then obtain m where "e = NsStorage m" using o(3) by (cases e) (auto simp: opened_def)
    then show ?thesis using s1(1) o(1) Inl by (auto simp: open_db_def)
  next
    case (Inr u)
    then have "good_db t n \<lparr>hd_db = s2, poisoned = False\<rparr>"
      using o(2,3) T(2) by (auto simp: good_db_def ns_state_def stores_def opened_def)
    then show ?thesis using s1(1) o(1) Inr by (auto simp: open_db_def)
  qed
qed

lemma acked_set:
  assumes "good_db t n db" "wal_inv (hd_db db)" "request_ok dbg (RqSet path ty raw) t n"
    and "parse_path path = Inr p" "parse_typed_value ty raw = Inr v"
    and "set_batch wal_storage (hd_db db) p v = Inr b" "wal_fits b (hd_db db)"
    and "dispatch_with_stats fuel dbg now (RqSet path ty raw) stats db = (Returns (RsOk m), stats', db')"
  shows "wal_inv (hd_db db') \<and> (\<exists>t' n'. good_db t' n' db' \<and> t' (segments p) = Some (ValN (canon v)))"
proof -
  let ?d = "hd_db db"
  have p: "\<not> poisoned db" and s: "wal_map_ok ?d" "stores t n (bt_get (wal_map ?d))"
    using assms(1) by (simp_all add: good_db_def ns_state_def)
  have op: "request_to_txn (dbg_request dbg) (RqSet path ty raw) = Inr (TSet p v)" using assms(4,5) by simp
  obtain c d' where c: "wal_commit b ?d = (c, d')" by fastforce
  have run: "db_set wal_storage p v ?d = (map_err from_storage_error c, d')"
    using assms(6) c by (simp add: db_set_def store_commit_def)
  have "serve_request fuel dbg now (count_request (RqSet path ty raw) stats) (RqSet path ty raw) db
      = (Returns (reply_of (RsOk (ok_message (TSet p v))) (map_err from_storage_error c)), db\<lparr>hd_db := d'\<rparr>)"
    by (subst serve_single_op, simp, rule with_db_mut_reply [OF p]) (use op run in simp)
  then have r: "reply_of (RsOk (ok_message (TSet p v))) (map_err from_storage_error c) = RsOk m" "db' = db\<lparr>hd_db := d'\<rparr>"
    using assms(8) by (auto simp: dispatch_with_stats_def Let_def simp del: serve_request.simps)
  then have ok: "c = Inr ()" by (cases c) auto
  have "wal_inv d'" using wal_inv_commit [OF assms(2), of b d'] assms(7) c ok by (simp add: wal_fits_def)
  moreover obtain t' n' where "wal_map_ok d'" "stores t' n' (bt_get (wal_map d'))" "outcome (spec_set p v t) t (Inr ()) t'"
    using wal.set_tree [OF s, of p v "Inr ()" d'] run ok single_op_wf [OF _ assms(3) op] by auto
  moreover have "t' (segments p) = Some (ValN (canon v))"
    using calculation(4) by (auto simp: spec_set_def and_then_Inr_iff split: if_splits)
  ultimately show ?thesis using p r(2) by (auto simp: good_db_def ns_state_def)
qed

text \<open>
  An acknowledged \<open>set\<close> survives a restart.  If the server answered \<open>ok\<close> to a \<open>set\<close> on a clean
  data directory, then opening that directory again (after a stop or a crash of the process) gives a
  database that answers \<open>get\<close> of that path with the type and text of the value; the open can fail only
  because the store refuses a write while the type index is rebuilt.
\<close>

theorem acked_set_survives_restart:
  assumes "good_db t n db" and "wal_inv (hd_db db)" and "request_ok dbg (RqSet path ty raw) t n"
    and "parse_path path = Inr p" and "parse_typed_value ty raw = Inr v"
    and "set_batch wal_storage (hd_db db) p v = Inr b" and "wal_fits b (hd_db db)"
    and "dispatch_with_stats fuel dbg now (RqSet path ty raw) stats db = (Returns (RsOk m), stats', db')"
    and "length (wal_map (hd_db db')) \<le> fuel2"
  shows "\<exists>r d'. open_db fuel2 (disk (hd_db db')) = Some (r, d')
    \<and> (\<forall>e. r = Inl e \<longrightarrow> (\<exists>m. e = SeInternal (show_ns_error (NsStorage m))))
    \<and> (\<forall>h fuel3 later. r = Inr h \<longrightarrow>
         dispatch fuel3 dbg later (RqGet path) h = (Returns (RsValue (typename v) (format_value (canon v))), h))"
proof -
  obtain t' n' where g: "wal_inv (hd_db db')" "good_db t' n' db'" "t' (segments p) = Some (ValN (canon v))"
    using acked_set [OF assms(1-8)] by blast
  obtain r d' where o: "open_db fuel2 (disk (hd_db db')) = Some (r, d')" "\<And>h. r = Inr h \<Longrightarrow> good_db t' n' h"
      "\<And>e. r = Inl e \<Longrightarrow> \<exists>m. e = SeInternal (show_ns_error (NsStorage m))"
    using open_db_good [OF g(1) _ assms(9), of t' n'] g(2) by (auto simp: good_db_def)
  have "dispatch fuel3 dbg later (RqGet path) h = (Returns (RsValue (typename v) (format_value (canon v))), h)"
    if "r = Inr h" for h fuel3 later
    using get_served [OF o(2) [OF that]] g(3) assms(4)
    by (simp add: dispatch_def dispatch_with_stats_def spec_get_reply_def del: serve_request.simps)
  with o(1,3) show ?thesis by blast
qed


text \<open>A concrete run: \<open>set /a int 5\<close> on a database that has only the root.\<close>

definition rows_size :: "kv \<Rightarrow> nat" where
  "rows_size m = (\<Sum>(k, v)\<leftarrow>m. 8 + length k + length v)"

lemma length_checkpoint_body: "length (checkpoint_body m w) = 12 + rows_size m"
  by (induction m) (auto simp: checkpoint_body_def rows_size_def)

lemma rows_size_insert: "rows_size (bt_insert k v m) \<le> rows_size m + (8 + length k + length v)"
  by (induction k v m rule: bt_insert.induct) (auto simp: rows_size_def)

lemma length_apply_ops: "length (apply_ops m ops) \<le> length m + length ops"
proof (induction ops arbitrary: m)
  case (Cons op ops)
  have "length (bt_remove k m) \<le> length m" for k by (induction k m rule: bt_remove.induct) auto
  then have "length (apply_op op m) \<le> Suc (length m)" using length_bt_insert by (cases op) (auto intro: le_SucI)
  then show ?case using Cons.IH [of "apply_op op m"] by simp
qed simp

fun op_size :: "BatchOp \<Rightarrow> nat" where
  "op_size (Put k v) = 8 + length k + length v"
| "op_size (Delete k) = 0"

lemma rows_size_ops: "rows_size (apply_ops m ops) \<le> rows_size m + sum_list (map op_size ops)"
proof (induction ops arbitrary: m)
  case (Cons op ops)
  have "rows_size (bt_remove k m) \<le> rows_size m" for k
    by (induction k m rule: bt_remove.induct) (auto simp: rows_size_def)
  then have "rows_size (apply_op op m) \<le> rows_size m + op_size op" using rows_size_insert by (cases op) auto
  then show ?case using Cons.IH [of "apply_op op m"] by simp
qed simp

definition set_five :: WriteBatch where
  "set_five = [Put meta_next_id (encode_id 3), Put (node_key 2) (encode_value_node (encode (value_int 5))),
     Put (child_key 1 ''a'') (encode_id 2), Put (type_index_key ''int'' 2) (as_bytes ''/a'')]"

lemmas key_lengths = node_key_def meta_next_id_def child_key_def type_index_key_def encode_id_def encode_dir_node_def
  encode_value_node_def value_int_def encode_def

lemma set_five_sizes:
  "length (commit_body root_batch) \<le> 200" "length (commit_body set_five) \<le> 300"
  "rows_size (apply_ops [] (root_batch @ set_five)) \<le> 1000"
proof -
  show "length (commit_body root_batch) \<le> 200" "length (commit_body set_five) \<le> 300"
    by (simp_all add: commit_body_def root_batch_def set_five_def key_lengths)
  have "sum_list (map op_size (root_batch @ set_five)) \<le> 1000" "rows_size [] = 0"
    by (simp_all add: root_batch_def set_five_def key_lengths rows_size_def)
  then show "rows_size (apply_ops [] (root_batch @ set_five)) \<le> 1000"
    using rows_size_ops [of "[]" "root_batch @ set_five"] by linarith
qed

lemma wal_root_inv: "wal_inv wal_root"
  unfolding wal_root_def using set_five_sizes(1) fresh_wal_inv by (intro wal_inv_appended) (simp_all add: batch_ok_def len_ok_def)

lemma set_five_batch: "set_batch wal_storage wal_root (DbPath [''a'']) (value_int 5) = Inr set_five"
proof -
  have T: "wal_map_ok wal_root" "ns_rep root_tree 2 (bt_get (wal_map wal_root))"
    using root_rep by (simp_all add: wal_root_map wal_map_ok_def)
  have "root_tree [] = Some (1, DirN)" "root_tree ([] @ [''a'']) = None" by (simp_all add: root_tree_def ROOT_ID_def)
  from wal.set_new_batch [OF T this, of "value_int 5"] show ?thesis by (simp add: set_five_def as_str_def value_int_def)
qed

lemma set_five_commit: "wal_commit set_five wal_root = (Inr (), appended set_five wal_root)"
proof (rule commit_plain)
  have l: "length (encode_commit_record root_batch) \<le> 213" "length (encode_commit_record set_five) \<le> 313"
    using set_five_sizes by (simp_all add: length_record)
  show "set_five \<noteq> []" by (simp add: set_five_def)
  show "length (encode_commit_record set_five) \<le> space (disk wal_root)" using l by (simp add: wal_root_def appended_def)
  define k where "k = length (encode_commit_record root_batch) + length (encode_commit_record set_five)"
  have "wal_bytes wal_root + of_nat (length (encode_commit_record set_five)) = of_nat k"
    by (simp add: wal_root_def appended_def k_def)
  moreover have "k < 8388608" using l k_def by simp
  then have "(of_nat k :: u64) < 8388608" by (simp add: word_less_nat_alt unat_of_nat)
  moreover have "auto_compact_threshold wal_root = 8388608" by (simp add: wal_root_def appended_def)
  ultimately show "wal_bytes wal_root + of_nat (length (encode_commit_record set_five)) < auto_compact_threshold wal_root"
    by simp
qed

lemma set_five_fits: "wal_fits set_five wal_root"
  using set_five_sizes(2,3) by (simp add: wal_fits_def batch_ok_def ckpt_ok_def len_ok_def length_checkpoint_body wal_root_map)

lemma set_five_parse: "parse_path ''/a'' = Inr (DbPath [''a''])" "parse_typed_value ''int'' ''5'' = Inr (value_int 5)"
  by code_simp+

definition five_handle :: DbHandle where
  "five_handle = \<lparr>hd_db = appended set_five wal_root, poisoned = False\<rparr>"

lemma set_five_dispatch:
  "dispatch_with_stats 0 plain_debug 0 (RqSet ''/a'' ''int'' ''5'') (stats_new 0) root_handle
     = (Returns (RsOk ''ok /a''), count_request (RqSet ''/a'' ''int'' ''5'') (stats_new 0), five_handle)"
  using set_five_batch set_five_commit set_five_parse
  by (simp add: dispatch_with_stats_def with_db_mut_def root_handle_def five_handle_def db_set_def store_commit_def ns_reply_def as_str_def)

theorem acked_set_survives_restart_witness:
  "\<exists>r d'. open_db 10 (disk (hd_db five_handle)) = Some (r, d')
     \<and> (\<forall>h fuel3 later. r = Inr h \<longrightarrow> dispatch fuel3 plain_debug later (RqGet ''/a'') h = (Returns (RsValue ''int'' ''5''), h))"
proof -
  have "request_ok plain_debug (RqSet ''/a'' ''int'' ''5'') empty_tree 2" by (simp add: utf8_string_ascii len_ok_def)
  moreover have "length (wal_map (hd_db five_handle)) \<le> 10"
    using length_apply_ops [of "[]" "root_batch @ set_five"]
    by (simp add: five_handle_def wal_root_map root_batch_def set_five_def)
  moreover have "typename (value_int 5) = ''int''" "format_value (canon (value_int 5)) = ''5''" by code_simp+
  ultimately show ?thesis
    using acked_set_survives_restart [OF root_handle_good _ _ set_five_parse _ _ set_five_dispatch, of set_five 10]
      wal_root_inv set_five_batch set_five_fits by (auto simp: root_handle_def)
qed

end
