(* ===== verification/Fuse_Theorems.thy ===== *)
theory Fuse_Theorems
  imports Fuse_Refine Server_Restart Ns_Theorems
begin

text \<open>
  What the mount guarantees: every call refines its effect on the tree, writes reach the database in the
  type of the value they replace, inodes name paths for good.  Two theorems show where it does not do
  what a file system promises: partial overwrites and tree keys that look like integers.
\<close>

section \<open>Concrete file systems\<close>

text \<open>A file system over a database with one value at \<open>/a\<close>, whose inode is 2.\<close>

definition fs_with :: "DbHandle \<Rightarrow> Fs" where
  "fs_with h = snd (ino_for_path ''/a'' (fs_new h))"

lemma fs_with_fields:
  "path_for_ino (fs_with h) 2 = Some ''/a''" "dirty (fs_with h) = Map.empty" "next_ino (fs_with h) = 3" "fs_db (fs_with h) = h"
  by (simp_all add: fs_with_def ino_for_path_def fs_new_def FUSE_ROOT_ID_def path_for_ino_def Let_def)

lemma fs_with_good: "good_db t n h \<Longrightarrow> good_fs t n (fs_with h)"
proof -
  assume g: "good_db t n h"
  have "ino_for_path ''/a'' (fs_new h) = (fst (ino_for_path ''/a'' (fs_new h)), fs_with h)" by (simp add: fs_with_def)
  from ino_for_path_grown [OF inodes_ok_new _ _ _ this] g show ?thesis
    by (simp add: good_fs_def grown_def fs_new_def FUSE_ROOT_ID_def utf8_string_ascii)
qed

lemma db_with_value:
  assumes "wf_value v" "canonical v"
  obtains n h where "good_db (empty_tree([''a''] \<mapsto> ValN v)) n h" "unat n + 2 < 2 ^ 64"
proof -
  let ?t = "empty_tree([''a''] \<mapsto> ValN v)"
  have st: "memory_inv mem_root" "stores empty_tree 2 (bt_get (mem_map mem_root))" using mem_root_state by (simp_all add: ns_state_def)
  have sp: "spec_set (DbPath [''a'']) v empty_tree = Inr ?t"
    using canon_id [OF assms(2)] by (simp add: spec_set_def spec_parent_def is_root_def empty_tree_def)
  obtain s where run: "db_set memory_storage (DbPath [''a'']) v mem_root = (Inr (), s)"
    using mem_set_ok [OF mem_root_state _ _ assms(1) sp] by auto
  obtain n where n: "memory_inv s" "n \<in> {2, 2 + 1}" "stores ?t n (bt_get (mem_map s))"
    using mem.set_tree [OF st _ _ assms(1) run] sp by auto
  have "good_db ?t n \<lparr>hd_db = wal_root\<lparr>wal_map := mem_map s\<rparr>, poisoned = False\<rparr>"
    using n(1,3) by (simp add: good_db_def ns_state_def wal_map_ok_def memory_inv_def)
  moreover have "unat n + 2 < 2 ^ 64" using n(2) by auto
  ultimately show thesis by (rule that)
qed

section \<open>Every call\<close>



section \<open>Writing\<close>

lemma write_at_empty: "write_at k data [] = replicate k 0 @ data"
  by (simp add: write_at_def)

lemma flush_scalar:
  assumes g: "good_fs t n fs" and n: "n \<noteq> - 1" and ps: "path_for_ino fs ino = Some ps" "path_parse ps = Inr path"
    and old: "t (segments path) = Some (ValN (Scalar old))" and data: "dirty fs ino = Some data" "len_ok data"
  shows "\<exists>reply fs' n'. fuse_flush ino fs = (Returns reply, fs') \<and> dirty fs' ino = None \<and> path_for_ino fs' ino = Some ps
    \<and> (case parse_scalar_text old data of
         Inl _ \<Rightarrow> reply = ReplyError EINVAL \<and> good_fs t n' fs'
       | Inr s \<Rightarrow> typename (Scalar s) = typename (Scalar old)
           \<and> (reply = ReplyOk \<and> good_fs (t(segments path \<mapsto> ValN (Scalar s))) n' fs'
              \<or> reply = ReplyError EIO \<and> (good_fs t n' fs' \<or> good_fs (t(segments path \<mapsto> ValN (Scalar s))) n' fs')))"
proof -
  define fs0 where "fs0 = fs\<lparr>dirty := (dirty fs)(ino := None)\<rparr>"
  have g0: "good_fs t n fs0" using g by (simp add: fs0_def)
  have f0: "dirty fs0 ino = None" "path_for_ino fs0 ino = Some ps" using ps by (simp_all add: fs0_def path_for_ino_def)
  note c = commit_dirty_tree [OF g data(1) ps(1) fs0_def]
  show ?thesis
  proof (cases "parse_scalar_text old data")
    case (Inl e)
    then have "fuse_flush ino fs = (Returns (ReplyError EINVAL), fs0)"
      using c ps(2) old by (simp add: fuse_flush_def empty_reply_def)
    then show ?thesis using Inl g0 f0 by auto
  next
    case (Inr s)
    have s: "wf_value (Scalar s)" "canonical (Scalar s)" "typename (Scalar s) = typename (Scalar old)"
      using parse_scalar_text_ok [OF Inr data(2)] by simp_all
    obtain r d where run: "db_set wal_storage path (Scalar s) (hd_db (fs_db fs0)) = (r, d)" by fastforce
    have tv: "tree_value t path = Some (Scalar old)" using old by (simp add: tree_value_def)
    obtain t' n' where o: "good_fs t' n' (put_db d fs0)"
        "if is_ok r then t' = t(segments path \<mapsto> ValN (Scalar s)) else t' = t \<or> t' = t(segments path \<mapsto> ValN (Scalar s))"
      using set_existing [OF g0 n tv s(1,2) run] by blast
    have "fuse_flush ino fs = (Returns (if is_ok r then ReplyOk else ReplyError EIO), put_db d fs0)"
      using c ps(2) old Inr run by (cases r) (simp_all add: fuse_flush_def commit_value_def empty_reply_def)
    moreover have "dirty (put_db d fs0) ino = None" "path_for_ino (put_db d fs0) ino = Some ps"
      using f0 by (simp_all add: path_for_ino_def)
    ultimately show ?thesis using Inr s(3) o
      by (intro exI [of _ "if is_ok r then ReplyOk else ReplyError EIO"] exI [of _ "put_db d fs0"] exI [of _ n']) auto
  qed
qed

lemma write_clean:
  assumes "dirty fs ino = None" "unat offset + length data < 2 ^ 64"
  shows "fuse_write ino offset data fs
    = (Returns (ReplyWritten (len_u32 data)), fs\<lparr>dirty := (dirty fs)(ino \<mapsto> replicate (unat offset) 0 @ data)\<rparr>)"
  using assms by (simp add: fuse_write_def Let_def write_at_empty)

lemma read_scalar:
  assumes "good_fs t n fs" "path_for_ino fs ino = Some ps" "path_parse ps = Inr path"
    and "t (segments path) = Some (ValN (Scalar s))" "dirty fs ino = None"
  shows "fuse_read hash ino offset len fs = (Returns (ReplyData (data_slice offset len (scalar_bytes s))), fs)"
  using assms by (simp add: fuse_read_def good_fs_locked [OF assms(1)] value_of_tree [OF assms(1)] tree_value_def)

lemma fits_small: "len_ok data \<Longrightarrow> length data < 2 ^ 64"
  by (simp add: len_ok_def)

text \<open>
  C17. Writing a whole scalar through the mount.  After a write at offset 0 reads see the written bytes.
  The flush stores them in the type of the old value, or replies \<open>EINVAL\<close> and changes nothing if the
  text does not read as that type; once it replies ok the tree holds the new value, all other paths are
  unchanged, and reads see its text, which for strings and byte strings is exactly what was written.
\<close>

theorem fuse_write_flush_read:
  assumes g: "good_fs t n fs" and n: "n \<noteq> - 1" and ps: "path_for_ino fs ino = Some ps" "path_parse ps = Inr path"
    and old: "t (segments path) = Some (ValN (Scalar old))" and clean: "dirty fs ino = None" and data: "len_ok data"
  shows "\<exists>fs1 reply fs2 n'. fuse_write ino 0 data fs = (Returns (ReplyWritten (len_u32 data)), fs1)
    \<and> (\<forall>offset len. fuse_read hash ino offset len fs1 = (Returns (ReplyData (data_slice offset len data)), fs1))
    \<and> fuse_flush ino fs1 = (Returns reply, fs2)
    \<and> (case parse_scalar_text old data of
         Inl _ \<Rightarrow> reply = ReplyError EINVAL \<and> good_fs t n' fs2
       | Inr s \<Rightarrow> typename (Scalar s) = typename (Scalar old)
           \<and> (typename (Scalar old) \<in> {''string'', ''bytes''} \<longrightarrow> scalar_bytes s = data)
           \<and> (reply = ReplyOk \<and> good_fs (t(segments path \<mapsto> ValN (Scalar s))) n' fs2
                \<and> (\<forall>offset len. fuse_read hash ino offset len fs2 = (Returns (ReplyData (data_slice offset len (scalar_bytes s))), fs2))
              \<or> reply = ReplyError EIO \<and> (good_fs t n' fs2 \<or> good_fs (t(segments path \<mapsto> ValN (Scalar s))) n' fs2)))"
proof -
  define fs1 where "fs1 = fs\<lparr>dirty := (dirty fs)(ino \<mapsto> data)\<rparr>"
  have w: "fuse_write ino 0 data fs = (Returns (ReplyWritten (len_u32 data)), fs1)"
    using write_clean [OF clean, of 0 data] fits_small [OF data] by (simp add: fs1_def)
  have r: "fuse_read hash ino offset len fs1 = (Returns (ReplyData (data_slice offset len data)), fs1)" for offset len
    by (simp add: fs1_def fuse_read_def)
  have "good_fs t n fs1" "path_for_ino fs1 ino = Some ps" "dirty fs1 ino = Some data" using g ps(1) by (simp_all add: fs1_def path_for_ino_def)
  from flush_scalar [OF this(1) n this(2) ps(2) old this(3) data]
  obtain reply fs2 n' where f: "fuse_flush ino fs1 = (Returns reply, fs2)" "dirty fs2 ino = None" "path_for_ino fs2 ino = Some ps"
      "case parse_scalar_text old data of
         Inl _ \<Rightarrow> reply = ReplyError EINVAL \<and> good_fs t n' fs2
       | Inr s \<Rightarrow> typename (Scalar s) = typename (Scalar old)
           \<and> (reply = ReplyOk \<and> good_fs (t(segments path \<mapsto> ValN (Scalar s))) n' fs2
              \<or> reply = ReplyError EIO \<and> (good_fs t n' fs2 \<or> good_fs (t(segments path \<mapsto> ValN (Scalar s))) n' fs2))" by blast
  have exact: "scalar_bytes s = data" if "parse_scalar_text old data = Inr s" "typename (Scalar old) \<in> {''string'', ''bytes''}" for s
    using that by (cases old) (auto simp: and_then_Inr_iff from_utf8_Some_iff ok_or_def split: option.splits)
  have "fuse_read hash ino offset len fs2 = (Returns (ReplyData (data_slice offset len (scalar_bytes s))), fs2)"
    if "good_fs (t(segments path \<mapsto> ValN (Scalar s))) n' fs2" for s offset len
    using read_scalar [OF that f(3) ps(2) _ f(2)] by simp
  then show ?thesis using w r f exact by (intro exI [of _ fs1] exI [of _ reply] exI [of _ fs2] exI [of _ n']) (auto split: sum.splits)
qed


lemma parse_slash_a: "path_parse ''/a'' = Inr (DbPath [''a''])"
  by code_simp

theorem fuse_write_flush_read_witness:
  "\<exists>fs t n. good_fs t n fs \<and> t [''a''] = Some (ValN (value_bool True)) \<and>
    (\<exists>fs1 reply fs2 n'. fuse_write 2 0 (as_bytes ''0'') fs = (Returns (ReplyWritten 1), fs1)
      \<and> fuse_flush 2 fs1 = (Returns reply, fs2)
      \<and> (reply = ReplyOk \<and> good_fs (t([''a''] \<mapsto> ValN (value_bool False))) n' fs2 \<or> reply = ReplyError EIO))"
proof -
  have "wf_value (value_bool True)" "canonical (value_bool True)" by (simp_all add: value_ctor_defs)
  then obtain n h where h: "good_db (empty_tree([''a''] \<mapsto> ValN (value_bool True))) n h" "unat n + 2 < 2 ^ 64" by (rule db_with_value)
  have p: "parse_scalar_text (Bool True) (as_bytes ''0'') = Inr (Bool False)" by code_simp
  have "n \<noteq> - 1" "len_ok (as_bytes ''0'')" "len_u32 (as_bytes ''0'') = 1" using n_bounds [OF h(2)] by (simp_all add: len_ok_def len_u32_def)
  from fuse_write_flush_read [OF fs_with_good [OF h(1)] this(1) fs_with_fields(1) parse_slash_a _ _ this(2), of "Bool True" "\<lambda>_. 0"] this(3)
  show ?thesis using p fs_with_good [OF h(1)]
    by (intro exI [of _ "fs_with h"] exI [of _ "empty_tree([''a''] \<mapsto> ValN (value_bool True))"] exI [of _ n])
      (auto simp: fs_with_fields value_ctor_defs)
qed

text \<open>
  C18. A partial overwrite loses the rest of the file.  A write into the middle of an unmodified byte
  string starts from an empty buffer, so the flush stores zeros in front of the written bytes and
  nothing behind them, where a file system would keep the old bytes on both sides.
\<close>

theorem partial_write_loses_content:
  assumes g: "good_fs t n fs" and n: "n \<noteq> - 1" and ps: "path_for_ino fs ino = Some ps" "path_parse ps = Inr path"
    and old: "t (segments path) = Some (ValN (Scalar (Bytes b)))" and clean: "dirty fs ino = None"
    and inside: "unat offset + length data \<le> length b" and fits: "len_ok b"
  shows "\<exists>fs1 reply fs2 n'. fuse_write ino offset data fs = (Returns (ReplyWritten (len_u32 data)), fs1)
    \<and> fuse_flush ino fs1 = (Returns reply, fs2)
    \<and> (reply = ReplyOk \<and> good_fs (t(segments path \<mapsto> ValN (Scalar (Bytes (replicate (unat offset) 0 @ data))))) n' fs2
       \<or> reply = ReplyError EIO)"
proof -
  let ?new = "replicate (unat offset) 0 @ data"
  define fs1 where "fs1 = fs\<lparr>dirty := (dirty fs)(ino \<mapsto> ?new)\<rparr>"
  have w: "fuse_write ino offset data fs = (Returns (ReplyWritten (len_u32 data)), fs1)"
    using write_clean [OF clean, of offset data] inside fits_small [OF fits] by (simp add: fs1_def)
  have "good_fs t n fs1" "path_for_ino fs1 ino = Some ps" "dirty fs1 ino = Some ?new" "len_ok ?new"
    using g ps(1) inside fits by (simp_all add: fs1_def path_for_ino_def len_ok_def)
  from flush_scalar [OF this(1) n this(2) ps(2) old this(3,4)] w show ?thesis by auto
qed

theorem partial_write_loses_content_witness:
  "\<exists>fs t n. good_fs t n fs \<and> t [''a''] = Some (ValN (value_bytes [1, 2, 3])) \<and>
    (\<exists>fs1 reply fs2 n'. fuse_write 2 1 [9] fs = (Returns (ReplyWritten 1), fs1) \<and> fuse_flush 2 fs1 = (Returns reply, fs2)
      \<and> (reply = ReplyOk \<and> good_fs (t([''a''] \<mapsto> ValN (value_bytes [0, 9]))) n' fs2 \<or> reply = ReplyError EIO))"
proof -
  have "wf_value (value_bytes [1, 2, 3])" "canonical (value_bytes [1, 2, 3])" by (simp_all add: value_ctor_defs len_ok_def)
  then obtain n h where h: "good_db (empty_tree([''a''] \<mapsto> ValN (value_bytes [1, 2, 3]))) n h" "unat n + 2 < 2 ^ 64" by (rule db_with_value)
  have "n \<noteq> - 1" "len_u32 [9 :: u8] = 1" "len_ok [1 :: u8, 2, 3]" using n_bounds [OF h(2)] by (simp_all add: len_u32_def len_ok_def)
  from partial_write_loses_content [OF fs_with_good [OF h(1)] this(1) fs_with_fields(1) parse_slash_a, of "[1, 2, 3]" 1 "[9]"] this(2,3)
  show ?thesis using fs_with_good [OF h(1)]
    by (intro exI [of _ "fs_with h"] exI [of _ "empty_tree([''a''] \<mapsto> ValN (value_bytes [1, 2, 3]))"] exI [of _ n])
      (auto simp: fs_with_fields value_ctor_defs)
qed

section \<open>Names\<close>

text \<open>The attributes of a path: of the node stored there, or of a member of the value at its parent.\<close>

definition entry_attr :: "(bytes \<Rightarrow> u64) \<Rightarrow> ns_tree \<Rightarrow> DbPath \<Rightarrow> FileAttr option" where
  "entry_attr hash t q =
     (case t (segments q) of
        Some nd \<Rightarrow> Some (attr_for (node_kind nd) (e_value (spec_entry q nd)))
      | None \<Rightarrow> Option.bind (Option.bind (path_parent q) (tree_value t)) (\<lambda>v. project_child_attr hash v (last_name q)))"

lemma getattr_tree:
  assumes "good_fs t n fs" "path_for_ino fs ino = Some ps" "path_parse ps = Inr q" "dirty fs ino = None"
  shows "fuse_getattr hash ino fs = (case entry_attr hash t q of
      Some attr \<Rightarrow> (Returns (ReplyAttr (attr\<lparr>fa_ino := ino\<rparr>)), fs) | None \<Rightarrow> fail ENOENT fs)"
  using assms
  by (simp add: fuse_getattr_def good_fs_locked [OF assms(1)] db_get_good [OF assms(1)] parent_value_tree [OF assms(1)] entry_attr_def spec_entry_def
      split: option.split)

lemma lookup_tree:
  assumes g: "good_fs t n fs" and pp: "path_for_ino fs parent = Some pp" and nm: "from_utf8 name = Some nm" "component_name (as_bytes nm)"
  shows "fuse_lookup hash parent name fs = (case path_parse (child_path pp nm) of
      Inl _ \<Rightarrow> fail ENOENT fs
    | Inr q \<Rightarrow> (case entry_attr hash t q of
        Some attr \<Rightarrow> give_entry ReplyEntry attr (child_path pp nm) fs | None \<Rightarrow> fail ENOENT fs))"
proof (cases "path_parse (child_path pp nm)")
  case (Inl e)
  then show ?thesis using pp nm by (simp add: fuse_lookup_def at_child_def good_fs_locked [OF g] Let_def)
next
  case (Inr q)
  have "nm \<noteq> []" "slash \<notin> set nm" using nm(2) by (auto simp: component_name_def as_bytes_def)
  from child_segments [OF Inr child_utf8(3) [OF g pp nm(1)] this]
  have p: "path_parse pp = Inr (DbPath (butlast (segments q)))" and q: "segments q = butlast (segments q) @ [nm]" by simp_all
  let ?p = "DbPath (butlast (segments q))"
  have par: "path_parent q = Some ?p" "last_name q = nm"
    using q by (metis append_is_Nil_conv not_Cons_self2 path_parent_def, metis last_name_def last_snoc path_name_def snoc_eq_iff_butlast option.simps(5))
  have leaf: "t (segments q) = None" if "tree_value t ?p = Some v" for v
  proof -
    have "t (butlast (segments q)) = Some (ValN v)" using that by (auto simp: tree_value_def split: option.splits ns_node.splits)
    from stores_tree(4) [OF good_fs_state(4) [OF g] this, of "[]" nm] q show ?thesis by simp
  qed
  show ?thesis
  proof (cases "tree_value t ?p")
    case None
    then show ?thesis using pp nm Inr p par
      by (simp add: fuse_lookup_def at_child_def good_fs_locked [OF g] Let_def value_of_tree [OF g] db_get_good [OF g] entry_attr_def spec_entry_def
          split: option.split)
  next
    case (Some v)
    then show ?thesis using pp nm Inr p par leaf [OF Some]
      by (simp add: fuse_lookup_def at_child_def good_fs_locked [OF g] Let_def value_of_tree [OF g] db_get_good [OF g] entry_attr_def
          split: option.split)
  qed
qed

text \<open>
  A lookup and the attributes agree.  When a lookup of a name answers with an entry, the entry's
  inode stands for the path of that name from then on, looking the name up again gives the same inode,
  and asking for the attributes of the inode gives the same attributes, for stored nodes and for
  members of values alike.
\<close>

theorem lookup_getattr_agree:
  assumes g: "good_fs t n fs" and ok: "call_ok hash (OpLookup parent name) fs t n"
    and look: "fuse_lookup hash parent name fs = (Returns (ReplyEntry a), fs1)" and clean: "dirty fs (fa_ino a) = None"
  shows "fuse_getattr hash (fa_ino a) fs1 = (Returns (ReplyAttr a), fs1)
    \<and> fuse_lookup hash parent name fs1 = (Returns (ReplyEntry a), fs1)"
proof -
  obtain pp nm where pn: "path_for_ino fs parent = Some pp" "from_utf8 name = Some nm"
    using look by (auto simp: fuse_lookup_def at_child_def split: option.splits)
  define child where "child = child_path pp nm"
  have name: "component_name (as_bytes nm)" "utf8_string nm" using ok pn(2) by (simp_all add: from_utf8_Some_iff)
  note lt = lookup_tree [OF _ _ pn(2) name(1)]
  obtain q attr where q: "path_parse child = Inr q" "entry_attr hash t q = Some attr" "give_entry ReplyEntry attr child fs = (Returns (ReplyEntry a), fs1)"
    using look lt [OF g pn(1), of hash] unfolding child_def by (auto split: sum.splits option.splits)
  obtain ino where get: "ino_for_path child fs = (ino, fs1)" and a: "a = attr\<lparr>fa_ino := ino\<rparr>"
    using q(3) by (auto simp: give_entry_def split: prod.splits)
  have room: "unat (next_ino fs) + 1 < 2 ^ 64" using ok by simp
  note gr = ino_for_path_grown [OF good_fs_state(1) [OF g] child_utf8(1) [OF g pn] child_path_ne room get [unfolded child_def], folded child_def]
  have g1: "good_fs t n fs1" by (rule good_fs_grown [OF g gr(1,3)])
  have pp1: "path_for_ino fs1 parent = Some pp" using gr(1) pn(1) by (metis domI grown_def map_le_def path_for_ino_def)
  have child1: "path_for_ino fs1 ino = Some child" using gr(2) inodes_okD(1) [OF good_fs_state(1) [OF g1]] by (simp add: path_for_ino_def)
  have "fuse_getattr hash ino fs1 = (Returns (ReplyAttr a), fs1)"
    using getattr_tree [OF g1 child1 q(1)] clean gr(4) a q(2) by simp
  moreover have "give_entry ReplyEntry attr child fs1 = (Returns (ReplyEntry a), fs1)"
    using gr(2) a by (simp add: give_entry_def ino_for_path_def)
  ultimately show ?thesis using lt [OF g1 pp1, of hash] q(1,2) a unfolding child_def by simp
qed


theorem lookup_getattr_agree_witness:
  "\<exists>fs t n a fs1. good_fs t n fs \<and> fuse_lookup (\<lambda>_. 0) 1 (as_bytes ''a'') fs = (Returns (ReplyEntry a), fs1) \<and> fa_kind a = RegularFile
    \<and> fuse_getattr (\<lambda>_. 0) (fa_ino a) fs1 = (Returns (ReplyAttr a), fs1)"
proof -
  have "wf_value value_null" "canonical value_null" by (simp_all add: value_ctor_defs)
  then obtain n h where h: "good_db (empty_tree([''a''] \<mapsto> ValN value_null)) n h" "unat n + 2 < 2 ^ 64" by (rule db_with_value)
  let ?fs = "fs_with h" and ?t = "empty_tree([''a''] \<mapsto> ValN value_null)"
  have g: "good_fs ?t n ?fs" by (rule fs_with_good [OF h(1)])
  have ok: "call_ok (\<lambda>_. 0) (OpLookup 1 (as_bytes ''a'')) ?fs ?t n"
    by (simp add: fs_with_fields component_name_def byte_of_char_def len_ok_def)
  have pp: "path_for_ino ?fs 1 = Some ''/''"
    by (simp add: fs_with_def ino_for_path_def fs_new_def FUSE_ROOT_ID_def path_for_ino_def Let_def)
  have u: "from_utf8 (as_bytes ''a'') = Some ''a''" by code_simp
  have p: "path_parse (child_path ''/'' ''a'') = Inr (DbPath [''a''])" using parse_slash_a by (simp add: child_path_def)
  have "ino_for_path (child_path ''/'' ''a'') ?fs = (2, ?fs)"
    by (simp add: fs_with_def ino_for_path_def fs_new_def FUSE_ROOT_ID_def Let_def child_path_def)
  then have "fuse_lookup (\<lambda>_. 0) 1 (as_bytes ''a'') ?fs
      = (Returns (ReplyEntry ((attr_for EntryValue (Some value_null))\<lparr>fa_ino := 2\<rparr>)), ?fs)" (is "_ = (Returns (ReplyEntry ?a), _)")
    using lookup_tree [OF g pp u, of "\<lambda>_. 0"] p ok by (simp add: entry_attr_def give_entry_def spec_entry_def)
  moreover from lookup_getattr_agree [OF g ok this] have "fuse_getattr (\<lambda>_. 0) (fa_ino ?a) ?fs = (Returns (ReplyAttr ?a), ?fs)"
    by (simp add: fs_with_fields)
  ultimately show ?thesis using g by (intro exI [of _ ?fs] exI [of _ ?t] exI [of _ n] exI [of _ ?a]) (simp add: attr_for_def value_ctor_defs)
qed

text \<open>
  A string key of a tree that reads as an integer cannot be removed through the mount: a lookup of
  its name finds it, but the removal only looks for the integer key, goes on to delete a path below the
  tree that does not exist, replies \<open>EIO\<close> and leaves the tree as it is.
\<close>

theorem integer_like_tree_key_not_unlinked:
  assumes g: "good_fs t n fs" and n: "unat n + 2 < 2 ^ 64" and room: "unat (next_ino fs) + 1 < 2 ^ 64"
    and pp: "path_for_ino fs parent = Some pp" "path_parse pp = Inr p" "plain_path fs parent"
    and tree: "t (segments p) = Some (ValN (Tree m))"
    and nm: "from_utf8 name = Some nm" "component_name name" "parse_i64 nm = Inr k"
    and key: "bt_get m (String nm) = Some c" "bt_get m (IntV k) = None"
  shows "(\<exists>a fs1. fuse_lookup hash parent name fs = (Returns (ReplyEntry a), fs1))
    \<and> (\<exists>fs2 n'. fuse_unlink hash parent name fs = (Returns (ReplyError EIO), fs2) \<and> good_fs t n' fs2)"
proof
  have name: "component_name (as_bytes nm)" using nm by (simp add: from_utf8_Some_iff)
  have child: "path_parse (child_path pp nm) = Inr (DbPath (segments p @ [nm]))"
    using plain_child [OF pp(2) _ name] pp(1,3) by (simp add: plain_path_def)
  have tv: "tree_value t p = Some (Tree m)" using tree by (simp add: tree_value_def)
  have none: "t (segments p @ [nm]) = None" using stores_tree(4) [OF good_fs_state(4) [OF g] tree, of "[]"] by simp
  have "entry_attr hash t (DbPath (segments p @ [nm])) = Some (attr_for EntryValue (Some c))"
    using none tv key nm(3) by (simp add: entry_attr_def path_parent_def last_name_def path_name_def project_child_attr_def)
  then show "\<exists>a fs1. fuse_lookup hash parent name fs = (Returns (ReplyEntry a), fs1)"
    using lookup_tree [OF g pp(1) nm(1) name, of hash] child give_entry_good [OF g child_utf8(1) [OF g pp(1) nm(1)] child_path_ne room]
    by fastforce
  have "project_unlink hash (Tree m) nm = None" using key(2) nm(3) by (simp add: remove_some_def)
  then have "spec_unlink hash parent name fs t = Inl EIO"
    using pp(1,2) nm(1) tv below_value [OF g tv child] by (simp add: spec_unlink_def spec_child_def tree_update_def)
  then show "\<exists>fs2 n'. fuse_unlink hash parent name fs = (Returns (ReplyError EIO), fs2) \<and> good_fs t n' fs2"
    using unlink_answers [OF g n nm(2) pp(3), of hash] by (auto simp: answers_def fs_outcome_def)
qed

theorem integer_like_tree_key_not_unlinked_witness:
  "\<exists>fs t n. good_fs t n fs \<and> t [''a''] = Some (ValN (Tree [(String ''5'', value_null)]))
    \<and> (\<exists>a fs1. fuse_lookup (\<lambda>_. 0) 2 (as_bytes ''5'') fs = (Returns (ReplyEntry a), fs1))
    \<and> (\<exists>fs2 n'. fuse_unlink (\<lambda>_. 0) 2 (as_bytes ''5'') fs = (Returns (ReplyError EIO), fs2) \<and> good_fs t n' fs2)"
proof -
  let ?m = "[(String ''5'', value_null)]"
  have "wf_value (Tree ?m)" "canonical (Tree ?m)" by (simp_all add: value_ctor_defs len_ok_def utf8_string_ascii)
  then obtain n h where h: "good_db (empty_tree([''a''] \<mapsto> ValN (Tree ?m))) n h" "unat n + 2 < 2 ^ 64" by (rule db_with_value)
  have nm: "from_utf8 (as_bytes ''5'') = Some ''5''" "parse_i64 ''5'' = Inr 5" by code_simp+
  have "component_name (as_bytes ''5'')" by (simp add: component_name_def byte_of_char_def len_ok_def)
  moreover have "plain_path (fs_with h) 2" by (simp add: plain_path_def fs_with_fields)
  moreover have "bt_get ?m (String ''5'') = Some value_null" "bt_get ?m (IntV 5) = None" by (simp_all add: bt_get_def)
  ultimately show ?thesis
    using integer_like_tree_key_not_unlinked [OF fs_with_good [OF h(1)] h(2) _ fs_with_fields(1) parse_slash_a, of ?m "as_bytes ''5''" "''5''" 5 value_null "\<lambda>_. 0"]
      nm fs_with_good [OF h(1)]
    by (intro exI [of _ "fs_with h"] exI [of _ "empty_tree([''a''] \<mapsto> ValN (Tree ?m))"] exI [of _ n]) (simp add: fs_with_fields)
qed

lemma not_whitespace: "is_ascii_digit [c] \<or> c = CHR ''-'' \<Longrightarrow> \<not> is_whitespace [c]"
proof -
  assume a: "is_ascii_digit [c] \<or> c = CHR ''-''"
  have "unat (byte_of_char c) = of_char c" by (simp add: byte_of_char_def unat_of_nat take_bit_nat_eq_self)
  moreover have "(45 :: nat) \<le> of_char c" using a by auto
  ultimately show ?thesis by (auto simp: is_whitespace_def)
qed

lemma trim_show_int: "trim (show_int i) = show_int i"
proof (rule trim_id, rule disjI2)
  have c: "chars (show_int i) = map (\<lambda>c. [c]) (show_int i)" by (rule chars_ascii [OF show_int_ascii])
  have "is_ascii_digit [hd (show_int i)] \<or> hd (show_int i) = CHR ''-''" using hd_show_nat by (simp add: show_int_def)
  moreover have "is_ascii_digit [last (show_int i)]"
    using show_nat_digits [OF last_in_set [OF show_nat_ne]] by (simp add: show_int_def)
  ultimately show "\<not> is_whitespace (hd (chars (show_int i))) \<and> \<not> is_whitespace (last (chars (show_int i)))"
    using not_whitespace by (simp add: c hd_map last_map)
qed

text \<open>
  The text of a scalar reads back.  The bytes that the mount shows for a scalar other than a float are
  accepted for any scalar of the same type and give that scalar again.
\<close>

theorem scalar_text_roundtrip:
  assumes "wf_scalar s" and "typename (Scalar s) = typename (Scalar old)" and "typename (Scalar s) \<noteq> ''float''"
  shows "parse_scalar_text old (scalar_bytes s) = Inr s"
proof (cases s)
  case (IntV n)
  then obtain k where "old = IntV k" using assms(2) by (cases old) auto
  then show ?thesis using IntV utf8_ascii [OF show_int_ascii] by (simp add: trim_show_int)
next
  case (Bool b)
  then obtain k where "old = Bool k" using assms(2) by (cases old) auto
  moreover have "trim ''true'' = ''true''" "trim ''false'' = ''false''" by code_simp+
  ultimately show ?thesis using Bool by (auto simp: utf8_string_ascii simp del: as_bytes_Cons)
next
  case Null
  then have "old = Null" using assms(2) by (cases old) auto
  moreover have "trim ''null'' = ''null''" by code_simp
  ultimately show ?thesis using Null by (simp add: utf8_string_ascii del: as_bytes_Cons)
qed (use assms in \<open>cases old; simp\<close>)+

theorem scalar_text_roundtrip_witness:
  "parse_scalar_text (IntV 0) (scalar_bytes (IntV (- 42))) = Inr (IntV (- 42))"
  by (rule scalar_text_roundtrip) simp_all

end
