(* ===== verification/Cli.thy ===== *)
theory Cli
  imports Server
begin

text \<open>
  The command line (\<open>crates/alefsdb/src/main.rs\<close>) and the one-shot call of the client: every command
  but \<open>serve\<close> becomes one request, which goes to the daemon if its socket exists and is served in the
  process otherwise; the response is printed.  Files, the socket and the JSON of \<open>serde_json\<close> are
  arguments.
\<close>

section \<open>The one-shot call\<close>

fun show_client_error :: "ClientError \<Rightarrow> string" where
  "show_client_error (CeIo m) = ''client i/o: '' @ m"
| "show_client_error (CeProtocol m) = ''protocol: '' @ m"
| "show_client_error (CeRemote m) = m"

text \<open>\<open>connected\<close> is the result of \<open>UnixStream::connect\<close>: the text of its error, or the socket.\<close>

definition rpc_call :: "(Request \<Rightarrow> string + bytes) \<Rightarrow> (bytes \<Rightarrow> string + Response) \<Rightarrow> string + Sock \<Rightarrow> Request
    \<Rightarrow> ClientError + Response" where
  "rpc_call to_vec from_slice connected request =
     (case connected of
        Inl e \<Rightarrow> Inl (CeIo e)
      | Inr c \<Rightarrow> fst (client_call to_vec from_slice request c))"

section \<open>Commands\<close>

text \<open>The last argument of each is \<open>--direct\<close>.\<close>

datatype Cmd =
    CmdStats bool
  | CmdTxn string bool
  | CmdMkdir string bool
  | CmdSet string string string bool \<comment> \<open>path, type and value\<close>
  | CmdGet string bool
  | CmdLs string bool
  | CmdRm string bool
  | CmdHset string string string string bool \<comment> \<open>path, key, type and value\<close>
  | CmdLpush string string string bool
  | CmdSadd string string string bool
  | CmdTset string string string string bool
  | CmdQuery string bool
  | CmdCompact bool
  | CmdExport "string option" bool
  | CmdImport string bool

text \<open>What a command finds and leaves: the data directory, the socket in it, files, and its output.\<close>

record Host =
  ho_disk :: Disk
  ho_socket :: "(string + Sock) option" \<comment> \<open>\<open>None\<close>: \<open>alefs.sock\<close> does not exist\<close>
  ho_read :: "string \<Rightarrow> string + string" \<comment> \<open>\<open>read_to_string\<close>\<close>
  ho_write :: "string \<Rightarrow> string \<Rightarrow> string + unit" \<comment> \<open>\<open>fs::write\<close>\<close>
  ho_written :: "(string \<times> string) list"
  ho_out :: "string list" \<comment> \<open>the lines printed\<close>

record Serde =
  request_to_vec :: "Request \<Rightarrow> string + bytes"
  response_from_slice :: "bytes \<Rightarrow> string + Response"
  ops_from_str :: "string \<Rightarrow> string + Request list"
  debug_response :: "Response \<Rightarrow> string"

definition cli_call :: "nat \<Rightarrow> DebugText \<Rightarrow> Instant \<Rightarrow> Serde \<Rightarrow> bool \<Rightarrow> Request \<Rightarrow> Host \<Rightarrow> (string + Response) run \<times> Host" where
  "cli_call fuel dbg now sd direct req h =
     (case (direct, ho_socket h) of
        (False, Some connected) \<Rightarrow>
          (Returns (map_err show_client_error (rpc_call (request_to_vec sd) (response_from_slice sd) connected req)), h)
      | _ \<Rightarrow>
          (case open_db fuel (ho_disk h) of
             None \<Rightarrow> (Unfinished, h)
           | Some (Inl e, d) \<Rightarrow> (Returns (Inl (show_serve_error e)), h\<lparr>ho_disk := d\<rparr>)
           | Some (Inr db, d) \<Rightarrow>
               (case dispatch fuel dbg now req db of (r, db) \<Rightarrow> (map_run Inr r, h\<lparr>ho_disk := disk (hd_db db)\<rparr>))))"

definition TAB :: string where
  "TAB = [CHR 0x09]"

fun print_resp :: "Response \<Rightarrow> string + string list" where
  "print_resp (RsOk message) = Inr [message]"
| "print_resp (RsValue type_name display) = Inr [type_name @ '' '' @ display]"
| "print_resp (RsList es) = Inr (map (\<lambda>e. le_kind e @ TAB @ le_name e) es)"
| "print_resp (RsQuery hits) = Inr (map (\<lambda>h. qh_path h @ TAB @ qh_type_name h) hits)"
| "print_resp (RsExport json) = Inr [json]"
| "print_resp (RsStats uptime_sec reqs muts qs errs keys_approx) =
     Inr [''uptime_sec='' @ show_nat (unat uptime_sec), ''requests='' @ show_nat (unat reqs), ''mutations='' @ show_nat (unat muts),
          ''queries='' @ show_nat (unat qs), ''errors='' @ show_nat (unat errs), ''keys_approx='' @ show_nat (unat keys_approx)]"
| "print_resp (RsErr message) = Inl message"

text \<open>The request of a command, with its \<open>--direct\<close> flag.\<close>

fun cmd_request :: "Serde \<Rightarrow> Host \<Rightarrow> Cmd \<Rightarrow> string + bool \<times> Request" where
  "cmd_request sd h (CmdStats direct) = Inr (direct, RqStats)"
| "cmd_request sd h (CmdTxn file direct) =
     and_then (ho_read h file) (\<lambda>text.
     and_then (map_err (\<lambda>e. ''txn json: '' @ e) (ops_from_str sd text)) (\<lambda>ops. Inr (direct, RqBatch ops)))"
| "cmd_request sd h (CmdMkdir path direct) = Inr (direct, RqMkdir path)"
| "cmd_request sd h (CmdSet path ty val direct) = Inr (direct, RqSet path ty val)"
| "cmd_request sd h (CmdGet path direct) = Inr (direct, RqGet path)"
| "cmd_request sd h (CmdLs path direct) = Inr (direct, RqLs path)"
| "cmd_request sd h (CmdRm path direct) = Inr (direct, RqRm path)"
| "cmd_request sd h (CmdHset path key ty val direct) = Inr (direct, RqHset path key ty val)"
| "cmd_request sd h (CmdLpush path ty val direct) = Inr (direct, RqLpush path ty val)"
| "cmd_request sd h (CmdSadd path ty val direct) = Inr (direct, RqSadd path ty val)"
| "cmd_request sd h (CmdTset path key ty val direct) = Inr (direct, RqTset path key ty val)"
| "cmd_request sd h (CmdQuery query direct) = Inr (direct, RqQuery query)"
| "cmd_request sd h (CmdCompact direct) = Inr (direct, RqCompact)"
| "cmd_request sd h (CmdExport out direct) = Inr (direct, RqExport)"
| "cmd_request sd h (CmdImport file direct) = and_then (ho_read h file) (\<lambda>json. Inr (direct, RqImport json))"

definition print_lines :: "string list \<Rightarrow> Host \<Rightarrow> Host" where
  "print_lines ls h = h\<lparr>ho_out := ho_out h @ ls\<rparr>"

text \<open>What is done with the response: \<open>export\<close> writes it to a file or prints it, the others print it.\<close>

definition show_export :: "Serde \<Rightarrow> string option \<Rightarrow> Response \<Rightarrow> Host \<Rightarrow> (string + unit) \<times> Host" where
  "show_export sd out resp h =
     (case resp of
        RsExport json \<Rightarrow>
          (case out of
             Some path \<Rightarrow>
               (case ho_write h path json of
                  Inl e \<Rightarrow> (Inl e, h)
                | Inr _ \<Rightarrow> (Inr (), h\<lparr>ho_written := ho_written h @ [(path, json)]\<rparr>))
           | None \<Rightarrow> (Inr (), print_lines [json] h))
      | RsErr message \<Rightarrow> (Inl message, h)
      | other \<Rightarrow> (Inl (''unexpected response: '' @ debug_response sd other), h))"

definition show_response :: "Serde \<Rightarrow> Cmd \<Rightarrow> Response \<Rightarrow> Host \<Rightarrow> (string + unit) \<times> Host" where
  "show_response sd cmd resp h =
     (case cmd of
        CmdExport out _ \<Rightarrow> show_export sd out resp h
      | _ \<Rightarrow> (case print_resp resp of Inl e \<Rightarrow> (Inl e, h) | Inr ls \<Rightarrow> (Inr (), print_lines ls h)))"

definition cli_run :: "nat \<Rightarrow> DebugText \<Rightarrow> Instant \<Rightarrow> Serde \<Rightarrow> Cmd \<Rightarrow> Host \<Rightarrow> (string + unit) run \<times> Host" where
  "cli_run fuel dbg now sd cmd h =
     (case cmd_request sd h cmd of
        Inl e \<Rightarrow> (Returns (Inl e), h)
      | Inr (direct, req) \<Rightarrow>
          (case cli_call fuel dbg now sd direct req h of
             (Returns (Inl e), h) \<Rightarrow> (Returns (Inl e), h)
           | (Returns (Inr resp), h) \<Rightarrow> (case show_response sd cmd resp h of (r, h) \<Rightarrow> (Returns r, h))
           | (Panics, h) \<Rightarrow> (Panics, h)
           | (Unfinished, h) \<Rightarrow> (Unfinished, h)))"

text \<open>\<open>main\<close>: the exit code, with the error on the standard error output.\<close>

definition cli_exit :: "string + unit \<Rightarrow> nat \<times> string list" where
  "cli_exit r = (case r of Inl e \<Rightarrow> (1, [''error: '' @ e]) | Inr _ \<Rightarrow> (0, []))"

end
