(* ===== verification/Cli_Theorems.thy ===== *)
theory Cli_Theorems
  imports Cli Server_Restart
begin

text \<open>
  Whole commands: what \<open>set\<close> stored a later \<open>get\<close> prints, through the log, recovery and the database;
  and a command that goes through the socket shows exactly the response of the daemon's dispatcher.
\<close>

section \<open>Opening an up-to-date directory\<close>

text \<open>A store that a directory holds, with the current version of the type index.\<close>

definition settled :: "ns_tree \<Rightarrow> u64 \<Rightarrow> WalStorage \<Rightarrow> bool" where
  "settled t n s \<longleftrightarrow> wal_inv s \<and> ns_state wal_map wal_map_ok t n s \<and> bt_get (wal_map s) ver_key = Some (u64_to_be INDEX_VER)"

lemma open_settled:
  assumes "settled t n s"
  obtains s1 where "open_db fuel (disk s) = Some (Inr \<lparr>hd_db = s1, poisoned = False\<rparr>, disk s1)" "settled t n s1"
    "wal_map s1 = wal_map s" "wal_open (disk s) = Inr s1"
proof -
  obtain s1 where s1: "wal_open (disk s) = Inr s1" "wal_inv s1" "wal_map s1 = wal_map s"
    using wal_reopen assms by (metis settled_def)
  have st: "wal_map_ok s1" "stores t n (bt_get (wal_map s1))" using assms s1(3) by (simp_all add: settled_def ns_state_def wal_map_ok_def)
  obtain T where T: "ns_rep T n (bt_get (wal_map s1))" using st(2) by (auto simp: stores_def)
  have "bt_get (wal_map s1) (node_key ROOT_ID) \<noteq> None" "bt_get (wal_map s1) meta_next_id \<noteq> None"
    using ns_rep_graph [OF T] ns_rep_parts [OF T] nodes_repD tree_root unfolding graph_rep_def ids_rep_def by (fastforce, fastforce)
  then have "ensure_root wal_storage s1 = (Inr (), s1)" by (auto simp: ensure_root_def wal.store_get_view [OF st(1)])
  moreover have "ensure_index fuel wal_storage s1 = Some (Inr (), s1)"
    using assms s1(3) by (simp add: ensure_index_def wal.store_get_view [OF st(1)] settled_def)
  ultimately have "db_open fuel wal_storage s1 = Some (Inr (), s1)" by (simp add: db_open_def)
  then have "open_db fuel (disk s) = Some (Inr \<lparr>hd_db = s1, poisoned = False\<rparr>, disk s1)" by (simp add: open_db_def s1(1))
  moreover have "settled t n s1" using assms s1 st by (simp add: settled_def ns_state_def)
  ultimately show thesis using that s1 by blast
qed

lemma set_batch_keys: "set_batch S s p v = Inr b \<Longrightarrow> op \<in> set b \<Longrightarrow> op_key op \<noteq> ver_key"
  apply (auto simp: set_batch_def and_then_Inr_iff Let_def batch_put_def batch_delete_def batch_new_def alloc_id_def
      split: if_splits option.splits prod.splits)
  subgoal for parent name parent_id raw i existing rec by (cases rec) (auto simp: and_then_Inr_iff batch_delete_def split: if_splits)
  done

lemma set_batch_map: "wal_map s = wal_map s' \<Longrightarrow> set_batch wal_storage s = set_batch wal_storage s'"
proof -
  assume m: "wal_map s = wal_map s'"
  have "store_get wal_storage s = store_get wal_storage s'" by (simp add: store_get_def m fun_eq_iff)
  then show ?thesis by (intro ext) (simp add: set_batch_def resolve_def alloc_id_def next_id_def)
qed

section \<open>Commands on the data directory\<close>

lemma set_response:
  assumes "\<not> poisoned db" "serve_request fuel dbg now stats (RqSet path ty raw) db = (Returns resp, db')" "print_resp resp = Inr ls"
    and "parse_path path = Inr p" "parse_typed_value ty raw = Inr v"
  obtains b where "resp = RsOk (''ok '' @ as_str p)" "set_batch wal_storage (hd_db db) p v = Inr b"
    "wal_commit b (hd_db db) = (Inr (), hd_db db')"
proof -
  obtain r d' where run: "db_set wal_storage p v (hd_db db) = (r, d')" by fastforce
  have "with_db_mut (\<lambda>d. Some (ns_reply (RsOk (''ok '' @ as_str p)) (db_set wal_storage p v d))) db = (Returns resp, db')"
    using assms(2,4,5) by simp
  then have r: "resp = reply_of (RsOk (''ok '' @ as_str p)) r" "hd_db db' = d'"
    using with_db_mut_reply [OF assms(1), of "\<lambda>d. Some (ns_reply (RsOk (''ok '' @ as_str p)) (db_set wal_storage p v d))" _ r d'] run by auto
  then obtain u where ok: "r = Inr u" using assms(3) by (cases r) auto
  then obtain b c where b: "set_batch wal_storage (hd_db db) p v = Inr b" "wal_commit b (hd_db db) = (c, d')" "map_err from_storage_error c = r"
    using run by (cases "set_batch wal_storage (hd_db db) p v") (auto simp: db_set_def store_commit_def split: prod.splits)
  then have "c = Inr ()" using ok by (cases c) auto
  then show thesis using that b r ok by simp
qed


lemma direct_call:
  assumes "settled t n s" "ho_disk h = disk s" "wal_open (disk s) = Inr s1"
  shows "cli_call fuel dbg now sd True req h =
    (case serve_request fuel dbg now (count_request req (stats_new now)) req \<lparr>hd_db = s1, poisoned = False\<rparr> of
       (r, db) \<Rightarrow> (map_run Inr r, h\<lparr>ho_disk := disk (hd_db db)\<rparr>))"
proof -
  obtain s2 where "open_db fuel (disk s) = Some (Inr \<lparr>hd_db = s2, poisoned = False\<rparr>, disk s2)" "wal_open (disk s) = Inr s2"
    using open_settled [OF assms(1)] by metis
  then show ?thesis using assms(2,3)
    by (simp add: cli_call_def dispatch_def dispatch_with_stats_def Let_def split: prod.split)
qed

lemma settled_set:
  assumes "settled t n s" "request_ok dbg (RqSet path ty raw) t n" "parse_path path = Inr p" "parse_typed_value ty raw = Inr v"
    and "set_batch wal_storage s p v = Inr b" "wal_fits b s" "wal_commit b s = (Inr (), s')"
  shows "\<exists>t' n'. settled t' n' s' \<and> t' (segments p) = Some (ValN (canon v))"
proof -
  have st: "wal_map_ok s" "stores t n (bt_get (wal_map s))" "wal_inv s" using assms(1) by (simp_all add: settled_def ns_state_def)
  have run: "db_set wal_storage p v s = (Inr (), s')" using assms(5,7) by (simp add: db_set_def store_commit_def)
  have "path_ok (segments p)" "wf_value v" "n \<noteq> - 1"
    using assms(2-4) parse_path_ok parse_typed_value_wf by auto
  then obtain t' n' where o: "wal_map_ok s'" "stores t' n' (bt_get (wal_map s'))" "outcome (spec_set p v t) t (Inr ()) t'"
    using wal.set_tree [OF st(1,2) _ _ _ run] by blast
  have "t' (segments p) = Some (ValN (canon v))" using o(3) by (auto simp: spec_set_def and_then_Inr_iff split: if_splits)
  moreover have "wal_inv s'" using wal_inv_commit [OF st(3), of b s'] assms(6,7) by (simp add: wal_fits_def)
  moreover have "wal_map s' = apply_ops (wal_map s) b" using wal_commit_map [OF assms(7)] by auto
  then have "bt_get (wal_map s') ver_key = bt_get (wal_map s) ver_key"
    using bt_get_batch [of "wal_map s" b] st(1) upds_other [of ver_key b] set_batch_keys [OF assms(5)] by (force simp: wal_map_ok_def)
  ultimately show ?thesis using o assms(1) by (auto simp: settled_def ns_state_def)
qed


text \<open>
  C14. What \<open>alefsdb set\<close> stored, \<open>alefsdb get\<close> prints.  On a data directory whose type index is up to date,
  if \<open>alefsdb set --direct\<close> succeeds it prints \<open>ok\<close> with the path, and any later \<open>alefsdb get --direct\<close>
  of the same path, a new process that recovers the database from the directory, succeeds and prints the
  type and the text of the value.
\<close>

theorem cli_set_then_get:
  assumes s: "settled t n s" "ho_disk h = disk s" and ok: "request_ok dbg (RqSet path ty raw) t n"
    and p: "parse_path path = Inr p" and v: "parse_typed_value ty raw = Inr v"
    and fits: "\<forall>b. set_batch wal_storage s p v = Inr b \<longrightarrow> wal_fits b s"
    and set: "cli_run fuel dbg now sd (CmdSet path ty raw True) h = (Returns (Inr ()), h1)"
  shows "ho_out h1 = ho_out h @ [''ok '' @ as_str p]
    \<and> (\<exists>h2. cli_run fuel2 dbg2 later sd2 (CmdGet path True) h1 = (Returns (Inr ()), h2)
         \<and> ho_out h2 = ho_out h1 @ [typename v @ '' '' @ format_value (canon v)])"
proof -
  obtain s1 where s1: "settled t n s1" "wal_map s1 = wal_map s" "wal_open (disk s) = Inr s1" using open_settled [OF s(1)] by metis
  let ?db = "\<lparr>hd_db = s1, poisoned = False\<rparr>" and ?req = "RqSet path ty raw"
  obtain r db' where serve: "serve_request fuel dbg now (count_request ?req (stats_new now)) ?req ?db = (r, db')" by fastforce
  have call: "cli_call fuel dbg now sd True ?req h = (map_run Inr r, h\<lparr>ho_disk := disk (hd_db db')\<rparr>)"
    unfolding direct_call [OF s s1(3)] serve by simp
  obtain resp ls where resp: "r = Returns resp" "print_resp resp = Inr ls"
      "h1 = print_lines ls (h\<lparr>ho_disk := disk (hd_db db')\<rparr>)"
    using set call by (cases r) (auto simp: cli_run_def show_response_def split: sum.splits)
  obtain b where b: "resp = RsOk (''ok '' @ as_str p)" "set_batch wal_storage s1 p v = Inr b" "wal_commit b s1 = (Inr (), hd_db db')"
    using set_response [OF _ serve [unfolded resp(1)] resp(2) p v] by (auto simp del: serve_request.simps)
  have "wal_fits b s1" using fits b(2) set_batch_map [OF s1(2)] s1(2) by (simp add: wal_fits_def)
  then obtain t' n' where t': "settled t' n' (hd_db db')" "t' (segments p) = Some (ValN (canon v))"
    using settled_set [OF s1(1) ok p v b(2) _ b(3)] by blast
  have h1: "ho_out h1 = ho_out h @ [''ok '' @ as_str p]" "ho_disk h1 = disk (hd_db db')"
    using resp(2,3) b(1) by (simp_all add: print_lines_def)
  obtain s2 where s2: "settled t' n' s2" "wal_open (disk (hd_db db')) = Inr s2" using open_settled [OF t'(1)] by metis
  then have "good_db t' n' \<lparr>hd_db = s2, poisoned = False\<rparr>" by (simp add: good_db_def settled_def)
  from get_served [OF this, of fuel2 dbg2 later "count_request (RqGet path) (stats_new later)" path]
  have "cli_call fuel2 dbg2 later sd2 True (RqGet path) h1
      = (Returns (Inr (RsValue (typename v) (format_value (canon v)))), h1\<lparr>ho_disk := disk s2\<rparr>)"
    using t'(2) p unfolding direct_call [OF t'(1) h1(2) s2(2)] by (simp add: spec_get_reply_def del: serve_request.simps)
  then have "cli_run fuel2 dbg2 later sd2 (CmdGet path True) h1
      = (Returns (Inr ()), print_lines [typename v @ '' '' @ format_value (canon v)] (h1\<lparr>ho_disk := disk s2\<rparr>))"
    by (simp add: cli_run_def show_response_def)
  then show ?thesis using h1(1) by (simp add: print_lines_def)
qed

text \<open>A concrete run on a directory that holds the root and the version of the index, and one-byte messages for JSON.\<close>

definition current_root :: WriteBatch where
  "current_root = root_batch @ [Put ver_key (u64_to_be INDEX_VER)]"

definition wal_current :: WalStorage where
  "wal_current = appended current_root (fresh_wal 100000)"

definition quiet_host :: Host where
  "quiet_host = \<lparr>ho_disk = disk wal_current, ho_socket = None, ho_read = (\<lambda>_. Inl []), ho_write = (\<lambda>_ _. Inl []), ho_written = [], ho_out = []\<rparr>"

definition tiny_serde :: Serde where
  "tiny_serde = \<lparr>request_to_vec = (\<lambda>_. Inr [0]), response_from_slice = (\<lambda>_. Inr (RsErr ''empty path'')),
     ops_from_str = (\<lambda>_. Inl []), debug_response = (\<lambda>_. [])\<rparr>"

lemma current_sizes:
  "length (commit_body current_root) \<le> 250" "rows_size (apply_ops [] (current_root @ set_five)) \<le> 1100"
proof -
  show "length (commit_body current_root) \<le> 250"
    by (simp add: commit_body_def current_root_def root_batch_def key_lengths ver_key_def)
  have "sum_list (map op_size (current_root @ set_five)) \<le> 1100" "rows_size [] = 0"
    by (simp_all add: current_root_def root_batch_def set_five_def key_lengths rows_size_def ver_key_def)
  then show "rows_size (apply_ops [] (current_root @ set_five)) \<le> 1100"
    using rows_size_ops [of "[]" "current_root @ set_five"] by linarith
qed

lemma wal_current_map: "wal_map wal_current = apply_ops [] current_root"
  by (simp add: wal_current_def)

lemma bt_get_current: "bt_get (wal_map wal_current) = (bt_get (apply_ops [] root_batch))(ver_key \<mapsto> u64_to_be INDEX_VER)"
  by (simp add: wal_current_map current_root_def bt_get_insert)

lemma current_rep: "ns_rep root_tree 2 (bt_get (wal_map wal_current))"
  unfolding bt_get_current ns_rep_ver by (rule root_rep)

lemma wal_current_settled: "settled empty_tree 2 wal_current"
proof -
  have "wal_inv wal_current"
    unfolding wal_current_def using current_sizes(1) fresh_wal_inv by (intro wal_inv_appended) (simp_all add: batch_ok_def len_ok_def)
  moreover have "stores empty_tree 2 (bt_get (wal_map wal_current))"
    using current_rep by (auto simp: stores_def simp flip: abs_root_tree)
  moreover have "wal_map_ok wal_current" by (simp add: wal_map_ok_def wal_current_map)
  ultimately show ?thesis by (simp add: settled_def ns_state_def bt_get_current)
qed

lemma wal_current_reopen: "wal_open (disk wal_current) = Inr wal_current"
proof -
  obtain s where s: "wal_open (disk wal_current) = Inr s" "wal_map s = wal_map wal_current"
    using open_settled [OF wal_current_settled] by metis
  have "checkpoint_bin (disk wal_current) = None" "wal_log (disk wal_current) = Some (encode_commit_record current_root)"
      "wal_bytes wal_current = of_nat (length (encode_commit_record current_root))" "auto_compact_threshold wal_current = 8388608"
    by (simp_all add: wal_current_def appended_def fresh_wal_def fresh_dir_def)
  with s have "disk s = (disk wal_current)\<lparr>wal_log := wal_log (disk wal_current)\<rparr>" "wal_bytes s = wal_bytes wal_current"
      "auto_compact_threshold s = auto_compact_threshold wal_current"
    by (auto simp: wal_open_def and_then_Inr_iff Let_def)
  then have "s = wal_current" using s(2) by (intro WalStorage.equality) simp_all
  then show ?thesis using s(1) by simp
qed

lemma five_on_current:
  "set_batch wal_storage wal_current (DbPath [''a'']) (value_int 5) = Inr set_five"
  "wal_commit set_five wal_current = (Inr (), appended set_five wal_current)" "wal_fits set_five wal_current"
proof -
  have T: "wal_map_ok wal_current" using wal_current_settled by (simp add: settled_def ns_state_def)
  have "root_tree [] = Some (1, DirN)" "root_tree ([] @ [''a'']) = None" by (simp_all add: root_tree_def ROOT_ID_def)
  from wal.set_new_batch [OF T current_rep this, of "value_int 5"]
  show "set_batch wal_storage wal_current (DbPath [''a'']) (value_int 5) = Inr set_five"
    by (simp add: set_five_def as_str_def value_int_def)
  define k where "k = length (encode_commit_record current_root) + length (encode_commit_record set_five)"
  have l: "length (encode_commit_record current_root) \<le> 263" "length (encode_commit_record set_five) \<le> 313"
    using set_five_sizes(2) current_sizes(1) by (simp_all add: length_record)
  show "wal_commit set_five wal_current = (Inr (), appended set_five wal_current)"
  proof (rule commit_plain)
    show "set_five \<noteq> []" by (simp add: set_five_def)
    show "length (encode_commit_record set_five) \<le> space (disk wal_current)" using l by (simp add: wal_current_def appended_def)
    have "wal_bytes wal_current + of_nat (length (encode_commit_record set_five)) = of_nat k"
      by (simp add: wal_current_def appended_def k_def)
    moreover have "k < 8388608" using l k_def by simp
    then have "(of_nat k :: u64) < 8388608" by (simp add: word_less_nat_alt unat_of_nat)
    moreover have "auto_compact_threshold wal_current = 8388608" by (simp add: wal_current_def appended_def)
    ultimately show "wal_bytes wal_current + of_nat (length (encode_commit_record set_five)) < auto_compact_threshold wal_current"
      by simp
  qed
  show "wal_fits set_five wal_current"
    using set_five_sizes(2) current_sizes(2) by (simp add: wal_fits_def batch_ok_def ckpt_ok_def len_ok_def length_checkpoint_body wal_current_map)
qed

theorem cli_set_then_get_witness:
  "\<exists>h1 h2. cli_run 0 plain_debug 0 tiny_serde (CmdSet ''/a'' ''int'' ''5'' True) quiet_host = (Returns (Inr ()), h1)
    \<and> cli_run 0 plain_debug 0 tiny_serde (CmdGet ''/a'' True) h1 = (Returns (Inr ()), h2) \<and> ho_out h2 = [''ok /a'', ''int 5'']"
proof -
  have disk: "ho_disk quiet_host = disk wal_current" "ho_out quiet_host = []" by (simp_all add: quiet_host_def)
  have "\<exists>h1. cli_run 0 plain_debug 0 tiny_serde (CmdSet ''/a'' ''int'' ''5'' True) quiet_host = (Returns (Inr ()), h1)"
    using five_on_current(1,2) set_five_parse direct_call [OF wal_current_settled disk(1) wal_current_reopen, of 0 plain_debug 0 tiny_serde]
    by (simp add: cli_run_def show_response_def with_db_mut_def db_set_def store_commit_def ns_reply_def)
  then obtain h1 where h1: "cli_run 0 plain_debug 0 tiny_serde (CmdSet ''/a'' ''int'' ''5'' True) quiet_host = (Returns (Inr ()), h1)" by blast
  have "request_ok plain_debug (RqSet ''/a'' ''int'' ''5'') empty_tree 2" by (simp add: utf8_string_ascii len_ok_def)
  from cli_set_then_get [OF wal_current_settled disk(1) this set_five_parse _ h1, of 0 plain_debug 0 tiny_serde] five_on_current(1,3)
  obtain h2 where "ho_out h1 = [''ok '' @ as_str (DbPath [''a''])]" "cli_run 0 plain_debug 0 tiny_serde (CmdGet ''/a'' True) h1 = (Returns (Inr ()), h2)"
      "ho_out h2 = ho_out h1 @ [typename (value_int 5) @ '' '' @ format_value (canon (value_int 5))]"
    by (auto simp: disk(2))
  moreover have "typename (value_int 5) = ''int''" "format_value (canon (value_int 5)) = ''5''" "as_str (DbPath [''a'']) = ''/a''" by code_simp+
  ultimately show ?thesis using h1 by auto
qed

section \<open>Commands through the daemon\<close>

text \<open>
  C22. A command through the socket shows the dispatcher's response.  If the daemon can dispatch the
  request of a command, then over one connection the daemon reads exactly the bytes that the command
  sends, dispatches that request once on its database, and the command does with the response what it
  would do with the response of a direct call.  The JSON functions are assumed to decode what they
  encoded, and both messages to be at most 64 MiB.
\<close>

theorem cli_over_daemon:
  assumes d: "dispatch_with_stats fuel dbg (now 0) req (stats\<lparr>requests := requests stats + 1\<rparr>) db = (Returns resp, stats1, db1)"
    and json_request: "request_to_vec sd req = Inr p" "from_slice p = Inr req"
    and json_response: "to_vec resp = Inr q" "response_from_slice sd q = Inr resp"
    and len: "length p \<le> MAX_MESSAGE" "length q \<le> MAX_MESSAGE"
    and srv: "s_in srv = frame p" "s_fault srv = None" "s_out srv = []" "length (frame q) \<le> s_room srv"
  shows "\<exists>srv'. handle_connection fuel dbg now from_slice to_vec srv stats db = (Returns (Inr ()), srv', count_error resp stats1, db1)
    \<and> (\<forall>c h cmd. s_in c = s_out srv' \<longrightarrow> length (frame p) \<le> s_room c \<longrightarrow> ho_socket h = Some (Inr c) \<longrightarrow> cmd_request sd h cmd = Inr (False, req) \<longrightarrow>
         s_out (snd (client_call (request_to_vec sd) (response_from_slice sd) req c)) = s_out c @ s_in srv
       \<and> cli_run fuel2 dbg2 now2 sd cmd h = (case show_response sd cmd resp h of (r, h') \<Rightarrow> (Returns r, h')))"
proof -
  have "session fuel dbg now from_slice [p] stats db [resp] (count_error resp stats1) db1"
    by (rule session_request [where req = req and ?stats1.0 = stats1 and ?db1.0 = db1]) (use json_request d session_end in simp_all)
  from session_connection [OF this, of to_vec "\<lambda>_. q" srv] json_response len srv
  obtain srv' where s: "handle_connection fuel dbg now from_slice to_vec srv stats db = (Returns (Inr ()), srv', count_error resp stats1, db1)"
      "s_out srv' = frame q" by auto
  have call: "client_call (request_to_vec sd) (response_from_slice sd) req c
      = (Inr resp, c\<lparr>s_out := s_out c @ frame p, s_room := s_room c - length (frame p), s_in := []\<rparr>)"
    if "s_in c = frame q" "length (frame p) \<le> s_room c" for c
  proof -
    let ?c = "c\<lparr>s_out := s_out c @ frame p, s_room := s_room c - length (frame p)\<rparr>"
    have "write_message p c = (Inr (), ?c)" using that(2) by (simp add: write_message_Inr)
    moreover have "read_message ?c = (Inr (Some q), ?c\<lparr>s_in := []\<rparr>)" using read_frame [OF len(2), of ?c "[]"] that(1) by simp
    ultimately show ?thesis using json_request(1) json_response(2) by (simp add: client_call_def)
  qed
  have "cli_run fuel2 dbg2 now2 sd cmd h = (case show_response sd cmd resp h of (r, h') \<Rightarrow> (Returns r, h'))"
    if "s_in c = frame q" "length (frame p) \<le> s_room c" "ho_socket h = Some (Inr c)" "cmd_request sd h cmd = Inr (False, req)" for c h cmd
    using that call [OF that(1,2)] by (simp add: cli_run_def cli_call_def rpc_call_def)
  then show ?thesis using s call srv(1) by auto
qed


text \<open>A concrete exchange: a \<open>set\<close> refused because of its path, over sockets with room for 100 bytes.\<close>

definition tiny_socket :: "bytes \<Rightarrow> Sock" where
  "tiny_socket input = \<lparr>s_in = input, s_fault = None, s_out = [], s_room = 100\<rparr>"

theorem cli_over_daemon_witness:
  "\<exists>srv' stats'. handle_connection 0 plain_debug (\<lambda>_. 0) (\<lambda>_. Inr (RqMkdir [])) (\<lambda>_. Inr [1]) (tiny_socket (frame [0])) (stats_new 0) root_handle
      = (Returns (Inr ()), srv', stats', root_handle)
    \<and> fst (cli_run 0 plain_debug 0 tiny_serde (CmdMkdir [] False) (quiet_host\<lparr>ho_socket := Some (Inr (tiny_socket (s_out srv')))\<rparr>))
      = Returns (Inl ''empty path'')"
proof -
  let ?req = "RqMkdir []" and ?resp = "RsErr ''empty path''" and ?stats = "(stats_new 0)\<lparr>requests := requests (stats_new 0) + 1\<rparr>"
  have "parse_path [] = Inl ''empty path''" by code_simp
  then have d: "dispatch_with_stats 0 plain_debug ((\<lambda>_. 0) 0) ?req ?stats root_handle = (Returns ?resp, count_request ?req ?stats, root_handle)"
    by (simp add: dispatch_with_stats_def with_db_mut_def root_handle_def)
  from cli_over_daemon [where now = "\<lambda>_. 0" and stats = "stats_new 0" and sd = tiny_serde and p = "[0]" and q = "[1]" and from_slice = "\<lambda>_. Inr ?req"
      and to_vec = "\<lambda>_. Inr [1]" and srv = "tiny_socket (frame [0])" and ?fuel2.0 = 0 and ?dbg2.0 = plain_debug and ?now2.0 = 0, OF d]
  obtain srv' where s: "handle_connection 0 plain_debug (\<lambda>_. 0) (\<lambda>_. Inr ?req) (\<lambda>_. Inr [1]) (tiny_socket (frame [0])) (stats_new 0) root_handle
      = (Returns (Inr ()), srv', count_error ?resp (count_request ?req ?stats), root_handle)"
    "\<And>c h cmd. s_in c = s_out srv' \<Longrightarrow> length (frame [0]) \<le> s_room c \<Longrightarrow> ho_socket h = Some (Inr c) \<Longrightarrow> cmd_request tiny_serde h cmd = Inr (False, ?req)
      \<Longrightarrow> cli_run 0 plain_debug 0 tiny_serde cmd h = (case show_response tiny_serde cmd ?resp h of (r, h') \<Rightarrow> (Returns r, h'))"
    by (auto simp: tiny_serde_def tiny_socket_def MAX_MESSAGE_def frame_def)
  from s(2) [of "tiny_socket (s_out srv')" "quiet_host\<lparr>ho_socket := Some (Inr (tiny_socket (s_out srv')))\<rparr>" "CmdMkdir [] False"]
  show ?thesis using s(1) by (auto simp: tiny_socket_def frame_def show_response_def)
qed

end
