(* ===== verification/Direct_Race.thy ===== *)
theory Direct_Race
  imports Cli_Theorems
begin

text \<open>
  \<open>alefsdb --direct\<close> opens the data directory without the lock of the daemon.  Beside a running daemon the
  two processes have one log and two memories: the log is opened for appending, so both records end up in
  it, but each process chooses identifiers from its own memory.
\<close>

text \<open>The stores of two processes on one directory: \<open>s\<close>, whose file now is what the other process left.\<close>

abbreviation beside :: "WalStorage \<Rightarrow> Disk \<Rightarrow> WalStorage" where
  "beside s d \<equiv> s\<lparr>disk := d\<rparr>"

lemma commit_appends:
  assumes "wal_commit b s = (Inr (), s')" "wal_log (disk s') \<noteq> Some []" "b \<noteq> []"
  shows "s' = appended b s"
  using assms(1)
proof (cases rule: wal_commit_cases)
  case compact
  then show ?thesis using assms(2) by (cases rule: wal_compact_cases [of "appended b s"]) auto
qed (use assms in auto)

lemma both_recorded:
  assumes "wal_inv s" "batch_ok b1" "batch_ok b2" "disk s1 = disk (appended b1 s)"
  shows "\<exists>s3. wal_open (disk (appended b2 (beside s (disk s1)))) = Inr s3 \<and> wal_map s3 = apply_ops (wal_map s) (b1 @ b2)"
proof -
  obtain base bs where c: "clean base bs (disk s)" "wal_map s = apply_ops base (concat bs)" using assms(1) by (auto simp: wal_inv_def)
  have c1: "clean base (bs @ [b1]) (disk s1)" using c(1) assms(2) by (rule clean_snoc) (simp_all add: assms(4) appended_def)
  let ?s = "(appended b2 (beside s (disk s1)))\<lparr>wal_map := apply_ops (wal_map s) (b1 @ b2)\<rparr>"
  have "clean base ((bs @ [b1]) @ [b2]) (disk (appended b2 (beside s (disk s1))))"
    using c1 assms(3) by (rule clean_snoc) (simp_all add: appended_def)
  then have "wal_inv ?s" using c(2) unfolding wal_inv_def by (intro exI [of _ base] exI [of _ "bs @ [b1, b2]"]) simp
  from wal_reopen [OF this] show ?thesis by (metis WalStorage.select_convs(1,2) WalStorage.surjective WalStorage.update_convs(2))
qed

text \<open>The batch of a new value below the root, and its effect on the map.\<close>

definition new_value :: "u64 \<Rightarrow> string \<Rightarrow> Value \<Rightarrow> WriteBatch" where
  "new_value n x v = [Put meta_next_id (encode_id (n + 1)), Put (node_key n) (encode_value_node (encode v)),
     Put (child_key ROOT_ID x) (encode_id n), Put (type_index_key (typename v) n) (as_bytes (as_str (DbPath [x])))]"

lemma new_value_batch:
  assumes "settled t n s" "t [x] = None"
  shows "set_batch wal_storage s (DbPath [x]) v = Inr (new_value n x v)"
proof -
  obtain T where T: "ns_rep T n (bt_get (wal_map s))" "t = abs_tree T" "wal_map_ok s"
    using assms(1) by (auto simp: settled_def ns_state_def stores_def)
  have "T [] = Some (ROOT_ID, DirN)" using ns_rep_graph [OF T(1)] tree_root by (simp add: graph_rep_def)
  from wal.set_new_batch [OF T(3,1) this, of x v] assms(2) T(2) show ?thesis by (simp add: new_value_def)
qed

lemma aliased_get:
  assumes "x \<noteq> y" "wf_value w" "bt_sorted m" "wal_map s3 = apply_ops m (new_value n x v @ new_value n y w)"
  shows "db_get wal_storage s3 (DbPath [x]) = Inr \<lparr>e_path = DbPath [x], e_kind = EntryValue, e_value = Some (canon w)\<rparr>"
proof -
  have get: "store_get wal_storage s3 k = Inr (upds (new_value n x v @ new_value n y w) (bt_get m) k)" for k
    using bt_get_batch [OF assms(3), of "new_value n x v @ new_value n y w"] assms(4)
    by (simp add: store_get_def del: upds_append)
  have "upds (new_value n x v @ new_value n y w) (bt_get m) (child_key ROOT_ID x) = Some (encode_id n)"
    "upds (new_value n x v @ new_value n y w) (bt_get m) (node_key n) = Some (encode_value_node (encode w))"
    using assms(1) by (simp_all add: new_value_def)
  then have "resolve wal_storage s3 (DbPath [x]) = Inr (n, NodeValue (encode w))"
    by (simp add: resolve_def resolve_with_def is_root_def get id_of_def)
  moreover have "ns_decode (encode w) = Inr (canon w)"
    using decode_encode_canon [OF assms(2)] by (simp add: ns_decode_def encode_def)
  ultimately show ?thesis by (simp add: db_get_def)
qed


lemma cli_set_batch:
  assumes s: "settled t n s" "ho_disk h = disk s" and p: "parse_path path = Inr p" "parse_typed_value ty raw = Inr v"
    and run: "cli_run fuel dbg now sd (CmdSet path ty raw True) h = (Returns (Inr ()), h1)"
  obtains s0 b s1 where "wal_open (disk s) = Inr s0" "wal_map s0 = wal_map s" "settled t n s0"
    "set_batch wal_storage s0 p v = Inr b" "wal_commit b s0 = (Inr (), s1)" "ho_disk h1 = disk s1"
proof -
  obtain s0 where s0: "settled t n s0" "wal_map s0 = wal_map s" "wal_open (disk s) = Inr s0" using open_settled [OF s(1)] by metis
  let ?db = "\<lparr>hd_db = s0, poisoned = False\<rparr>" and ?req = "RqSet path ty raw"
  obtain r db' where serve: "serve_request fuel dbg now (count_request ?req (stats_new now)) ?req ?db = (r, db')" by fastforce
  have "cli_call fuel dbg now sd True ?req h = (map_run Inr r, h\<lparr>ho_disk := disk (hd_db db')\<rparr>)"
    unfolding direct_call [OF s s0(3)] serve by simp
  then obtain resp ls where resp: "r = Returns resp" "print_resp resp = Inr ls"
      "h1 = print_lines ls (h\<lparr>ho_disk := disk (hd_db db')\<rparr>)"
    using run by (cases r) (auto simp: cli_run_def show_response_def split: sum.splits)
  then have d: "ho_disk h1 = disk (hd_db db')" by (simp add: print_lines_def)
  show thesis using set_response [OF _ serve [unfolded resp(1)] resp(2) p] that s0 d by (metis DbHandle.select_convs(1,2))
qed

text \<open>
  C15. A direct command beside the daemon corrupts the database.  A daemon serves a directory; \<open>alefsdb set
  --direct\<close> stores a new value at \<open>/x\<close> in the same directory and succeeds; then the daemon stores a new
  value at \<open>/y\<close> and answers ok.  Both used the same identifier, so after the next opening of the directory
  \<open>/x\<close> holds the value that was stored at \<open>/y\<close>.
\<close>

theorem direct_set_beside_daemon_corrupts:
  assumes s: "settled t n s" "ho_disk h = disk s" and new: "x \<noteq> y" "t [x] = None" "t [y] = None"
    and px: "parse_path pathx = Inr (DbPath [x])" "parse_typed_value tyx rawx = Inr v"
    and py: "parse_path pathy = Inr (DbPath [y])" "parse_typed_value tyy rawy = Inr w" "wf_value w"
    and cli: "cli_run fuel dbg now sd (CmdSet pathx tyx rawx True) h = (Returns (Inr ()), h1)"
    and daemon: "dispatch fuel dbg now (RqSet pathy tyy rawy) \<lparr>hd_db = beside s (ho_disk h1), poisoned = False\<rparr> = (Returns (RsOk m), db2)"
    and size: "batch_ok (new_value n x v)" "batch_ok (new_value n y w)"
    and uncompacted: "wal_log (ho_disk h1) \<noteq> Some []" "wal_log (disk (hd_db db2)) \<noteq> Some []"
  shows "\<exists>s3. wal_open (disk (hd_db db2)) = Inr s3
    \<and> db_get wal_storage s3 (DbPath [x]) = Inr \<lparr>e_path = DbPath [x], e_kind = EntryValue, e_value = Some (canon w)\<rparr>"
proof -
  obtain s0 b s1 where c: "wal_open (disk s) = Inr s0" "wal_map s0 = wal_map s" "settled t n s0"
      "set_batch wal_storage s0 (DbPath [x]) v = Inr b" "wal_commit b s0 = (Inr (), s1)" "ho_disk h1 = disk s1"
    using cli_set_batch [OF s px cli] by blast
  have b: "b = new_value n x v" using new_value_batch [OF c(3) new(2)] c(4) by simp
  have s1: "s1 = appended (new_value n x v) s0"
    using commit_appends [OF c(5) [unfolded b]] uncompacted(1) c(6) by (simp add: new_value_def)
  let ?db = "\<lparr>hd_db = beside s (ho_disk h1), poisoned = False\<rparr>" and ?req = "RqSet pathy tyy rawy"
  have "serve_request fuel dbg now (count_request ?req (stats_new now)) ?req ?db = (Returns (RsOk m), db2)"
    using daemon by (simp add: dispatch_def dispatch_with_stats_def Let_def split: prod.splits del: serve_request.simps)
  from set_response [where ls = "[m]", OF _ this _ py(1,2)] obtain b2 where b2: "set_batch wal_storage (beside s (ho_disk h1)) (DbPath [y]) w = Inr b2"
      "wal_commit b2 (beside s (ho_disk h1)) = (Inr (), hd_db db2)" by auto
  have "set_batch wal_storage (beside s (ho_disk h1)) = set_batch wal_storage s" by (rule set_batch_map) simp
  then have "b2 = new_value n y w" using b2(1) new_value_batch [OF s(1) new(3)] by simp
  then have db2: "hd_db db2 = appended (new_value n y w) (beside s (ho_disk h1))"
    using commit_appends [OF b2(2) uncompacted(2)] by (simp add: new_value_def)
  have i: "wal_inv s0" "bt_sorted (wal_map s0)" using c(3) by (simp_all add: settled_def ns_state_def wal_map_ok_def)
  have "disk (hd_db db2) = disk (appended (new_value n y w) (beside s0 (disk s1)))" by (simp add: db2 c(6) appended_def)
  then obtain s3 where s3: "wal_open (disk (hd_db db2)) = Inr s3" "wal_map s3 = apply_ops (wal_map s0) (new_value n x v @ new_value n y w)"
    using both_recorded [OF i(1) size, of s1] s1 by auto
  then show ?thesis using aliased_get [OF new(1) py(3) i(2) s3(2)] by blast
qed


text \<open>A concrete race: \<open>set /a int 5 --direct\<close>, then \<open>set /b bool true\<close> at the daemon.\<close>

lemma five_new_value: "set_five = new_value 2 ''a'' (value_int 5)"
  by (simp add: set_five_def new_value_def value_int_def as_str_def ROOT_ID_def)

definition raced :: WalStorage where
  "raced = beside wal_current (disk (appended set_five wal_current))"

lemma true_batch: "length (commit_body (new_value 2 ''b'' (value_bool True))) \<le> 300"
  by (simp add: commit_body_def new_value_def key_lengths value_bool_def as_str_def)

lemma raced_commit:
  "wal_commit (new_value 2 ''b'' (value_bool True)) raced = (Inr (), appended (new_value 2 ''b'' (value_bool True)) raced)"
proof (rule commit_plain)
  let ?b = "new_value 2 ''b'' (value_bool True)"
  define k where "k = length (encode_commit_record current_root) + length (encode_commit_record ?b)"
  have l: "length (encode_commit_record current_root) \<le> 263" "length (encode_commit_record set_five) \<le> 313" "length (encode_commit_record ?b) \<le> 313"
    using set_five_sizes(2) current_sizes(1) true_batch by (simp_all add: length_record)
  show "?b \<noteq> []" by (simp add: new_value_def)
  show "length (encode_commit_record ?b) \<le> space (disk raced)" using l by (simp add: raced_def wal_current_def appended_def)
  have "wal_bytes raced + of_nat (length (encode_commit_record ?b)) = of_nat k" by (simp add: raced_def wal_current_def appended_def k_def)
  moreover have "k < 8388608" using l k_def by simp
  then have "(of_nat k :: u64) < 8388608" by (simp add: word_less_nat_alt unat_of_nat)
  moreover have "auto_compact_threshold raced = 8388608" by (simp add: raced_def wal_current_def appended_def)
  ultimately show "wal_bytes raced + of_nat (length (encode_commit_record ?b)) < auto_compact_threshold raced" by simp
qed

theorem direct_set_beside_daemon_corrupts_witness:
  "\<exists>h1 m db2 s3. cli_run 0 plain_debug 0 tiny_serde (CmdSet ''/a'' ''int'' ''5'' True) quiet_host = (Returns (Inr ()), h1)
    \<and> dispatch 0 plain_debug 0 (RqSet ''/b'' ''bool'' ''true'') \<lparr>hd_db = beside wal_current (ho_disk h1), poisoned = False\<rparr> = (Returns (RsOk m), db2)
    \<and> wal_open (disk (hd_db db2)) = Inr s3
    \<and> db_get wal_storage s3 (DbPath [''a'']) = Inr \<lparr>e_path = DbPath [''a''], e_kind = EntryValue, e_value = Some (value_bool True)\<rparr>"
proof -
  let ?h1 = "print_lines [''ok /a''] (quiet_host\<lparr>ho_disk := disk (appended set_five wal_current)\<rparr>)"
  let ?b = "new_value 2 ''b'' (value_bool True)" and ?db = "\<lparr>hd_db = raced, poisoned = False\<rparr>"
  let ?db2 = "\<lparr>hd_db = appended ?b raced, poisoned = False\<rparr>"
  have disk: "ho_disk quiet_host = disk wal_current" "ho_disk ?h1 = disk (appended set_five wal_current)"
    by (simp_all add: quiet_host_def print_lines_def)
  have pb: "parse_path ''/b'' = Inr (DbPath [''b''])" "parse_typed_value ''bool'' ''true'' = Inr (value_bool True)" "as_str (DbPath [''a'']) = ''/a''"
    by code_simp+
  have cli: "cli_run 0 plain_debug 0 tiny_serde (CmdSet ''/a'' ''int'' ''5'' True) quiet_host = (Returns (Inr ()), ?h1)"
    using five_on_current(1,2) set_five_parse pb(3) direct_call [OF wal_current_settled disk(1) wal_current_reopen, of 0 plain_debug 0 tiny_serde]
    by (simp add: cli_run_def show_response_def with_db_mut_def db_set_def store_commit_def ns_reply_def)
  have free: "empty_tree [''a''] = None" "empty_tree [''b''] = None" by (simp_all add: empty_tree_def)
  have "set_batch wal_storage raced = set_batch wal_storage wal_current" by (rule set_batch_map) (simp add: raced_def)
  then have "set_batch wal_storage raced (DbPath [''b'']) (value_bool True) = Inr ?b"
    using new_value_batch [OF wal_current_settled free(2)] by simp
  then have daemon: "dispatch 0 plain_debug 0 (RqSet ''/b'' ''bool'' ''true'') ?db = (Returns (RsOk (''ok '' @ as_str (DbPath [''b'']))), ?db2)"
    using raced_commit pb by (simp add: dispatch_def dispatch_with_stats_def with_db_mut_def db_set_def store_commit_def ns_reply_def)
  have r: "raced = beside wal_current (ho_disk ?h1)" using disk(2) by (simp add: raced_def)
  have ok: "batch_ok set_five" "batch_ok ?b" using set_five_sizes(2) true_batch by (simp_all add: batch_ok_def len_ok_def)
  have log: "wal_log (ho_disk ?h1) \<noteq> Some []" "wal_log (disk (hd_db ?db2)) \<noteq> Some []"
    using disk(2) length_record [of ?b] length_record [of set_five] by (auto simp: appended_def)
  have "wf_value (value_bool True)" "canon (value_bool True) = value_bool True" by (simp_all add: value_bool_def)
  with direct_set_beside_daemon_corrupts [OF wal_current_settled disk(1) _ free set_five_parse pb(1,2) _ cli daemon [unfolded r]]
  obtain s3 where "wal_open (disk (hd_db ?db2)) = Inr s3"
      "db_get wal_storage s3 (DbPath [''a'']) = Inr \<lparr>e_path = DbPath [''a''], e_kind = EntryValue, e_value = Some (value_bool True)\<rparr>"
    using ok log five_new_value unfolding r by auto
  then show ?thesis using cli daemon r by metis
qed

end
