(* ===== verification/Threads.thy ===== *)
theory Threads
  imports Lock Fuse Server_Refine
begin

text \<open>
  The running daemon (\<open>crates/alefs-server/src/handle.rs\<close>, \<open>serve_daemon\<close>): the accept loop, one thread
  per connection, the mount beside them, the shared counters and database, the shutdown flag and what
  is released at the end.
  A thread moves by one access to shared memory at a time: an atomic counter is added to or loaded, or
  the database is used inside one critical section of its mutex.  Reads and writes of its own socket
  are not shared and go with the step before the next access.  A callback of the mount takes the lock of
  the database once and otherwise uses what its own thread owns, so it is one step.
\<close>

section \<open>A connection, one shared access at a time\<close>

text \<open>
  What the code takes from outside the sources: the text of derived \<open>Debug\<close>, \<open>serde_json\<close>, the
  \<open>DefaultHasher\<close> and when a reply of \<open>readdir\<close> is full.
\<close>

record Wire =
  w_debug :: DebugText
  w_from_slice :: "bytes \<Rightarrow> string + Request"
  w_to_vec :: "Response \<Rightarrow> string + bytes"
  w_hash :: "bytes \<Rightarrow> u64"
  w_full :: "DirRow list \<Rightarrow> DirRow \<Rightarrow> bool"

text \<open>
  Where the thread of a connection is in \<open>handle_connection\<close> and \<open>dispatch_with_stats\<close>.  \<open>Loading\<close> is
  the inside of \<open>stats_response\<close>: uptime and number of keys are known and the counters of the list are
  loaded.  \<open>Writing\<close> knows whether the response is the one of the bad-request branch.
\<close>

datatype Phase =
    Reading
  | BadMessage string
  | Counting Request
  | Classing Request
  | Serving Request
  | Loading u64 u64 "u64 list"
  | Answered Response
  | Writing bool Response
  | Finished "(ServeError + unit) run"

record Conn =
  c_sock :: Sock
  c_phase :: Phase

text \<open>
  What a thread does to be remembered: a message received, a request answered on a database, a message
  refused as a bad request, and a response sent; of the mount, a callback with the file system it ran
  on and its reply, none when it panicked.
\<close>

datatype Event =
    Received bytes
  | Served Request Response DbHandle
  | Refused Response
  | Sent bytes
  | Called FsOp "Reply option" Fs

type_synonym conn_effect = "Conn \<times> ServerStats \<times> DbHandle \<times> Event list"

definition uptime_secs :: "Instant \<Rightarrow> ServerStats \<Rightarrow> u64" where
  "uptime_secs now stats = (case started stats of Some t \<Rightarrow> of_nat ((now - t) div 1000000000) | None \<Rightarrow> 0)"

definition keys_approx :: "DbHandle \<Rightarrow> u64" where
  "keys_approx db = (if poisoned db then 0 else of_nat (wal_len (hd_db db)))"

definition read_step :: "Wire \<Rightarrow> Sock \<Rightarrow> Conn \<times> Event list" where
  "read_step w sock =
     (case read_message sock of
        (Inl e, st) \<Rightarrow> (\<lparr>c_sock = st, c_phase = Finished (Returns (Inl e))\<rparr>, [])
      | (Inr None, st) \<Rightarrow> (\<lparr>c_sock = st, c_phase = Finished (Returns (Inr ()))\<rparr>, [])
      | (Inr (Some req), st) \<Rightarrow>
          (\<lparr>c_sock = st, c_phase = (case w_from_slice w req of Inl e \<Rightarrow> BadMessage e | Inr request \<Rightarrow> Counting request)\<rparr>,
           [Received req]))"

definition write_step :: "Wire \<Rightarrow> bool \<Rightarrow> Response \<Rightarrow> Sock \<Rightarrow> Conn \<times> Event list" where
  "write_step w bad response sock =
     (case w_to_vec w response of
        Inl e \<Rightarrow> (\<lparr>c_sock = sock, c_phase = Finished (if bad then Panics else Returns (Inl (SeInternal e)))\<rparr>, [])
      | Inr out \<Rightarrow>
          (case write_message out sock of
             (Inl e, st) \<Rightarrow> (\<lparr>c_sock = st, c_phase = Finished (Returns (Inl e))\<rparr>, [])
           | (Inr _, st) \<Rightarrow> (\<lparr>c_sock = st, c_phase = Reading\<rparr>, [Sent out])))"

text \<open>Enough fuel for every walk and parse of a request (\<open>request_served\<close>).\<close>

definition enough_fuel :: "Request \<Rightarrow> DbHandle \<Rightarrow> nat" where
  "enough_fuel request db = length (wal_map (hd_db db)) + request_fuel request"

definition serve_step :: "Wire \<Rightarrow> Instant \<Rightarrow> Request \<Rightarrow> Conn \<Rightarrow> ServerStats \<Rightarrow> DbHandle \<Rightarrow> conn_effect option" where
  "serve_step w now request c stats db =
     (if request = RqStats then Some (c\<lparr>c_phase := Loading (uptime_secs now stats) (keys_approx db) []\<rparr>, stats, db, [])
      else
        (case serve_request (enough_fuel request db) (w_debug w) now stats request db of
           (Unfinished, _) \<Rightarrow> None
         | (Panics, db') \<Rightarrow> Some (c\<lparr>c_phase := Finished Panics\<rparr>, stats, db', [])
         | (Returns response, db') \<Rightarrow>
             Some (c\<lparr>c_phase := Answered response\<rparr>, stats, db', [Served request response db])))"

text \<open>The four loads of \<open>stats_response\<close>, in the order of the fields of the literal.\<close>

definition load_step :: "u64 \<Rightarrow> u64 \<Rightarrow> u64 list \<Rightarrow> Conn \<Rightarrow> ServerStats \<Rightarrow> DbHandle \<Rightarrow> conn_effect" where
  "load_step up keys loaded c stats db =
     (case loaded of
        [] \<Rightarrow> (c\<lparr>c_phase := Loading up keys [requests stats]\<rparr>, stats, db, [])
      | [a] \<Rightarrow> (c\<lparr>c_phase := Loading up keys [a, mutations stats]\<rparr>, stats, db, [])
      | [a, b] \<Rightarrow> (c\<lparr>c_phase := Loading up keys [a, b, queries stats]\<rparr>, stats, db, [])
      | a # b # q # _ \<Rightarrow>
          let response = RsStats up a b q (errors stats) keys in
          (c\<lparr>c_phase := Answered response\<rparr>, stats, db, [Served RqStats response db]))"

definition conn_step :: "Wire \<Rightarrow> Instant \<Rightarrow> Conn \<Rightarrow> ServerStats \<Rightarrow> DbHandle \<Rightarrow> conn_effect option" where
  "conn_step w now c stats db =
     (case c_phase c of
        Reading \<Rightarrow> (case read_step w (c_sock c) of (c', es) \<Rightarrow> Some (c', stats, db, es))
      | BadMessage e \<Rightarrow>
          let response = RsErr (''bad request: '' @ e) in
          Some (c\<lparr>c_phase := Writing True response\<rparr>, stats\<lparr>errors := errors stats + 1\<rparr>, db, [Refused response])
      | Counting request \<Rightarrow> Some (c\<lparr>c_phase := Classing request\<rparr>, stats\<lparr>requests := requests stats + 1\<rparr>, db, [])
      | Classing request \<Rightarrow> Some (c\<lparr>c_phase := Serving request\<rparr>, count_request request stats, db, [])
      | Serving request \<Rightarrow> serve_step w now request c stats db
      | Loading up keys loaded \<Rightarrow> Some (load_step up keys loaded c stats db)
      | Answered response \<Rightarrow> Some (c\<lparr>c_phase := Writing False response\<rparr>, count_error response stats, db, [])
      | Writing bad response \<Rightarrow> (case write_step w bad response (c_sock c) of (c', es) \<Rightarrow> Some (c', stats, db, es))
      | Finished _ \<Rightarrow> None)"

section \<open>The daemon\<close>

text \<open>
  The main thread: \<open>Testing\<close> the shutdown flag, in \<open>accept\<close> or the sleep after it, past the loop, past
  the removal of the socket, between the two calls of the lock's \<open>drop\<close>, and returned.
\<close>

datatype MainPc = Testing | Accepting | Leaving | Dropping | Unlocking | Stopped

record Server =
  sv_db :: DbHandle
  sv_stats :: ServerStats
  sv_shutdown :: bool
  sv_main :: MainPc
  sv_conns :: "Conn list"
  sv_mount :: "Fs option" \<comment> \<open>the mount, until its thread ends; its database is \<open>sv_db\<close>\<close>
  sv_socket :: bool \<comment> \<open>the socket file exists\<close>
  sv_locks :: LockDir
  sv_lock :: nat

text \<open>
  \<open>serve_daemon\<close> up to its loop.  The four system calls that may fail give their error; after one of
  them the daemon is dropped and with it the lock.
\<close>

record SetupCalls =
  remove_stale :: "string option"
  create_parent :: "string option"
  bind_socket :: "string option"
  set_nonblocking :: "string option"

definition serve_setup :: "SetupCalls \<Rightarrow> bool \<Rightarrow> Daemon \<Rightarrow> LockDir \<Rightarrow> (ServeError \<times> LockDir) + Server" where
  "serve_setup calls socket_exists daemon locks =
     (let fails = (\<lambda>e. Inl (SeIo e, data_lock_drop (dm_lock daemon) locks)) in
      case (if socket_exists then remove_stale calls else None) of
        Some e \<Rightarrow> fails e
      | None \<Rightarrow>
      case create_parent calls of
        Some e \<Rightarrow> fails e
      | None \<Rightarrow>
      case bind_socket calls of
        Some e \<Rightarrow> fails e
      | None \<Rightarrow>
      case set_nonblocking calls of
        Some e \<Rightarrow> fails e
      | None \<Rightarrow> Inr \<lparr>sv_db = dm_db daemon, sv_stats = dm_stats daemon, sv_shutdown = dm_shutdown daemon, sv_main = Testing,
          sv_conns = [], sv_mount = None, sv_socket = True, sv_locks = locks, sv_lock = dm_lock daemon\<rparr>)"

text \<open>A thread's step inside the daemon.\<close>

definition put_conn :: "nat \<Rightarrow> conn_effect \<Rightarrow> Server \<Rightarrow> Server" where
  "put_conn i eff s = (case eff of (c, stats, db, _) \<Rightarrow>
     s\<lparr>sv_conns := (sv_conns s)[i := c], sv_stats := stats, sv_db := db\<rparr>)"

text \<open>A new connection, to which nothing has been written yet.\<close>

definition spawn :: "Sock \<Rightarrow> Server \<Rightarrow> Server" where
  "spawn sock s = s\<lparr>sv_conns := sv_conns s @ [\<lparr>c_sock = sock\<lparr>s_out := []\<rparr>, c_phase = Reading\<rparr>], sv_main := Testing\<rparr>"

text \<open>One step of the main thread; \<open>accepted\<close> is what \<open>accept\<close> returns, \<open>None\<close> for an error.\<close>

definition main_step :: "Sock option \<Rightarrow> Server \<Rightarrow> Server option" where
  "main_step accepted s =
     (case sv_main s of
        Testing \<Rightarrow> Some (s\<lparr>sv_main := if sv_shutdown s then Leaving else Accepting\<rparr>)
      | Accepting \<Rightarrow> Some (case accepted of Some sock \<Rightarrow> spawn sock s | None \<Rightarrow> s\<lparr>sv_main := Testing\<rparr>)
      | Leaving \<Rightarrow> Some (s\<lparr>sv_socket := False, sv_main := Dropping\<rparr>)
      | Dropping \<Rightarrow> Some (s\<lparr>sv_locks := flock_unlock (sv_lock s) (sv_locks s), sv_main := Unlocking\<rparr>)
      | Unlocking \<Rightarrow> Some (s\<lparr>sv_locks := remove_lock_file (sv_locks s), sv_main := Stopped\<rparr>)
      | Stopped \<Rightarrow> None)"

text \<open>A callback on the mount; a panic ends its thread.\<close>

definition mount_step :: "Wire \<Rightarrow> FsOp \<Rightarrow> Fs \<Rightarrow> Fs option \<times> DbHandle \<times> Event" where
  "mount_step w op fs =
     (case fs_call (w_hash w) (w_full w) op fs of
        (Returns reply, fs') \<Rightarrow> (Some fs', fs_db fs', Called op (Some reply) fs)
      | (_, fs') \<Rightarrow> (None, fs_db fs', Called op None fs))"

datatype Actor = MainThread | Signal | Connection nat | Mount

text \<open>
  The steps of the daemon: the main thread, a signal (or \<open>request_shutdown\<close>) that sets the flag, a
  connection, a callback of the mount on the shared database, or the end of the mount.  The events of
  a step carry its actor.
\<close>

inductive sv_step :: "Wire \<Rightarrow> Server \<Rightarrow> Actor \<Rightarrow> (Actor \<times> Event) list \<Rightarrow> Server \<Rightarrow> bool" for w where
  step_main: "main_step accepted s = Some s' \<Longrightarrow> sv_step w s MainThread [] s'"
| step_signal: "sv_step w s Signal [] (s\<lparr>sv_shutdown := True\<rparr>)"
| step_conn: "i < length (sv_conns s) \<Longrightarrow>
    conn_step w now (sv_conns s ! i) (sv_stats s) (sv_db s) = Some (c, stats, db, es) \<Longrightarrow>
    sv_step w s (Connection i) (map (Pair (Connection i)) es) (put_conn i (c, stats, db, es) s)"
| step_mount: "sv_mount s = Some fs \<Longrightarrow> mount_step w op (fs\<lparr>fs_db := sv_db s\<rparr>) = (m, db, e) \<Longrightarrow>
    sv_step w s Mount [(Mount, e)] (s\<lparr>sv_mount := m, sv_db := db\<rparr>)"
| step_unmount: "sv_step w s Mount [] (s\<lparr>sv_mount := None\<rparr>)"

inductive_cases sv_stepE: "sv_step w s a es s'"

text \<open>A run with the actors of its steps and the events, both in order.\<close>

inductive sv_run :: "Wire \<Rightarrow> Server \<Rightarrow> Actor list \<Rightarrow> (Actor \<times> Event) list \<Rightarrow> Server \<Rightarrow> bool" for w s where
  run_start: "sv_run w s [] [] s"
| run_step: "sv_run w s as es s' \<Longrightarrow> sv_step w s' a es' s'' \<Longrightarrow> sv_run w s (as @ [a]) (es @ es') s''"

section \<open>Starting the daemon\<close>

definition default_socket_path :: "string \<Rightarrow> string" where
  "default_socket_path data_dir =
     (if data_dir = [] \<or> last data_dir = CHR ''/'' then data_dir else data_dir @ ''/'') @ ''alefs.sock''"

text \<open>\<open>serve_listener\<close> takes the lock of the directory of the socket.\<close>

definition serve_listener :: "SetupCalls \<Rightarrow> bool \<Rightarrow> Instant \<Rightarrow> string \<Rightarrow> nat \<Rightarrow> DbHandle \<Rightarrow> LockDir \<Rightarrow> (ServeError \<times> LockDir) + Server" where
  "serve_listener calls socket_exists now parent pid db locks =
     (case data_lock_acquire parent pid locks of
        (Inl e, locks) \<Rightarrow> Inl (e, locks)
      | (Inr lock, locks) \<Rightarrow>
          serve_setup calls socket_exists \<lparr>dm_db = db, dm_stats = stats_new now, dm_shutdown = False, dm_lock = lock\<rparr> locks)"

text \<open>
  The command \<open>serve\<close>: the daemon is opened, a mount of its database is started if one is asked for
  (\<open>mounted\<close>: and \<open>fuser\<close> accepts it), and the daemon is served; an error of opening or serving is the
  error of the command.
\<close>

definition serve_command :: "nat \<Rightarrow> SetupCalls \<Rightarrow> bool \<Rightarrow> bool \<Rightarrow> Instant \<Rightarrow> string \<Rightarrow> nat \<Rightarrow> LockDir \<Rightarrow> Disk
    \<Rightarrow> (((string \<times> LockDir) + Server) \<times> Disk) option" where
  "serve_command fuel calls socket_exists mounted now data pid locks d =
     (case open_daemon fuel now data pid locks d of
        None \<Rightarrow> None
      | Some (Inl e, locks, d) \<Rightarrow> Some (Inl (show_serve_error e, locks), d)
      | Some (Inr daemon, locks, d) \<Rightarrow>
          let mount = (if mounted then Some (fs_new (dm_db daemon)) else None) in
          Some (map_sum (\<lambda>(e, locks). (show_serve_error e, locks)) (\<lambda>server. server\<lparr>sv_mount := mount\<rparr>)
            (serve_setup calls socket_exists daemon locks), d))"

end
