(* ===== verification/Threads_Theorems.thy ===== *)
theory Threads_Theorems
  imports Threads Server_Theorems Fuse_Refine
begin

text \<open>
  What holds of the daemon under every interleaving of its connections and its mount: the database goes
  through the trees of a sequential history of the requests and callbacks, every connection gets the
  responses of its own messages in order, and the counters lose no update.
\<close>

section \<open>The rows determine the tree\<close>

lemma node_bytes_inject:
  assumes "node_ok a" "node_ok b" "node_bytes a = node_bytes b"
  shows "a = b"
proof -
  have "node_rec a = node_rec b" using parse_node_bytes [of a] parse_node_bytes [of b] assms(3) by simp
  then show ?thesis using node_ok_decode assms(1,2)
    by (cases a; cases b) (auto, metis node_ok.simps(2) sum.inject(2))
qed

lemma ns_rep_below:
  assumes "ns_rep T n f" "ns_rep U m f"
  shows "T p = Some r \<Longrightarrow> U p = Some r"
proof (induction p arbitrary: r rule: rev_induct)
  case Nil
  then show ?case using tree_root [OF ns_rep_parts(1)] assms by metis
next
  case (snoc x p)
  have T: "tree_ok T" "nodes_rep T f" "links_rep T f" and U: "tree_ok U" "nodes_rep U f" "links_rep U f"
    using assms by (simp_all add: ns_rep_def)
  obtain j nd where r: "r = (j, nd)" by (cases r)
  obtain i where i: "T p = Some (i, DirN)" using tree_parent [OF T(1) snoc.prems] by blast
  then have up: "U p = Some (i, DirN)" by (rule snoc.IH)
  have "f (child_key i x) = Some (encode_id j)" using T(3) i snoc.prems r unfolding links_rep_def by blast
  then obtain q nd1 nd' where "U q = Some (i, nd1)" "U (q @ [x]) = Some (j, nd')"
    using U(3) unfolding links_rep_def by (metis encode_id_inject)
  then have u: "U (p @ [x]) = Some (j, nd')" using tree_inj [OF U(1) _ up] by blast
  have "f (node_key j) = Some (node_bytes nd)" using T(2) snoc.prems r unfolding nodes_rep_def by blast
  then obtain q' nd2 where q': "U q' = Some (j, nd2)" "node_bytes nd = node_bytes nd2"
    using U(2) unfolding nodes_rep_def by metis
  then have "nd2 = nd'" using tree_inj [OF U(1) _ u] u by force
  moreover have "node_ok nd" "node_ok nd'" using T(1) U(1) snoc.prems r u unfolding tree_ok_def by blast+
  ultimately show ?case using u r q'(2) node_bytes_inject by blast
qed

lemma stores_unique:
  assumes "stores t n f" "stores u m f"
  shows "t = u" "n = m"
proof -
  obtain T U where T: "ns_rep T n f" "t = abs_tree T" and U: "ns_rep U m f" "u = abs_tree U"
    using assms by (auto simp: stores_def)
  have "T p = U p" for p
    using ns_rep_below [OF T(1) U(1), of p] ns_rep_below [OF U(1) T(1), of p] by (cases "T p"; cases "U p") simp_all
  then show "t = u" using T(2) U(2) by (simp add: abs_tree_def fun_eq_iff)
  show "n = m" using T(1) U(1) by (simp add: ns_rep_def ids_rep_def)
qed

lemma good_db_unique: "good_db t n db \<Longrightarrow> good_db u m db \<Longrightarrow> t = u \<and> n = m"
  using stores_unique by (auto simp: good_db_def ns_state_def)

section \<open>Histories\<close>

text \<open>The requests of a run with their responses, in the order in which they took effect.\<close>

fun served_of :: "(Actor \<times> Event) list \<Rightarrow> (Request \<times> Response) list" where
  "served_of [] = []"
| "served_of ((i, Served req resp db) # es) = (req, resp) # served_of es"
| "served_of (e # es) = served_of es"

text \<open>The same with the callbacks of the mount.\<close>

datatype Effect = OfRequest Request Response | OfMount FsOp Reply Fs

fun effects_of :: "(Actor \<times> Event) list \<Rightarrow> Effect list" where
  "effects_of [] = []"
| "effects_of ((a, Served req resp db) # es) = OfRequest req resp # effects_of es"
| "effects_of ((a, Called op (Some reply) fs) # es) = OfMount op reply fs # effects_of es"
| "effects_of (e # es) = effects_of es"

text \<open>The events of one connection.\<close>

definition of_conn :: "nat \<Rightarrow> (Actor \<times> Event) list \<Rightarrow> Event list" where
  "of_conn i es = map snd (filter (\<lambda>e. fst e = Connection i) es)"

text \<open>
  A sequential execution: each request is served, and each callback of the mount runs, on the tree that
  the one before it left.
\<close>

inductive serial :: "Wire \<Rightarrow> ns_tree \<Rightarrow> Effect list \<Rightarrow> ns_tree \<Rightarrow> bool" for w t where
  serial_none: "serial w t [] t"
| serial_request: "serial w t h t' \<Longrightarrow> served (w_debug w) req t' resp t'' \<Longrightarrow> serial w t (h @ [OfRequest req resp]) t''"
| serial_mount: "serial w t h t' \<Longrightarrow> fs_outcome (fs_effect (w_hash w) op fs t') t' reply t'' \<Longrightarrow>
    serial w t (h @ [OfMount op reply fs]) t''"

text \<open>Whole exchanges: a message, its answer and the bytes of the answer.\<close>

inductive exchanges :: "Wire \<Rightarrow> Event list \<Rightarrow> bool" for w where
  no_exchange: "exchanges w []"
| exchange_served: "exchanges w es \<Longrightarrow> w_from_slice w p = Inr req \<Longrightarrow> w_to_vec w resp = Inr out \<Longrightarrow>
    exchanges w (es @ [Received p, Served req resp db, Sent out])"
| exchange_refused: "exchanges w es \<Longrightarrow> w_from_slice w p = Inl e \<Longrightarrow> resp = RsErr (''bad request: '' @ e) \<Longrightarrow>
    w_to_vec w resp = Inr out \<Longrightarrow> exchanges w (es @ [Received p, Refused resp, Sent out])"

text \<open>An exchange that has begun, by how far it got.\<close>

definition received :: "Wire \<Rightarrow> Event list \<Rightarrow> (string + Request) \<Rightarrow> bool" where
  "received w es r \<longleftrightarrow> (\<exists>pre p. es = pre @ [Received p] \<and> exchanges w pre \<and> w_from_slice w p = r)"

definition answered :: "Wire \<Rightarrow> Event list \<Rightarrow> Response \<Rightarrow> bool" where
  "answered w es resp \<longleftrightarrow>
     (\<exists>pre req db. es = pre @ [Served req resp db] \<and> received w pre (Inr req))"

definition refused :: "Wire \<Rightarrow> Event list \<Rightarrow> Response \<Rightarrow> bool" where
  "refused w es resp \<longleftrightarrow>
     (\<exists>pre e. es = pre @ [Refused resp] \<and> received w pre (Inl e) \<and> resp = RsErr (''bad request: '' @ e))"

fun dialogue :: "Wire \<Rightarrow> Event list \<Rightarrow> Phase \<Rightarrow> bool" where
  "dialogue w es Reading \<longleftrightarrow> exchanges w es"
| "dialogue w es (BadMessage e) \<longleftrightarrow> received w es (Inl e)"
| "dialogue w es (Counting req) \<longleftrightarrow> received w es (Inr req)"
| "dialogue w es (Classing req) \<longleftrightarrow> received w es (Inr req)"
| "dialogue w es (Serving req) \<longleftrightarrow> received w es (Inr req)"
| "dialogue w es (Loading _ _ _) \<longleftrightarrow> received w es (Inr RqStats)"
| "dialogue w es (Answered resp) \<longleftrightarrow> answered w es resp"
| "dialogue w es (Writing bad resp) \<longleftrightarrow> (if bad then refused w es resp else answered w es resp)"
| "dialogue w es (Finished _) \<longleftrightarrow>
     exchanges w es \<or> (\<exists>r. received w es r) \<or> (\<exists>resp. answered w es resp \<or> refused w es resp)"

fun sent_bytes :: "Event list \<Rightarrow> bytes" where
  "sent_bytes [] = []"
| "sent_bytes (Sent out # es) = frame out @ sent_bytes es"
| "sent_bytes (e # es) = sent_bytes es"

definition unfinished :: "Phase \<Rightarrow> bool" where
  "unfinished ph \<longleftrightarrow> (\<forall>r. ph \<noteq> Finished r)"

text \<open>A connection agrees with its events: the dialogue so far, and the bytes written.\<close>

definition conn_agrees :: "Wire \<Rightarrow> Event list \<Rightarrow> Conn \<Rightarrow> bool" where
  "conn_agrees w es c \<longleftrightarrow>
     dialogue w es (c_phase c) \<and> (unfinished (c_phase c) \<longrightarrow> s_out (c_sock c) = sent_bytes es)"

lemma sent_bytes_append [simp]: "sent_bytes (xs @ ys) = sent_bytes xs @ sent_bytes ys"
  by (induction xs rule: sent_bytes.induct) simp_all

lemma served_of_append [simp]: "served_of (xs @ ys) = served_of xs @ served_of ys"
  by (induction xs rule: served_of.induct) simp_all

lemma effects_of_append [simp]: "effects_of (xs @ ys) = effects_of xs @ effects_of ys"
  by (induction xs rule: effects_of.induct) simp_all

lemma of_conn_append [simp]: "of_conn i (xs @ ys) = of_conn i xs @ of_conn i ys"
  by (simp add: of_conn_def)

lemma of_conn_tagged [simp]: "of_conn i (map (Pair a) es) = (if a = Connection i then es else [])"
  by (auto simp: of_conn_def filter_map comp_def)

lemma of_conn_mount [simp]: "of_conn i [(Mount, e)] = []"
  by (simp add: of_conn_def)

lemma of_conn_Nil [simp]: "of_conn i [] = []"
  by (simp add: of_conn_def)

section \<open>One step of a connection\<close>

lemma read_message_out: "read_message st = (r, st') \<Longrightarrow> s_out st' = s_out st"
  by (auto simp: read_message_def read_exact_def Let_def split: if_splits option.splits)

lemma write_message_out: "write_message out st = (Inr u, st') \<Longrightarrow> s_out st' = s_out st @ frame out"
  by (auto simp: write_message_def write_all_def frame_def Let_def then_at_def split: if_splits sum.splits prod.splits)

lemma read_agrees:
  assumes "exchanges w es" "s_out sock = sent_bytes es" "read_step w sock = (c, es')"
  shows "conn_agrees w (es @ es') c"
proof -
  obtain r st where rd: "read_message sock = (r, st)" by fastforce
  note out = read_message_out [OF rd]
  show ?thesis
  proof (cases r)
    case (Inl e)
    then show ?thesis using assms rd by (auto simp: read_step_def conn_agrees_def unfinished_def)
  next
    case (Inr m)
    show ?thesis
    proof (cases m)
      case None
      then show ?thesis using Inr assms rd by (auto simp: read_step_def conn_agrees_def unfinished_def)
    next
      case (Some p)
      have c: "c = \<lparr>c_sock = st, c_phase = (case w_from_slice w p of Inl e \<Rightarrow> BadMessage e | Inr q \<Rightarrow> Counting q)\<rparr>" "es' = [Received p]"
        using Some Inr assms(3) rd by (auto simp: read_step_def)
      moreover have "received w (es @ [Received p]) (w_from_slice w p)" using assms(1) by (auto simp: received_def)
      ultimately show ?thesis using assms(2) out by (cases "w_from_slice w p") (simp_all add: conn_agrees_def)
    qed
  qed
qed

lemma exchange_done:
  assumes "if bad then refused w es resp else answered w es resp" "w_to_vec w resp = Inr out"
  shows "exchanges w (es @ [Sent out])"
  using assms exchange_served [of w] exchange_refused [of w]
  by (fastforce simp: refused_def answered_def received_def split: if_splits)

lemma write_agrees:
  assumes "if bad then refused w es resp else answered w es resp" "s_out sock = sent_bytes es"
    and "write_step w bad resp sock = (c, es')"
  shows "conn_agrees w (es @ es') c"
proof (cases "w_to_vec w resp")
  case (Inl e)
  then show ?thesis using assms by (auto simp: write_step_def conn_agrees_def unfinished_def split: if_splits)
next
  case (Inr out)
  obtain r st where wr: "write_message out sock = (r, st)" by fastforce
  show ?thesis
  proof (cases r)
    case (Inl e)
    then show ?thesis using assms Inr wr by (auto simp: write_step_def conn_agrees_def unfinished_def split: if_splits)
  next
    case r: (Inr u)
    have "c = \<lparr>c_sock = st, c_phase = Reading\<rparr>" "es' = [Sent out]" using assms(3) Inr wr r by (simp_all add: write_step_def)
    then show ?thesis using exchange_done [OF assms(1) Inr] write_message_out [OF wr [unfolded r]] assms(2)
      by (simp add: conn_agrees_def)
  qed
qed

text \<open>On a well-formed database only reads could panic, and they do not.\<close>

lemma with_db_mut_no_panic: "with_db_mut f db \<noteq> (Panics, db')"
  by (auto simp: with_db_mut_def split: option.splits prod.splits sum.splits)

lemma panic_is_read: "serve_request fuel dbg now stats req db = (Panics, db') \<Longrightarrow> request_ok dbg req t n"
  by (cases req) (simp_all add: with_db_mut_no_panic apply_batch_def)

lemma serve_step_good:
  assumes "good_db t n db" and step: "serve_step w now req c stats db = Some (c', stats', db', es)"
    and ok: "\<And>resp. Served req resp db \<in> set es \<Longrightarrow> request_ok (w_debug w) req t n"
  shows "req = RqStats \<and> c' = c\<lparr>c_phase := Loading (uptime_secs now stats) (keys_approx db) []\<rparr> \<and> db' = db \<and> es = []
    \<or> (\<exists>resp t' n'. c' = c\<lparr>c_phase := Answered resp\<rparr> \<and> es = [Served req resp db] \<and> good_db t' n' db'
         \<and> served (w_debug w) req t resp t')"
proof (cases "req = RqStats")
  case True
  then show ?thesis using step by (auto simp: serve_step_def)
next
  case False
  obtain r d where run: "serve_request (enough_fuel req db) (w_debug w) now stats req db = (r, d)" by fastforce
  have "request_ok (w_debug w) req t n"
  proof (cases r)
    case (Returns resp)
    then show ?thesis using step False run by (intro ok [of resp]) (auto simp: serve_step_def)
  next
    case Panics
    then show ?thesis using run panic_is_read by blast
  next
    case Unfinished
    then show ?thesis using step False run by (simp add: serve_step_def)
  qed
  then obtain resp t' n' where "r = Returns resp" "good_db t' n' d" "served (w_debug w) req t resp t'"
    using request_served [OF assms(1), of "w_debug w" req "enough_fuel req db" now stats] run by (auto simp: enough_fuel_def)
  then show ?thesis using step False run by (auto simp: serve_step_def)
qed

text \<open>A step keeps the dialogue of its connection, whatever it does to the database.\<close>

lemma conn_step_agrees:
  assumes step: "conn_step w now c stats db = Some (c', stats', db', es')" and agrees: "conn_agrees w es c"
  shows "conn_agrees w (es @ es') c'"
proof (cases "c_phase c")
  case Reading
  then have "read_step w (c_sock c) = (c', es')" using step by (auto simp: conn_step_def split: prod.splits)
  from read_agrees [OF _ _ this] show ?thesis using agrees Reading by (simp add: conn_agrees_def unfinished_def)
next
  case (Writing bad resp)
  then have "write_step w bad resp (c_sock c) = (c', es')" using step by (auto simp: conn_step_def split: prod.splits)
  from write_agrees [OF _ _ this] show ?thesis using agrees Writing by (simp add: conn_agrees_def unfinished_def)
next
  case (Serving req)
  then show ?thesis using step agrees
    by (auto simp: conn_step_def serve_step_def conn_agrees_def unfinished_def answered_def split: if_splits prod.splits run.splits)
next
  case (Loading up keys ls)
  then show ?thesis using step agrees
    by (auto simp: conn_step_def load_step_def conn_agrees_def unfinished_def answered_def Let_def split: list.splits)
qed (use step agrees in \<open>auto simp: conn_step_def conn_agrees_def unfinished_def refused_def Let_def\<close>)

text \<open>Outside the two phases that use the database a step leaves it alone and has no effect.\<close>

lemma conn_step_local:
  assumes "conn_step w now c stats db = Some (c', stats', db', es')"
    and "\<And>req. c_phase c \<noteq> Serving req" "\<And>up keys ls. c_phase c \<noteq> Loading up keys ls"
  shows "db' = db" "effects_of (map (Pair a) es') = []"
  using assms
  by (auto simp: conn_step_def read_step_def write_step_def Let_def split: Phase.splits prod.splits sum.splits option.splits)

text \<open>What one step of a connection does to the database and the history.\<close>

lemma conn_step_good:
  assumes "good_db t n db" and step: "conn_step w now c stats db = Some (c', stats', db', es')"
    and ok: "\<And>req resp. Served req resp db \<in> set es' \<Longrightarrow> request_ok (w_debug w) req t n"
  shows "(\<exists>t' n'. good_db t' n' db' \<and> (\<forall>u h a. serial w u h t \<longrightarrow> serial w u (h @ effects_of (map (Pair a) es')) t'))
    \<and> (\<forall>req. c_phase c' = Finished Panics \<longrightarrow> c_phase c \<noteq> Serving req)"
proof (cases "c_phase c")
  case (Serving req)
  then have "serve_step w now req c stats db = Some (c', stats', db', es')" using step by (simp add: conn_step_def)
  from serve_step_good [OF assms(1) this] ok
  consider up keys where "c' = c\<lparr>c_phase := Loading up keys []\<rparr>" "db' = db" "es' = []"
    | resp t' n' where "c' = c\<lparr>c_phase := Answered resp\<rparr>" "es' = [Served req resp db]" "good_db t' n' db'"
        "served (w_debug w) req t resp t'"
    by blast
  then show ?thesis using assms(1) by cases (auto intro!: serial_request)
next
  case (Loading up keys ls)
  then have "load_step up keys ls c stats db = (c', stats', db', es')" using step by (simp add: conn_step_def)
  then have "db' = db" "es' = [] \<or> (\<exists>a b q e. es' = [Served RqStats (RsStats up a b q e keys) db])"
    by (auto simp: load_step_def Let_def split: list.splits)
  then show ?thesis using assms(1) Loading by (auto intro!: exI [of _ t] exI [of _ n] serial_request)
qed (use conn_step_local [OF step] assms(1) in auto)

section \<open>The counters\<close>

lemma update_held:
  "i < length cs \<Longrightarrow> sum_list (map f (cs[i := c])) = sum_list (map f cs) - f (cs ! i) + (f c :: u64)"
proof (induction cs arbitrary: i)
  case (Cons x cs)
  then show ?case by (cases i) (simp_all add: algebra_simps)
qed simp

text \<open>
  A counter of the daemon: the part of the counters that is read, what an event is worth, and what a
  thread has added (or will take off) between its increment and the event.  Every step of a
  connection keeps the account, unless the thread panics inside the database.
\<close>

locale ledger =
  fixes balance :: "ServerStats \<Rightarrow> u64" and worth :: "Event \<Rightarrow> u64" and held :: "Phase \<Rightarrow> u64"
  assumes account: "conn_step w now c stats db = Some (c', stats', db', es) \<Longrightarrow>
      \<not> (c_phase c' = Finished Panics \<and> (\<exists>req. c_phase c = Serving req)) \<Longrightarrow>
      balance stats' + held (c_phase c) = balance stats + sum_list (map worth es) + held (c_phase c')"
    and idle: "held Reading = 0"
    and elsewhere: "worth (Called op reply fs) = 0"
begin

lemma keeps_account:
  assumes "balance (sv_stats s) = b + sum_list (map (worth \<circ> snd) es) + sum_list (map (held \<circ> c_phase) (sv_conns s))"
    and "sv_step w s a es' s'"
    and quiet: "\<And>i req. a = Connection i \<Longrightarrow> c_phase (sv_conns s' ! i) = Finished Panics \<Longrightarrow> c_phase (sv_conns s ! i) \<noteq> Serving req"
  shows "balance (sv_stats s') = b + sum_list (map (worth \<circ> snd) (es @ es')) + sum_list (map (held \<circ> c_phase) (sv_conns s'))"
  using assms(2)
proof cases
  case (step_main accepted)
  then show ?thesis using assms(1) idle
    by (auto simp: main_step_def spawn_def split: MainPc.splits option.splits)
next
  case (step_mount fs op m db e)
  then have "\<exists>op reply fs. e = Called op reply fs" by (auto simp: mount_step_def split: prod.splits run.splits)
  then show ?thesis using step_mount assms(1) elsewhere by auto
next
  case (step_conn i now c stats db es1)
  let ?c = "sv_conns s ! i"
  have "\<not> (c_phase c = Finished Panics \<and> (\<exists>req. c_phase ?c = Serving req))"
    using quiet [of i] step_conn by (auto simp: put_conn_def)
  from account [OF step_conn(5) this]
  have "balance stats + held (c_phase ?c) = balance (sv_stats s) + sum_list (map worth es1) + held (c_phase c)" .
  then have "balance stats = balance (sv_stats s) + sum_list (map worth es1) + held (c_phase c) - held (c_phase ?c)"
    by (metis add_diff_cancel_right')
  then show ?thesis using step_conn assms(1) update_held [of i "sv_conns s" "held \<circ> c_phase" c]
    by (simp add: put_conn_def comp_def)
qed (use assms(1) in simp_all)

end

text \<open>The four counters.\<close>

fun is_query :: "Request \<Rightarrow> bool" where
  "is_query (RqQuery _) = True"
| "is_query _ = False"

fun requests_worth :: "Event \<Rightarrow> u64" where
  "requests_worth (Served _ _ _) = 1"
| "requests_worth _ = 0"

fun requests_held :: "Phase \<Rightarrow> u64" where
  "requests_held (Classing _) = 1"
| "requests_held (Serving _) = 1"
| "requests_held (Loading _ _ _) = 1"
| "requests_held _ = 0"

fun queries_worth :: "Event \<Rightarrow> u64" where
  "queries_worth (Served req _ _) = of_bool (is_query req)"
| "queries_worth _ = 0"

fun queries_held :: "Phase \<Rightarrow> u64" where
  "queries_held (Serving req) = of_bool (is_query req)"
| "queries_held _ = 0"

fun mutations_worth :: "Event \<Rightarrow> u64" where
  "mutations_worth (Served req _ _) = of_bool (\<not> read_only req)"
| "mutations_worth _ = 0"

fun mutations_held :: "Phase \<Rightarrow> u64" where
  "mutations_held (Serving req) = of_bool (\<not> read_only req)"
| "mutations_held _ = 0"

fun errors_worth :: "Event \<Rightarrow> u64" where
  "errors_worth (Served _ resp _) = of_bool (is_err resp)"
| "errors_worth (Refused _) = 1"
| "errors_worth _ = 0"

fun errors_held :: "Phase \<Rightarrow> u64" where
  "errors_held (Answered resp) = - of_bool (is_err resp)"
| "errors_held _ = 0"

lemma count_request_classes:
  "queries (count_request req stats) = queries stats + of_bool (is_query req)"
  "mutations (count_request req stats) = mutations stats + of_bool (\<not> read_only req)"
  by (cases req; simp add: count_request_def)+

lemma count_error_classes [simp]:
  "requests (count_error resp stats) = requests stats" "queries (count_error resp stats) = queries stats"
  "mutations (count_error resp stats) = mutations stats" "errors (count_error resp stats) = errors stats + of_bool (is_err resp)"
  by (simp_all add: count_error_eq)

text \<open>A step by its kind; only four kinds touch a counter.\<close>

lemma conn_step_kinds:
  assumes "conn_step w now c stats db = Some (c', stats', db', es)"
    and "\<not> (c_phase c' = Finished Panics \<and> (\<exists>req. c_phase c = Serving req))"
  obtains
    (socket) "stats' = stats" "c_phase c = Reading \<or> (\<exists>bad resp. c_phase c = Writing bad resp)"
      "c_phase c' = Reading \<or> (\<exists>e. c_phase c' = BadMessage e) \<or> (\<exists>req. c_phase c' = Counting req) \<or> (\<exists>r. c_phase c' = Finished r)"
      "es = [] \<or> (\<exists>p. es = [Received p]) \<or> (\<exists>out. es = [Sent out])"
  | (bad) e resp where "c_phase c = BadMessage e" "stats' = stats\<lparr>errors := errors stats + 1\<rparr>" "c_phase c' = Writing True resp" "es = [Refused resp]"
  | (arrives) req where "c_phase c = Counting req" "stats' = stats\<lparr>requests := requests stats + 1\<rparr>" "c_phase c' = Classing req" "es = []"
  | (classed) req where "c_phase c = Classing req" "stats' = count_request req stats" "c_phase c' = Serving req" "es = []"
  | (serves) req resp where "c_phase c = Serving req" "stats' = stats" "c_phase c' = Answered resp" "es = [Served req resp db]"
  | (loads) up keys ls where "c_phase c = Serving RqStats \<or> (\<exists>ls. c_phase c = Loading up keys ls)" "stats' = stats" "c_phase c' = Loading up keys ls" "es = []"
  | (loaded) up keys ls resp where "c_phase c = Loading up keys ls" "stats' = stats" "c_phase c' = Answered resp" "es = [Served RqStats resp db]"
  | (errs) resp where "c_phase c = Answered resp" "stats' = count_error resp stats" "c_phase c' = Writing False resp" "es = []"
proof (cases "c_phase c")
  case Reading
  then show thesis using assms(1) socket
    by (auto simp: conn_step_def read_step_def split: prod.splits sum.splits option.splits)
next
  case (BadMessage e)
  then show thesis using assms(1) bad by (auto simp: conn_step_def Let_def)
next
  case (Counting req)
  then show thesis using assms(1) arrives by (auto simp: conn_step_def)
next
  case (Classing req)
  then show thesis using assms(1) classed by (auto simp: conn_step_def)
next
  case (Serving req)
  then show thesis using assms serves loads
    by (auto simp: conn_step_def serve_step_def split: if_splits prod.splits run.splits)
next
  case (Loading up keys ls)
  then show thesis using assms(1) loads loaded
    by (auto simp: conn_step_def load_step_def Let_def split: list.splits)
next
  case (Answered resp)
  then show thesis using assms(1) errs by (auto simp: conn_step_def)
next
  case (Writing b resp)
  then show thesis using assms(1) socket
    by (auto simp: conn_step_def write_step_def split: prod.splits sum.splits)
next
  case (Finished r)
  then show thesis using assms(1) by (simp add: conn_step_def)
qed

interpretation request_ledger: ledger requests requests_worth requests_held
proof unfold_locales
  fix w now c stats db c' stats' db' es
  assume "conn_step w now c stats db = Some (c', stats', db', es)"
    "\<not> (c_phase c' = Finished Panics \<and> (\<exists>req. c_phase c = Serving req))"
  then show "requests stats' + requests_held (c_phase c) = requests stats + sum_list (map requests_worth es) + requests_held (c_phase c')"
    by (cases rule: conn_step_kinds) auto
qed simp_all

interpretation query_ledger: ledger queries queries_worth queries_held
proof unfold_locales
  fix w now c stats db c' stats' db' es
  assume "conn_step w now c stats db = Some (c', stats', db', es)"
    "\<not> (c_phase c' = Finished Panics \<and> (\<exists>req. c_phase c = Serving req))"
  then show "queries stats' + queries_held (c_phase c) = queries stats + sum_list (map queries_worth es) + queries_held (c_phase c')"
    by (cases rule: conn_step_kinds) (auto simp: count_request_classes)
qed simp_all

interpretation mutation_ledger: ledger mutations mutations_worth mutations_held
proof unfold_locales
  fix w now c stats db c' stats' db' es
  assume "conn_step w now c stats db = Some (c', stats', db', es)"
    "\<not> (c_phase c' = Finished Panics \<and> (\<exists>req. c_phase c = Serving req))"
  then show "mutations stats' + mutations_held (c_phase c) = mutations stats + sum_list (map mutations_worth es) + mutations_held (c_phase c')"
    by (cases rule: conn_step_kinds) (auto simp: count_request_classes)
qed simp_all

interpretation error_ledger: ledger errors errors_worth errors_held
proof unfold_locales
  fix w now c stats db c' stats' db' es
  assume "conn_step w now c stats db = Some (c', stats', db', es)"
    "\<not> (c_phase c' = Finished Panics \<and> (\<exists>req. c_phase c = Serving req))"
  then show "errors stats' + errors_held (c_phase c) = errors stats + sum_list (map errors_worth es) + errors_held (c_phase c')"
    by (cases rule: conn_step_kinds) (auto simp: algebra_simps)
qed simp_all

section \<open>Every run\<close>

text \<open>
  Requests and callbacks within the limits of the codec and the identifiers, on the database they were
  served on.
\<close>

definition within_limits :: "Wire \<Rightarrow> (Actor \<times> Event) list \<Rightarrow> bool" where
  "within_limits w es \<longleftrightarrow>
     (\<forall>a req resp db t n. (a, Served req resp db) \<in> set es \<longrightarrow> good_db t n db \<longrightarrow> request_ok (w_debug w) req t n)
   \<and> (\<forall>a op reply fs t n. (a, Called op reply fs) \<in> set es \<longrightarrow> good_fs t n fs \<longrightarrow> call_ok (w_hash w) op fs t n)"

definition accounts :: "Server \<Rightarrow> (Actor \<times> Event) list \<Rightarrow> Server \<Rightarrow> bool" where
  "accounts s0 es s \<longleftrightarrow>
     requests (sv_stats s) = requests (sv_stats s0) + sum_list (map (requests_worth \<circ> snd) es) + sum_list (map (requests_held \<circ> c_phase) (sv_conns s))
   \<and> queries (sv_stats s) = queries (sv_stats s0) + sum_list (map (queries_worth \<circ> snd) es) + sum_list (map (queries_held \<circ> c_phase) (sv_conns s))
   \<and> mutations (sv_stats s) = mutations (sv_stats s0) + sum_list (map (mutations_worth \<circ> snd) es) + sum_list (map (mutations_held \<circ> c_phase) (sv_conns s))
   \<and> errors (sv_stats s) = errors (sv_stats s0) + sum_list (map (errors_worth \<circ> snd) es) + sum_list (map (errors_held \<circ> c_phase) (sv_conns s))"

definition run_ok :: "Wire \<Rightarrow> ns_tree \<Rightarrow> Server \<Rightarrow> (Actor \<times> Event) list \<Rightarrow> Server \<Rightarrow> bool" where
  "run_ok w t0 s0 es s \<longleftrightarrow>
     (\<exists>t n. good_db t n (sv_db s) \<and> serial w t0 (effects_of es) t)
   \<and> (\<forall>fs. sv_mount s = Some fs \<longrightarrow> inodes_ok fs)
   \<and> (\<forall>i < length (sv_conns s). conn_agrees w (of_conn i es) (sv_conns s ! i))
   \<and> (\<forall>i \<ge> length (sv_conns s). of_conn i es = [])
   \<and> accounts s0 es s"

lemma accounts_step:
  assumes "accounts s0 es s" "sv_step w s a es' s'"
    and "\<And>i req. a = Connection i \<Longrightarrow> c_phase (sv_conns s' ! i) = Finished Panics \<Longrightarrow> c_phase (sv_conns s ! i) \<noteq> Serving req"
  shows "accounts s0 (es @ es') s'"
  using request_ledger.keeps_account [OF _ assms(2,3)] query_ledger.keeps_account [OF _ assms(2,3)]
    mutation_ledger.keeps_account [OF _ assms(2,3)] error_ledger.keeps_account [OF _ assms(2,3)] assms(1)
  unfolding accounts_def by meson

lemma new_conn_agrees: "conn_agrees w [] \<lparr>c_sock = sock\<lparr>s_out := []\<rparr>, c_phase = Reading\<rparr>"
  by (simp add: conn_agrees_def no_exchange)

lemma main_step_run:
  assumes "run_ok w t0 s0 es s" "main_step accepted s = Some s'"
  shows "run_ok w t0 s0 es s'"
proof -
  have "accounts s0 (es @ []) s'" using assms by (intro accounts_step [OF _ step_main]) (auto simp: run_ok_def)
  moreover have "sv_conns s' = sv_conns s \<or> (\<exists>sock. sv_conns s' = sv_conns s @ [\<lparr>c_sock = sock\<lparr>s_out := []\<rparr>, c_phase = Reading\<rparr>])"
    "sv_db s' = sv_db s" "sv_mount s' = sv_mount s"
    using assms(2) by (auto simp: main_step_def spawn_def split: MainPc.splits option.splits)
  ultimately show ?thesis using assms(1) new_conn_agrees
    by (auto simp: run_ok_def nth_append not_less less_Suc_eq)
qed

lemma conn_step_run:
  assumes run: "run_ok w t0 s0 es s" and i: "i < length (sv_conns s)"
    and step: "conn_step w now (sv_conns s ! i) (sv_stats s) (sv_db s) = Some (c, stats, db, es')"
    and lim: "within_limits w (map (Pair (Connection i)) es')"
  shows "run_ok w t0 s0 (es @ map (Pair (Connection i)) es') (put_conn i (c, stats, db, es') s)" (is "run_ok w t0 s0 _ ?s'")
proof -
  obtain t n where t: "good_db t n (sv_db s)" "serial w t0 (effects_of es) t"
    and ag: "conn_agrees w (of_conn i es) (sv_conns s ! i)" using run i by (auto simp: run_ok_def)
  have ok: "request_ok (w_debug w) req t n" if "Served req resp (sv_db s) \<in> set es'" for req resp
    using that lim t(1) unfolding within_limits_def by fastforce
  have good: "\<exists>t' n'. good_db t' n' db \<and> (\<forall>u h a. serial w u h t \<longrightarrow> serial w u (h @ effects_of (map (Pair a) es')) t')"
    "\<forall>req. c_phase c = Finished Panics \<longrightarrow> c_phase (sv_conns s ! i) \<noteq> Serving req"
    using conn_step_good [OF t(1) step] ok by blast+
  have "sv_step w s (Connection i) (map (Pair (Connection i)) es') ?s'" by (rule step_conn [OF i step])
  moreover have "accounts s0 es s" using run by (simp add: run_ok_def)
  ultimately have "accounts s0 (es @ map (Pair (Connection i)) es') ?s'"
    using good(2) i by (intro accounts_step) (auto simp: put_conn_def)
  moreover have "\<exists>t n. good_db t n (sv_db ?s') \<and> serial w t0 (effects_of (es @ map (Pair (Connection i)) es')) t"
    using good(1) t(2) by (auto simp: put_conn_def)
  moreover have "conn_agrees w (of_conn j (es @ map (Pair (Connection i)) es')) (sv_conns ?s' ! j)" if "j < length (sv_conns s)" for j
    using that run conn_step_agrees [OF step ag] by (auto simp: run_ok_def put_conn_def nth_list_update)
  ultimately show ?thesis using run i by (auto simp: run_ok_def put_conn_def)
qed

lemma mount_step_run:
  assumes run: "run_ok w t0 s0 es s" and fs: "sv_mount s = Some fs"
    and step: "mount_step w op (fs\<lparr>fs_db := sv_db s\<rparr>) = (m, db, e)" and lim: "within_limits w [(Mount, e)]"
  shows "run_ok w t0 s0 (es @ [(Mount, e)]) (s\<lparr>sv_mount := m, sv_db := db\<rparr>)" (is "run_ok w t0 s0 _ ?s'")
proof -
  let ?fs = "fs\<lparr>fs_db := sv_db s\<rparr>"
  obtain t n where t: "good_db t n (sv_db s)" "serial w t0 (effects_of es) t" using run by (auto simp: run_ok_def)
  then have g: "good_fs t n ?fs" using run fs by (simp add: run_ok_def good_fs_def)
  obtain reply where "e = Called op reply ?fs" using step by (auto simp: mount_step_def split: prod.splits run.splits)
  then have "call_ok (w_hash w) op ?fs t n" using lim g by (simp add: within_limits_def)
  from call_answers [OF g this, of "w_full w"] obtain reply fs' t' n' where
    c: "fs_call (w_hash w) (w_full w) op ?fs = (Returns reply, fs')" "good_fs t' n' fs'" "fs_outcome (fs_effect (w_hash w) op ?fs t) t reply t'"
    by (auto simp: answers_def)
  then have m: "m = Some fs'" "db = fs_db fs'" "e = Called op (Some reply) ?fs" using step by (simp_all add: mount_step_def)
  have "serial w t0 (effects_of (es @ [(Mount, e)])) t'" using serial_mount [OF t(2) c(3)] m(3) by simp
  moreover have "accounts s0 (es @ [(Mount, e)]) ?s'"
    using run by (intro accounts_step [OF _ step_mount [OF fs step]]) (simp_all add: run_ok_def)
  ultimately show ?thesis using run c(2) m by (auto simp: run_ok_def good_fs_def)
qed

lemma run_keeps_ok:
  assumes "sv_run w s0 as es s" and "good_db t0 n0 (sv_db s0)" "sv_conns s0 = []" "within_limits w es"
    and mount: "\<And>fs. sv_mount s0 = Some fs \<Longrightarrow> inodes_ok fs"
  shows "run_ok w t0 s0 es s"
  using assms(1,4)
proof (induction rule: sv_run.induct)
  case run_start
  then show ?case using assms(2,3) mount by (auto simp: run_ok_def accounts_def intro: serial_none)
next
  case (run_step as es s' a es' s'')
  have IH: "run_ok w t0 s0 es s'" and lim: "within_limits w es'"
    using run_step by (auto simp: within_limits_def)
  from run_step(2) show ?case
  proof cases
    case (step_main accepted)
    then show ?thesis using main_step_run [OF IH] by simp
  next
    case step_signal
    then show ?thesis using IH by (simp add: run_ok_def accounts_def)
  next
    case (step_conn i now c stats db es1)
    then show ?thesis using conn_step_run [OF IH] lim by simp
  next
    case (step_mount fs op m db e)
    then show ?thesis using mount_step_run [OF IH] lim by simp
  next
    case step_unmount
    then show ?thesis using IH by (simp add: run_ok_def accounts_def)
  qed
qed

end
