(* ===== verification/Threads_Properties.thy ===== *)
theory Threads_Properties
  imports Threads_Theorems Server_Restart
begin

text \<open>
  The properties of the running daemon: sequential histories, exact counters, answered messages, and
  what happens at shutdown.
\<close>

section \<open>A daemon that starts\<close>

definition fresh_server :: "ns_tree \<Rightarrow> u64 \<Rightarrow> Server \<Rightarrow> bool" where
  "fresh_server t n s \<longleftrightarrow> good_db t n (sv_db s) \<and> sv_conns s = [] \<and> (\<forall>fs. sv_mount s = Some fs \<longrightarrow> inodes_ok fs)"

lemma fresh_run: "sv_run w s0 as es s \<Longrightarrow> fresh_server t0 n0 s0 \<Longrightarrow> within_limits w es \<Longrightarrow> run_ok w t0 s0 es s"
  using run_keeps_ok unfolding fresh_server_def by blast

lemma serve_setup_fresh: "serve_setup calls exists daemon locks = Inr s \<Longrightarrow> good_db t n (dm_db daemon) \<Longrightarrow> fresh_server t n s"
  by (auto simp: serve_setup_def fresh_server_def Let_def split: option.splits)

text \<open>The command \<open>serve\<close> on a directory that holds a tree, with or without a mount, starts such a daemon.\<close>

lemma serve_command_fresh:
  assumes "wal_inv st" "ns_state wal_map wal_map_ok t n st" "length (wal_map st) \<le> fuel"
    and "serve_command fuel calls exists mounted now data pid locks (disk st) = Some (Inr s, d)"
  shows "fresh_server t n s"
proof -
  obtain r d' where o: "open_db fuel (disk st) = Some (r, d')" "\<forall>h. r = Inr h \<longrightarrow> good_db t n h"
    using open_db_good [OF assms(1-3)] by blast
  then obtain h lock locks' server where h: "good_db t n h"
      "serve_setup calls exists \<lparr>dm_db = h, dm_stats = stats_new now, dm_shutdown = False, dm_lock = lock\<rparr> locks' = Inr server"
      "s = server\<lparr>sv_mount := if mounted then Some (fs_new h) else None\<rparr>"
    using assms(4)
    by (auto simp: serve_command_def open_daemon_def Let_def map_sum_Inr_iff split: option.splits sum.splits prod.splits if_splits)
  show ?thesis using serve_setup_fresh [OF h(2)] h(1,3) inodes_ok_new [of h] by (auto simp: fresh_server_def)
qed

section \<open>A small run\<close>

definition five_request :: Request where
  "five_request = RqSet ''/a'' ''int'' ''5''"

definition five_wire :: Wire where
  "five_wire = \<lparr>w_debug = plain_debug, w_from_slice = (\<lambda>p. if p = [0] then Inr five_request else Inl ''?''),
     w_to_vec = (\<lambda>r. Inr (tiny_encode r)), w_hash = (\<lambda>_. 0), w_full = (\<lambda>_ _. False)\<rparr>"

definition root_daemon :: Daemon where
  "root_daemon = \<lparr>dm_db = root_handle, dm_stats = stats_new 0, dm_shutdown = False, dm_lock = 0\<rparr>"

definition held_lock :: LockDir where
  "held_lock = \<lparr>lk_entry = Some 0, lk_next = 1, lk_owner = [0 \<mapsto> 7]\<rparr>"

definition calls_ok :: SetupCalls where
  "calls_ok = \<lparr>remove_stale = None, create_parent = None, bind_socket = None, set_nonblocking = None\<rparr>"

text \<open>The daemon of the example, by what changes in it.\<close>

definition five_server :: "MainPc \<Rightarrow> bool \<Rightarrow> Conn list \<Rightarrow> ServerStats \<Rightarrow> DbHandle \<Rightarrow> Server" where
  "five_server main stop conns stats db = \<lparr>sv_db = db, sv_stats = stats, sv_shutdown = stop, sv_main = main, sv_conns = conns,
     sv_mount = None, sv_socket = True, sv_locks = held_lock, sv_lock = 0\<rparr>"

definition five_sock :: Sock where
  "five_sock = \<lparr>s_in = [], s_fault = None, s_out = [], s_room = 100\<rparr>"

definition five_stats :: ServerStats where
  "five_stats = (stats_new 0)\<lparr>requests := 1, mutations := 1\<rparr>"

lemma five_setup: "serve_setup calls_ok False root_daemon held_lock = Inr (five_server Testing False [] (stats_new 0) root_handle)"
  by (simp add: serve_setup_def calls_ok_def five_server_def root_daemon_def)

lemma sv_run_append:
  assumes "sv_run w a as es b" "sv_run w b bs fs c"
  shows "sv_run w a (as @ bs) (es @ fs) c"
  using assms(2)
proof (induction rule: sv_run.induct)
  case (run_step bs fs c x gs d)
  then show ?case using sv_run.run_step [OF run_step(3) run_step(2)] by simp
qed (use assms(1) in simp)

lemma run_conn:
  assumes "sv_run w s as es s'" "i < length (sv_conns s')"
    and "conn_step w now (sv_conns s' ! i) (sv_stats s') (sv_db s') = Some (c, stats, db, es')"
  shows "sv_run w s (as @ [Connection i]) (es @ map (Pair (Connection i)) es') (put_conn i (c, stats, db, es') s')"
  by (rule run_step [OF assms(1) step_conn [OF assms(2,3)]])

lemma run_main:
  assumes "sv_run w s as es s'" "main_step accepted s' = Some s''"
  shows "sv_run w s (as @ [MainThread]) es s''"
  using run_step [OF assms(1) step_main [OF assms(2)]] by simp

lemma five_received:
  "sv_run five_wire (five_server Testing False [] (stats_new 0) root_handle)
     [MainThread, MainThread, Connection 0, Connection 0, Connection 0] [(Connection 0, Received [0])]
     (five_server Testing False [\<lparr>c_sock = five_sock, c_phase = Serving five_request\<rparr>] five_stats root_handle)"
proof -
  let ?srv = "\<lambda>main conns stats. five_server main False conns stats root_handle"
  let ?conn = "\<lambda>ph. [\<lparr>c_sock = five_sock, c_phase = ph\<rparr>]"
  let ?in = "\<lparr>c_sock = five_sock\<lparr>s_in := frame [0]\<rparr>, c_phase = Reading\<rparr>"
  let ?s0 = "?srv Testing [] (stats_new 0)"
  have "sv_run five_wire ?s0 [MainThread] [] (?srv Accepting [] (stats_new 0))"
    using run_main [OF run_start [of five_wire ?s0]] by (simp add: main_step_def five_server_def)
  from run_main [OF this, of "Some (five_sock\<lparr>s_in := frame [0]\<rparr>)"]
  have "sv_run five_wire ?s0 [MainThread, MainThread] [] (?srv Testing [?in] (stats_new 0))"
    by (simp add: main_step_def spawn_def five_server_def five_sock_def)
  note r = run_conn [OF this, of 0]
  have "read_message (five_sock\<lparr>s_in := frame [0]\<rparr>) = (Inr (Some [0]), five_sock)"
    using read_frame [of "[0]" "five_sock\<lparr>s_in := frame [0]\<rparr>" "[]"] by (simp add: MAX_MESSAGE_def five_sock_def)
  then have "sv_run five_wire ?s0 [MainThread, MainThread, Connection 0] [(Connection 0, Received [0])] (?srv Testing (?conn (Counting five_request)) (stats_new 0))"
    using r by (simp add: conn_step_def read_step_def five_server_def five_wire_def put_conn_def)
  from run_conn [OF this, of 0]
  have "sv_run five_wire ?s0 [MainThread, MainThread, Connection 0, Connection 0] [(Connection 0, Received [0])]
      (?srv Testing (?conn (Classing five_request)) ((stats_new 0)\<lparr>requests := 1\<rparr>))"
    by (simp add: conn_step_def five_server_def put_conn_def stats_new_def)
  from run_conn [OF this, of 0] show ?thesis
    by (simp add: conn_step_def five_server_def put_conn_def stats_new_def five_stats_def count_request_def five_request_def)
qed

lemma five_serve:
  "serve_request fuel dbg now stats five_request root_handle = (Returns (RsOk ''ok /a''), five_handle)"
  using set_five_batch set_five_commit set_five_parse
  by (simp add: five_request_def with_db_mut_def root_handle_def five_handle_def db_set_def store_commit_def ns_reply_def as_str_def)

lemma five_served_step:
  "serve_step five_wire now five_request c stats root_handle
     = Some (c\<lparr>c_phase := Answered (RsOk ''ok /a'')\<rparr>, stats, five_handle, [Served five_request (RsOk ''ok /a'') root_handle])"
  using five_serve by (simp add: serve_step_def five_request_def)

lemma five_answered:
  "\<exists>as. sv_run five_wire (five_server Testing False [] (stats_new 0) root_handle) as
     [(Connection 0, Received [0]), (Connection 0, Served five_request (RsOk ''ok /a'') root_handle), (Connection 0, Sent [0])]
     (five_server Testing False [\<lparr>c_sock = five_sock\<lparr>s_out := frame [0], s_room := 95\<rparr>, c_phase = Reading\<rparr>] five_stats five_handle)"
proof -
  let ?srv = "\<lambda>conns. five_server Testing False conns five_stats five_handle"
  let ?s0 = "five_server Testing False [] (stats_new 0) root_handle" and ?ok = "RsOk ''ok /a''"
  let ?es = "[(Connection 0, Received [0]), (Connection 0, Served five_request ?ok root_handle)]"
  from run_conn [OF five_received, of 0]
  obtain as where "sv_run five_wire ?s0 as ?es (?srv [\<lparr>c_sock = five_sock, c_phase = Answered ?ok\<rparr>])"
    by (fastforce simp: conn_step_def five_server_def put_conn_def five_served_step)
  from run_conn [OF this, of 0]
  obtain as where r: "sv_run five_wire ?s0 as ?es (?srv [\<lparr>c_sock = five_sock, c_phase = Writing False ?ok\<rparr>])"
    by (fastforce simp: conn_step_def five_server_def put_conn_def count_error_def)
  have "write_message [0] five_sock = (Inr (), five_sock\<lparr>s_out := frame [0], s_room := 95\<rparr>)"
    using write_message_Inr [of "[0]" five_sock] by (simp add: five_sock_def frame_def)
  then show ?thesis using run_conn [OF r, of 0]
    by (fastforce simp: conn_step_def write_step_def five_server_def put_conn_def five_wire_def tiny_encode_def)
qed

lemma five_within_limits:
  "within_limits five_wire [(Connection 0, Received [0]), (Connection 0, Served five_request (RsOk ''ok /a'') root_handle), (Connection 0, Sent [0])]"
  using good_db_unique [OF root_handle_good]
  by (fastforce simp: within_limits_def five_request_def five_wire_def utf8_string_ascii len_ok_def)

section \<open>Sequential histories\<close>



section \<open>Counters\<close>

definition quiet :: "Server \<Rightarrow> bool" where
  "quiet s \<longleftrightarrow> (\<forall>c \<in> set (sv_conns s). c_phase c = Reading \<or> (\<exists>r. c_phase c = Finished r))"

fun refusals :: "(Actor \<times> Event) list \<Rightarrow> nat" where
  "refusals [] = 0"
| "refusals ((i, Refused _) # es) = Suc (refusals es)"
| "refusals (e # es) = refusals es"

lemma worth_totals:
  "sum_list (map (requests_worth \<circ> snd) es) = of_nat (length (served_of es))"
  "sum_list (map (queries_worth \<circ> snd) es) = of_nat (length (filter (\<lambda>(req, _). is_query req) (served_of es)))"
  "sum_list (map (mutations_worth \<circ> snd) es) = of_nat (length (filter (\<lambda>(req, _). \<not> read_only req) (served_of es)))"
  "sum_list (map (errors_worth \<circ> snd) es) = of_nat (length (filter (\<lambda>(_, resp). is_err resp) (served_of es)) + refusals es)"
  by (induction es rule: served_of.induct) auto

lemma no_weight: "(\<And>x. x \<in> set xs \<Longrightarrow> f x = 0) \<Longrightarrow> sum_list (map f xs) = (0 :: u64)"
  by (induction xs) simp_all

lemma quiet_holds_nothing:
  assumes "quiet s"
  shows "sum_list (map (requests_held \<circ> c_phase) (sv_conns s)) = 0" "sum_list (map (queries_held \<circ> c_phase) (sv_conns s)) = 0"
    "sum_list (map (mutations_held \<circ> c_phase) (sv_conns s)) = 0" "sum_list (map (errors_held \<circ> c_phase) (sv_conns s)) = 0"
  by (rule no_weight; use assms in \<open>fastforce simp: quiet_def\<close>)+



section \<open>Progress\<close>

fun phase_rank :: "Phase \<Rightarrow> nat" where
  "phase_rank (Counting _) = 9"
| "phase_rank (Classing _) = 8"
| "phase_rank (Serving _) = 7"
| "phase_rank (Loading _ _ ls) = 6 - min 3 (length ls)"
| "phase_rank (BadMessage _) = 2"
| "phase_rank (Answered _) = 2"
| "phase_rank (Writing _ _) = 1"
| "phase_rank _ = 0"

lemma rank_decreases:
  assumes "conn_step w now c stats db = Some (c', stats', db', es)" "c_phase c \<noteq> Reading"
  shows "phase_rank (c_phase c') < phase_rank (c_phase c)"
  using assms
  by (auto simp: conn_step_def serve_step_def load_step_def write_step_def Let_def
      split: Phase.splits if_splits prod.splits run.splits list.splits sum.splits)

lemma never_stuck:
  assumes "good_db t n db" "unfinished (c_phase c)" "\<And>req. c_phase c = Serving req \<Longrightarrow> request_ok (w_debug w) req t n"
  shows "\<exists>c' stats' db' es. conn_step w now c stats db = Some (c', stats', db', es)"
proof (cases "c_phase c")
  case (Serving req)
  then obtain resp db' where "serve_request (enough_fuel req db) (w_debug w) now stats req db = (Returns resp, db')"
    using request_served [OF assms(1) assms(3) [OF Serving], of "enough_fuel req db" now stats] by (auto simp: enough_fuel_def)
  then show ?thesis using Serving by (auto simp: conn_step_def serve_step_def)
qed (use assms(2) in \<open>auto simp: conn_step_def unfinished_def Let_def load_step_def split: prod.splits list.splits\<close>)



section \<open>Shutdown\<close>

fun main_rank :: "MainPc \<Rightarrow> nat" where
  "main_rank Accepting = 5"
| "main_rank Testing = 4"
| "main_rank Leaving = 3"
| "main_rank Dropping = 2"
| "main_rank Unlocking = 1"
| "main_rank Stopped = 0"

text \<open>What the main thread has given back, by where it is.\<close>

fun released :: "MainPc \<Rightarrow> Server \<Rightarrow> bool" where
  "released Dropping s \<longleftrightarrow> \<not> sv_socket s"
| "released Unlocking s \<longleftrightarrow> \<not> sv_socket s \<and> lk_owner (sv_locks s) (sv_lock s) = None"
| "released Stopped s \<longleftrightarrow> \<not> sv_socket s \<and> lk_owner (sv_locks s) (sv_lock s) = None \<and> lk_entry (sv_locks s) = None"
| "released _ s \<longleftrightarrow> True"

lemma released_main:
  assumes "main_step accepted s = Some s'" "released (sv_main s) s"
  shows "released (sv_main s') s'"
  using assms by (auto simp: main_step_def spawn_def flock_unlock_def remove_lock_file_def split: MainPc.splits option.splits if_splits)

lemma released_run:
  assumes "sv_run w s as es s'" "released (sv_main s) s"
  shows "released (sv_main s') s'"
  using assms(1)
proof (induction rule: sv_run.induct)
  case (run_step as es s' a es' s'')
  from run_step(2) show ?case
  proof cases
    case (step_main accepted)
    then show ?thesis using released_main run_step(3) by blast
  qed (use run_step(3) in \<open>(cases "sv_main s'"; simp add: put_conn_def)+\<close>)
qed (rule assms(2))

text \<open>With the flag set every step of the main thread is one closer to its end.\<close>

lemma stopping_step:
  assumes "sv_step w s a es s'" "sv_shutdown s"
  shows "sv_shutdown s'" "of_bool (a = MainThread) + main_rank (sv_main s') \<le> main_rank (sv_main s)"
    "length (sv_conns s') + of_bool (sv_main s' = Accepting) \<le> length (sv_conns s) + of_bool (sv_main s = Accepting)"
  using assms
  by (cases; auto simp: main_step_def spawn_def put_conn_def split: MainPc.splits option.splits if_splits)+

lemma stopping_run:
  assumes "sv_run w s as es s'" "sv_shutdown s"
  shows "sv_shutdown s' \<and> length (filter (\<lambda>a. a = MainThread) as) + main_rank (sv_main s') \<le> main_rank (sv_main s)
    \<and> length (sv_conns s') + of_bool (sv_main s' = Accepting) \<le> length (sv_conns s) + of_bool (sv_main s = Accepting)"
  using assms(1)
proof (induction rule: sv_run.induct)
  case (run_step as es s' a es' s'')
  then show ?case using stopping_step [OF run_step(2)] by (auto simp: of_bool_def split: if_splits)
qed (use assms(2) in simp)

text \<open>
  C9. A shutdown request ends the daemon.  After the flag is set (by a signal or \<open>request_shutdown\<close>) the
  main thread takes at most five more steps and can always take the next one, at most the connection
  that is being accepted is still accepted, and when the main thread has ended the socket file is
  removed, the lock released and its file removed.
\<close>

theorem shutdown_ends_daemon:
  assumes "serve_setup calls exists daemon locks = Inr s0" and "sv_run w s0 as0 es0 s" and "sv_shutdown s" and "sv_run w s as es s'"
  shows "length (filter (\<lambda>a. a = MainThread) as) \<le> 5
    \<and> (sv_main s' \<noteq> Stopped \<longrightarrow> (\<exists>s''. sv_step w s' MainThread [] s''))
    \<and> length (sv_conns s') \<le> length (sv_conns s) + of_bool (sv_main s = Accepting)
    \<and> (sv_main s' = Stopped \<longrightarrow> \<not> sv_socket s' \<and> lk_owner (sv_locks s') (sv_lock s') = None \<and> lk_entry (sv_locks s') = None)"
proof -
  have "sv_main s0 = Testing" using assms(1) by (auto simp: serve_setup_def Let_def split: option.splits)
  then have "released (sv_main s) s" using released_run [OF assms(2)] by simp
  then have rel: "released (sv_main s') s'" by (rule released_run [OF assms(4)])
  have "main_rank (sv_main s) \<le> 5" by (cases "sv_main s") simp_all
  moreover have "\<exists>s''. sv_step w s' MainThread [] s''" if "sv_main s' \<noteq> Stopped"
  proof -
    have "\<exists>s''. main_step None s' = Some s''" using that by (cases "sv_main s'") (auto simp: main_step_def)
    then show ?thesis using step_main by blast
  qed
  ultimately show ?thesis using stopping_run [OF assms(4,3)] rel by auto
qed

lemma five_stopping:
  "\<exists>as. sv_run five_wire (five_server Testing False [] (stats_new 0) root_handle) as [(Connection 0, Received [0])]
     (five_server Testing True [\<lparr>c_sock = five_sock, c_phase = Serving five_request\<rparr>] five_stats root_handle)"
  using run_step [OF five_received step_signal] by (auto simp: five_server_def)

definition released_lock :: LockDir where
  "released_lock = \<lparr>lk_entry = None, lk_next = 1, lk_owner = (\<lambda>_. None)\<rparr>"

lemma five_stopped:
  "sv_run five_wire (five_server Testing True conns stats db) [MainThread, MainThread, MainThread, MainThread] []
     ((five_server Stopped True conns stats db)\<lparr>sv_socket := False, sv_locks := released_lock\<rparr>)"
proof -
  let ?srv = "\<lambda>main. five_server main True conns stats db"
  have "sv_run five_wire (?srv Testing) [MainThread] [] (?srv Leaving)"
    using run_main [OF run_start [of five_wire "?srv Testing"]] by (simp add: main_step_def five_server_def)
  from run_main [OF this] have "sv_run five_wire (?srv Testing) [MainThread, MainThread] [] ((?srv Dropping)\<lparr>sv_socket := False\<rparr>)"
    by (simp add: main_step_def five_server_def)
  have "flock_unlock 0 held_lock = held_lock\<lparr>lk_owner := (\<lambda>_. None)\<rparr>"
    by (auto simp: flock_unlock_def held_lock_def fun_eq_iff)
  with run_main [OF \<open>sv_run five_wire (?srv Testing) [MainThread, MainThread] [] _\<close>]
  have "sv_run five_wire (?srv Testing) [MainThread, MainThread, MainThread] []
      ((?srv Unlocking)\<lparr>sv_socket := False, sv_locks := held_lock\<lparr>lk_owner := (\<lambda>_. None)\<rparr>\<rparr>)"
    by (simp add: main_step_def five_server_def)
  from run_main [OF this] show ?thesis
    by (simp add: main_step_def five_server_def remove_lock_file_def held_lock_def released_lock_def)
qed

theorem shutdown_ends_daemon_witness:
  "\<exists>as s es s'. sv_run five_wire (five_server Testing False [] (stats_new 0) root_handle) as es s \<and> sv_shutdown s
     \<and> sv_run five_wire s [MainThread, MainThread, MainThread, MainThread] [] s' \<and> sv_main s' = Stopped
     \<and> \<not> sv_socket s' \<and> lk_owner (sv_locks s') (sv_lock s') = None \<and> lk_entry (sv_locks s') = None"
proof -
  let ?conns = "[\<lparr>c_sock = five_sock, c_phase = Serving five_request\<rparr>]"
  let ?mid = "five_server Testing True ?conns five_stats root_handle"
  let ?halted = "(five_server Stopped True ?conns five_stats root_handle)\<lparr>sv_socket := False, sv_locks := released_lock\<rparr>"
  obtain as where r: "sv_run five_wire (five_server Testing False [] (stats_new 0) root_handle) as [(Connection 0, Received [0])] ?mid"
    using five_stopping by blast
  moreover have stop: "sv_shutdown ?mid" by (simp add: five_server_def)
  moreover have "sv_main ?halted = Stopped" by (simp add: five_server_def)
  ultimately show ?thesis using five_stopped shutdown_ends_daemon [OF five_setup r stop five_stopped] by blast
qed

text \<open>
  C13. Shutdown releases the lock before the connections are done.  \<open>serve_daemon\<close> returns and drops the
  lock without waiting for the threads it started.  In a run of the daemon the main thread has ended
  and another process acquires the lock of the data directory, while a connection of the ended daemon
  still commits a value to the log and acknowledges it.
\<close>

theorem shutdown_leaves_writers:
  "\<exists>s0 as es s lock locks s'. serve_setup calls_ok False root_daemon held_lock = Inr s0 \<and> sv_run five_wire s0 as es s
     \<and> sv_main s = Stopped \<and> data_lock_acquire path 8 (sv_locks s) = (Inr lock, locks)
     \<and> sv_step five_wire s (Connection 0) [(Connection 0, Served five_request (RsOk ''ok /a'') (sv_db s))] s'
     \<and> disk (hd_db (sv_db s')) \<noteq> disk (hd_db (sv_db s))"
proof -
  let ?conns = "[\<lparr>c_sock = five_sock, c_phase = Serving five_request\<rparr>]"
  let ?start = "five_server Testing False [] (stats_new 0) root_handle"
  let ?halted = "(five_server Stopped True ?conns five_stats root_handle)\<lparr>sv_socket := False, sv_locks := released_lock\<rparr>"
  obtain as where "sv_run five_wire ?start as [(Connection 0, Received [0])] ?halted"
    using five_stopping sv_run_append [OF _ five_stopped] by fastforce
  moreover have "\<exists>lock locks. data_lock_acquire path 8 (sv_locks ?halted) = (Inr lock, locks)"
    by (simp add: data_lock_acquire_def lock_open_def flock_try_def released_lock_def)
  moreover have "sv_step five_wire ?halted (Connection 0) [(Connection 0, Served five_request (RsOk ''ok /a'') root_handle)]
      (put_conn 0 (\<lparr>c_sock = five_sock, c_phase = Answered (RsOk ''ok /a'')\<rparr>, five_stats, five_handle,
        [Served five_request (RsOk ''ok /a'') root_handle]) ?halted)"
    using step_conn [of 0 ?halted five_wire] five_served_step by (simp add: five_server_def conn_step_def)
  moreover have "disk (hd_db five_handle) \<noteq> disk (hd_db root_handle)"
  proof -
    have "length (encode_commit_record set_five) \<noteq> 0" by (simp add: length_record)
    then have "wal_log (disk (hd_db five_handle)) \<noteq> wal_log (disk (hd_db root_handle))"
      by (simp add: five_handle_def root_handle_def appended_def wal_root_def)
    then show ?thesis by metis
  qed
  moreover have "sv_main ?halted = Stopped" "sv_db ?halted = root_handle" by (simp_all add: five_server_def)
  ultimately show ?thesis using five_setup by (fastforce simp: put_conn_def)
qed

end
