(* ===== verification/Bench.thy ===== *)
theory Bench
  imports Cli
begin

text \<open>
  The load generator (\<open>crates/alefs-bench/src/main.rs\<close>): the ratio of sets and gets, the split of the
  requests over the clients, the requests of each client, the accounting of their results and the
  percentiles of the report.  What a call returns depends on the interleaving of the clients, so it is
  an argument, as is the time it takes; every statement holds for all of them.
\<close>

section \<open>Arguments\<close>

record Args =
  a_direct :: bool
  a_clients :: u64
  a_requests :: u64
  a_ratio :: string
  a_keyspace :: u64
  a_prefix :: string
  a_warmup :: bool

record Ratio =
  r_set :: u64
  r_get :: u64

text \<open>\<open>str::split_once\<close> with a character.\<close>

definition split_once :: "char \<Rightarrow> string \<Rightarrow> (string \<times> string) option" where
  "split_once c s = (if c \<in> set s then Some (takeWhile (\<lambda>x. x \<noteq> c) s, tl (dropWhile (\<lambda>x. x \<noteq> c) s)) else None)"

text \<open>\<open>u64::from_str\<close> and \<open>usize::from_str\<close> agree on 64-bit targets.\<close>

definition parse_ratio :: "string \<Rightarrow> string + Ratio" where
  "parse_ratio s =
     and_then (ok_or ''ratio must be set:get'' (split_once CHR '':'' s)) (\<lambda>(a, b).
     and_then (map_err (\<lambda>e. ''set side: '' @ show_int_error e) (parse_usize a)) (\<lambda>x.
     and_then (map_err (\<lambda>e. ''get side: '' @ show_int_error e) (parse_usize b)) (\<lambda>y.
     Inr \<lparr>r_set = x, r_get = y\<rparr>)))"

section \<open>The requests\<close>

text \<open>The sum wraps as it does in a release build.\<close>

definition is_set :: "u64 \<Rightarrow> Ratio \<Rightarrow> bool" where
  "is_set seq ratio = (let cycle = r_set ratio + r_get ratio; pos = seq mod cycle in pos < r_set ratio)"

definition warmup_requests :: "Args \<Rightarrow> Request list" where
  "warmup_requests args =
     RqMkdir (a_prefix args) #
     map (\<lambda>i. RqSet (a_prefix args @ ''/k'' @ show_nat i) ''string'' (''warm'' @ show_nat i)) [0..<unat (min (a_keyspace args) 16)]"

definition client_share :: "Args \<Rightarrow> nat \<Rightarrow> u64" where
  "client_share args c =
     (let per_client = a_requests args div a_clients args; remainder = a_requests args mod a_clients args
      in per_client + (if (of_nat c :: u64) < remainder then 1 else 0))"

definition client_request :: "Args \<Rightarrow> Ratio \<Rightarrow> nat \<Rightarrow> u64 \<Rightarrow> Request" where
  "client_request args ratio c seq =
     (let keyspace = max (a_keyspace args) 1;
          key_id = (of_nat c * 1000000 + seq) mod keyspace;
          path = a_prefix args @ ''/k'' @ show_nat (unat key_id)
      in if is_set seq ratio then RqSet path ''string'' (''v'' @ show_nat (unat seq)) else RqGet path)"

section \<open>The call\<close>

text \<open>
  One call of a client: on its connection when it has one, on a new one when it has none, or on the
  data directory, opened for the call.  \<open>connected\<close> is the result of \<open>UnixStream::connect\<close>.  A call
  that fails leaves the connection in place.  \<open>Some(None)\<close> and \<open>None\<close> of the source are both a client
  without a connection.
\<close>

definition bench_call :: "nat \<Rightarrow> DebugText \<Rightarrow> Instant \<Rightarrow> (Request \<Rightarrow> string + bytes) \<Rightarrow> (bytes \<Rightarrow> string + Response)
    \<Rightarrow> bool \<Rightarrow> string + Sock \<Rightarrow> Request \<Rightarrow> Sock option \<Rightarrow> Disk \<Rightarrow> (string + Response) run \<times> Sock option \<times> Disk" where
  "bench_call fuel dbg now to_vec from_slice use_socket connected req client d =
     (case client of
        Some cl \<Rightarrow> (case client_call to_vec from_slice req cl of (r, cl) \<Rightarrow> (Returns (map_err show_client_error r), Some cl, d))
      | None \<Rightarrow>
          if use_socket then
            (case connected of
               Inr cl \<Rightarrow> (case client_call to_vec from_slice req cl of (r, cl) \<Rightarrow> (Returns (map_err show_client_error r), Some cl, d))
             | Inl e \<Rightarrow> (Returns (Inl (show_client_error (CeIo e))), None, d))
          else
            (case open_db fuel d of
               None \<Rightarrow> (Unfinished, None, d)
             | Some (Inl e, d) \<Rightarrow> (Returns (Inl (show_serve_error e)), None, d)
             | Some (Inr db, _) \<Rightarrow>
                 (case dispatch fuel dbg now req db of (r, db) \<Rightarrow> (map_run Inr r, None, disk (hd_db db)))))"

text \<open>\<open>one_call\<close>, a call on a connection of its own.\<close>

definition one_call :: "nat \<Rightarrow> DebugText \<Rightarrow> Instant \<Rightarrow> (Request \<Rightarrow> string + bytes) \<Rightarrow> (bytes \<Rightarrow> string + Response)
    \<Rightarrow> bool \<Rightarrow> string + Sock \<Rightarrow> Request \<Rightarrow> Disk \<Rightarrow> (string + Response) run \<times> Disk" where
  "one_call fuel dbg now to_vec from_slice use_socket connected req d =
     (if use_socket then
        (Returns (map_err show_client_error (rpc_call to_vec from_slice connected req)), d)
      else
        (case open_db fuel d of
           None \<Rightarrow> (Unfinished, d)
         | Some (Inl e, d) \<Rightarrow> (Returns (Inl (show_serve_error e)), d)
         | Some (Inr db, _) \<Rightarrow>
             (case dispatch fuel dbg now req db of (r, db) \<Rightarrow> (map_run Inr r, disk (hd_db db)))))"

section \<open>Accounting\<close>

type_synonym Duration = nat \<comment> \<open>nanoseconds\<close>

record Tally =
  t_sets :: u64
  t_gets :: u64
  t_errors :: u64

text \<open>What the result of a call does to the errors and to the latencies of the client.\<close>

definition tally_result :: "bool \<Rightarrow> string + Response \<Rightarrow> Duration \<Rightarrow> Tally \<times> Duration list \<Rightarrow> Tally \<times> Duration list" where
  "tally_result do_set result elapsed acc =
     (case acc of (tally, latencies) \<Rightarrow>
        let pushed = (tally, latencies @ [elapsed]); failed = (tally\<lparr>t_errors := t_errors tally + 1\<rparr>, latencies) in
        case result of
          Inr (RsErr _) \<Rightarrow> if do_set then failed else pushed
        | Inl _ \<Rightarrow> if do_set then failed else pushed
        | Inr _ \<Rightarrow> pushed)"

text \<open>
  The loop of a client from request \<open>seq\<close>; a call that panics (\<open>None\<close>) ends the thread, which its
  \<open>join\<close> counts as an error while its latencies are lost.
\<close>

fun client_loop :: "Ratio \<Rightarrow> (nat \<Rightarrow> (string + Response) option) \<Rightarrow> (nat \<Rightarrow> Duration) \<Rightarrow> nat list \<Rightarrow> Tally \<Rightarrow> Duration list
    \<Rightarrow> Tally \<times> Duration list" where
  "client_loop ratio results took [] tally latencies = (tally, latencies)"
| "client_loop ratio results took (seq # seqs) tally latencies =
     (let do_set = is_set (of_nat seq) ratio;
          tally = (if do_set then tally\<lparr>t_sets := t_sets tally + 1\<rparr> else tally\<lparr>t_gets := t_gets tally + 1\<rparr>)
      in case results seq of
           None \<Rightarrow> (tally\<lparr>t_errors := t_errors tally + 1\<rparr>, [])
         | Some result \<Rightarrow>
             (case tally_result do_set result (took seq) (tally, latencies) of
                (tally, latencies) \<Rightarrow> client_loop ratio results took seqs tally latencies))"

definition percentile :: "Duration list \<Rightarrow> nat \<Rightarrow> Duration" where
  "percentile lats p = (if lats = [] then 0 else lats ! (p * (length lats - 1) div 100))"

record Report =
  rp_clients :: u64
  rp_planned :: u64
  rp_completed :: u64
  rp_sets :: u64
  rp_gets :: u64
  rp_errors :: u64
  rp_p50 :: Duration
  rp_p95 :: Duration
  rp_p99 :: Duration

text \<open>
  The clients one after another: the counters are atomic and the latencies are kept per client, so the
  totals do not depend on how the threads interleave.
\<close>

fun run_clients :: "Args \<Rightarrow> Ratio \<Rightarrow> (nat \<Rightarrow> nat \<Rightarrow> (string + Response) option) \<Rightarrow> (nat \<Rightarrow> nat \<Rightarrow> Duration) \<Rightarrow> nat list
    \<Rightarrow> Tally \<Rightarrow> Duration list \<Rightarrow> Tally \<times> Duration list" where
  "run_clients args ratio results took [] tally all_lat = (tally, all_lat)"
| "run_clients args ratio results took (c # cs) tally all_lat =
     (case client_loop ratio (results c) (took c) [0..<unat (client_share args c)] tally [] of
        (tally, lat) \<Rightarrow> run_clients args ratio results took cs tally (all_lat @ lat))"

definition report :: "Args \<Rightarrow> Tally \<times> Duration list \<Rightarrow> Report" where
  "report args acc = (case acc of (tally, all_lat) \<Rightarrow>
     let lat = sort all_lat in
     \<lparr>rp_clients = a_clients args, rp_planned = a_requests args, rp_completed = of_nat (length lat),
      rp_sets = t_sets tally, rp_gets = t_gets tally, rp_errors = t_errors tally,
      rp_p50 = percentile lat 50, rp_p95 = percentile lat 95, rp_p99 = percentile lat 99\<rparr>)"

text \<open>The printed report; the texts of the three lines with floating-point numbers are arguments.\<close>

definition report_lines :: "string \<Rightarrow> string \<Rightarrow> string \<Rightarrow> Report \<Rightarrow> string list" where
  "report_lines secs rps mix rp =
     [''=== alefs-bench ==='', ''clients='' @ show_nat (unat (rp_clients rp)), ''requests_planned='' @ show_nat (unat (rp_planned rp)),
      ''completed_ops='' @ show_nat (unat (rp_completed rp)), ''sets='' @ show_nat (unat (rp_sets rp)), ''gets='' @ show_nat (unat (rp_gets rp)),
      ''errors='' @ show_nat (unat (rp_errors rp)), ''duration_sec='' @ secs, ''throughput_ops_sec='' @ rps,
      ''latency_p50_us='' @ show_nat (rp_p50 rp div 1000), ''latency_p95_us='' @ show_nat (rp_p95 rp div 1000),
      ''latency_p99_us='' @ show_nat (rp_p99 rp div 1000)]
     @ (if rp_sets rp + rp_gets rp > 0 then [''mix_set_pct='' @ mix] else [])"

text \<open>
  \<open>run\<close>: the checks, the first call of the warm-up (the results of the others are ignored) and the
  measured part.
\<close>

definition bench_run :: "Args \<Rightarrow> string + Response \<Rightarrow> (nat \<Rightarrow> nat \<Rightarrow> (string + Response) option) \<Rightarrow> (nat \<Rightarrow> nat \<Rightarrow> Duration)
    \<Rightarrow> string + Report" where
  "bench_run args mkdir_result results took =
     and_then (parse_ratio (a_ratio args)) (\<lambda>ratio.
     if r_set ratio + r_get ratio = 0 then Inl ''ratio sum must be > 0''
     else if a_clients args = 0 then Inl ''clients must be > 0''
     else
       and_then (if a_warmup args then map_sum id (\<lambda>_. ()) mkdir_result else Inr ()) (\<lambda>_.
       Inr (report args (run_clients args ratio results took [0..<unat (a_clients args)]
         \<lparr>t_sets = 0, t_gets = 0, t_errors = 0\<rparr> []))))"

end
