(* ===== verification/Bench_Theorems.thy ===== *)
theory Bench_Theorems
  imports Bench
begin

text \<open>
  The accounting of the load generator: the shares of the clients add up to the planned requests,
  every request is counted once as set or get and once as completed or failed, sets and gets come in
  the asked ratio, and the percentiles are measured latencies in order.
\<close>

section \<open>Shares\<close>

lemma unat_client_share:
  assumes "a_clients args \<noteq> 0" "c < unat (a_clients args)"
  shows "unat (client_share args c) = unat (a_requests args) div unat (a_clients args)
    + (if c < unat (a_requests args) mod unat (a_clients args) then 1 else 0)"
proof -
  let ?r = "unat (a_requests args)" and ?k = "unat (a_clients args)"
  have k: "0 < ?k" using assms(1) by (simp add: unat_gt_0)
  have "c < 2 ^ 64" using less_trans [OF assms(2) unat_u64_less] by simp
  then have c: "unat (of_nat c :: u64) = c" by (simp add: unat_of_nat)
  have l: "(of_nat c :: u64) < a_requests args mod a_clients args \<longleftrightarrow> c < ?r mod ?k"
    by (simp add: word_less_nat_alt unat_mod_distrib c)
  have "?r div ?k + 1 < 2 ^ 64" if "c < ?r mod ?k"
  proof -
    have "?r div ?k \<le> ?r div ?k * ?k" using k by simp
    then have "?r div ?k + 1 \<le> ?r" using that div_mult_mod_eq [of ?r ?k] by linarith
    from le_less_trans [OF this unat_u64_less] show ?thesis by simp
  qed
  then have "unat (a_requests args div a_clients args + 1) = ?r div ?k + 1" if "c < ?r mod ?k"
    using that by (simp add: unat_word_ariths unat_div_distrib)
  then show ?thesis by (auto simp: client_share_def Let_def l unat_div_distrib)
qed

lemma sum_below: "sum_list (map (\<lambda>c. q + (if c < m then 1 else 0)) [0..<k]) = q * k + min m (k :: nat)"
  by (induction k) auto

lemma shares_add_up:
  assumes "a_clients args \<noteq> 0"
  shows "sum_list (map (\<lambda>c. unat (client_share args c)) [0..<unat (a_clients args)]) = unat (a_requests args)"
proof -
  let ?r = "unat (a_requests args)" and ?k = "unat (a_clients args)"
  have "map (\<lambda>c. unat (client_share args c)) [0..<?k] = map (\<lambda>c. ?r div ?k + (if c < ?r mod ?k then 1 else 0)) [0..<?k]"
    using unat_client_share [OF assms] by simp
  moreover have "?r mod ?k < ?k" using assms by (simp add: unat_gt_0)
  ultimately show ?thesis by (simp only: sum_below) (simp add: min_def)
qed

section \<open>Sets and gets\<close>

definition sets_among :: "Ratio \<Rightarrow> nat list \<Rightarrow> nat" where
  "sets_among ratio seqs = length (filter (\<lambda>seq. is_set (of_nat seq) ratio) seqs)"

lemma is_set_iff:
  assumes "unat (r_set ratio) + unat (r_get ratio) < 2 ^ 64" "seq < 2 ^ 64"
  shows "is_set (of_nat seq) ratio \<longleftrightarrow> seq mod (unat (r_set ratio) + unat (r_get ratio)) < unat (r_set ratio)"
proof -
  have "unat (r_set ratio + r_get ratio) = unat (r_set ratio) + unat (r_get ratio)"
    using assms(1) by (simp add: unat_word_ariths)
  moreover have "unat (of_nat seq :: u64) = seq" using assms(2) by (simp add: unat_of_nat)
  ultimately show ?thesis by (simp add: is_set_def Let_def word_less_nat_alt unat_mod_distrib)
qed

lemma mod_cycle_count:
  assumes "a \<le> c" "0 < c"
  shows "length (filter (\<lambda>x. x mod c < a) [0..<k * c]) = k * (a :: nat)"
proof (induction k)
  case (Suc k)
  have up: "[0..<Suc k * c] = [0..<k * c] @ map (\<lambda>x. k * c + x) [0..<c]"
    using upt_add_eq_append [of 0 "k * c" c] map_add_upt [of "k * c" c] by (simp add: ac_simps)
  have "length (filter (\<lambda>x. (k * c + x) mod c < a) [0..<c]) = length (filter (\<lambda>x. x < a) [0..<c])"
    by (rule arg_cong [of _ _ length], rule filter_cong) auto
  also have "filter (\<lambda>x. x < a) [0..<c] = [0..<a]"
  proof -
    have "[0..<c] = [0..<a] @ [a..<c]" using assms(1) by (metis le0 le_Suc_ex upt_add_eq_append)
    moreover have "filter (\<lambda>x. x < a) [0..<a] = [0..<a]" "filter (\<lambda>x. x < a) [a..<c] = []" by simp_all
    ultimately show ?thesis by simp
  qed
  finally show ?case using Suc unfolding up by (simp add: filter_map comp_def)
qed simp

text \<open>Whole cycles hold exactly the asked numbers of sets.\<close>

lemma whole_cycles:
  assumes "unat (r_set ratio) + unat (r_get ratio) < 2 ^ 64" "0 < unat (r_set ratio) + unat (r_get ratio)"
    and "k * (unat (r_set ratio) + unat (r_get ratio)) \<le> 2 ^ 64"
  shows "sets_among ratio [0..<k * (unat (r_set ratio) + unat (r_get ratio))] = k * unat (r_set ratio)"
proof -
  let ?c = "unat (r_set ratio) + unat (r_get ratio)"
  have "filter (\<lambda>seq. is_set (of_nat seq) ratio) [0..<k * ?c] = filter (\<lambda>x. x mod ?c < unat (r_set ratio)) [0..<k * ?c]"
    using is_set_iff [OF assms(1)] assms(3) by (intro filter_cong) auto
  then show ?thesis using mod_cycle_count [of "unat (r_set ratio)" ?c k] assms(2) by (simp add: sets_among_def)
qed

text \<open>The keys stay inside the key space, and a fresh call is what a client without a connection does.\<close>

lemma client_request_path:
  "\<exists>k. k < max (unat (a_keyspace args)) 1 \<and>
     (let path = a_prefix args @ ''/k'' @ show_nat k in
      client_request args ratio c seq \<in> {RqSet path ''string'' (''v'' @ show_nat (unat seq)), RqGet path})"
proof -
  let ?m = "max (a_keyspace args) 1" and ?x = "of_nat c * 1000000 + seq"
  have m: "unat ?m = max (unat (a_keyspace args)) 1"
    by (simp add: max_def word_le_nat_alt)
  have "0 < unat ?m" unfolding m by simp
  then have "unat (?x mod ?m) < max (unat (a_keyspace args)) 1" using m by (simp add: unat_mod_distrib)
  then show ?thesis by (intro exI [of _ "unat (?x mod ?m)"]) (simp add: client_request_def Let_def)
qed

lemma one_call_fresh:
  "one_call fuel dbg now to_vec from_slice use_socket connected req d
     = (case bench_call fuel dbg now to_vec from_slice use_socket connected req None d of (r, _, d') \<Rightarrow> (r, d'))"
  by (auto simp: one_call_def bench_call_def rpc_call_def split: sum.splits prod.splits option.splits)

text \<open>A connection is kept for the rest of the run, also after a call on it failed.\<close>

lemma connection_is_kept:
  "\<exists>cl'. fst (snd (bench_call fuel dbg now to_vec from_slice use_socket connected req (Some cl) d)) = Some cl'"
  by (simp add: bench_call_def split: prod.splits)

section \<open>Tallies\<close>

lemma tally_result_counts:
  assumes "tally_result do_set result took (tally, lat) = (tally', lat')"
  shows "t_sets tally' = t_sets tally" "t_gets tally' = t_gets tally"
    "t_errors tally' + of_nat (length lat') = t_errors tally + of_nat (length lat) + 1"
  using assms by (auto simp: tally_result_def Let_def split: sum.splits Response.splits if_splits)

lemma client_loop_counts:
  assumes "client_loop ratio results took seqs tally lat = (tally', lat')" "\<forall>seq. results seq \<noteq> None"
  shows "t_sets tally' = t_sets tally + of_nat (sets_among ratio seqs)
    \<and> t_sets tally' + t_gets tally' = t_sets tally + t_gets tally + of_nat (length seqs)
    \<and> t_errors tally' + of_nat (length lat') = t_errors tally + of_nat (length lat) + of_nat (length seqs)"
  using assms(1)
proof (induction seqs arbitrary: tally lat)
  case Nil
  then show ?case by (simp add: sets_among_def)
next
  case (Cons seq seqs)
  let ?set = "is_set (of_nat seq) ratio"
  define tally1 where "tally1 = (if ?set then tally\<lparr>t_sets := t_sets tally + 1\<rparr> else tally\<lparr>t_gets := t_gets tally + 1\<rparr>)"
  obtain result where r: "results seq = Some result" using assms(2) by (meson option.exhaust)
  obtain tally2 lat2 where t2: "tally_result ?set result (took seq) (tally1, lat) = (tally2, lat2)" by fastforce
  have "client_loop ratio results took seqs tally2 lat2 = (tally', lat')"
    using Cons.prems r t2 by (simp add: Let_def tally1_def)
  from Cons.IH [OF this] tally_result_counts [OF t2] show ?case
    by (auto simp: tally1_def sets_among_def algebra_simps)
qed

lemma run_clients_counts:
  assumes "run_clients args ratio results took cs tally lat = (tally', lat')" "\<forall>c seq. results c seq \<noteq> None"
  shows "t_sets tally' = t_sets tally + of_nat (sum_list (map (\<lambda>c. sets_among ratio [0..<unat (client_share args c)]) cs))
    \<and> t_sets tally' + t_gets tally' = t_sets tally + t_gets tally + of_nat (sum_list (map (\<lambda>c. unat (client_share args c)) cs))
    \<and> t_errors tally' + of_nat (length lat') = t_errors tally + of_nat (length lat) + of_nat (sum_list (map (\<lambda>c. unat (client_share args c)) cs))"
  using assms(1)
proof (induction cs arbitrary: tally lat)
  case (Cons c cs)
  let ?share = "unat (client_share args c)"
  obtain tally1 lat1 where l: "client_loop ratio (results c) (took c) [0..<?share] tally [] = (tally1, lat1)" by fastforce
  have "run_clients args ratio results took cs tally1 (lat @ lat1) = (tally', lat')" using Cons.prems l by simp
  note rest = Cons.IH [OF this]
  have one: "t_sets tally1 = t_sets tally + of_nat (sets_among ratio [0..<?share])
      \<and> t_sets tally1 + t_gets tally1 = t_sets tally + t_gets tally + of_nat ?share
      \<and> t_errors tally1 + of_nat (length lat1) = t_errors tally + of_nat ?share"
  proof -
    have "length [0..<?share] = ?share" "of_nat (length ([] :: Duration list)) = (0 :: u64)" by simp_all
    from client_loop_counts [OF l spec [OF assms(2)], unfolded this add_0_right] show ?thesis .
  qed
  show ?case
  proof (intro conjI)
    show "t_sets tally' = t_sets tally + of_nat (sum_list (map (\<lambda>c. sets_among ratio [0..<unat (client_share args c)]) (c # cs)))"
      using rest one by (simp add: add.assoc)
    show "t_sets tally' + t_gets tally' = t_sets tally + t_gets tally + of_nat (sum_list (map (\<lambda>c. unat (client_share args c)) (c # cs)))"
      using conjunct1 [OF conjunct2 [OF rest]] conjunct1 [OF conjunct2 [OF one]] by (simp add: add.assoc)
    show "t_errors tally' + of_nat (length lat') = t_errors tally + of_nat (length lat) + of_nat (sum_list (map (\<lambda>c. unat (client_share args c)) (c # cs)))"
      using conjunct2 [OF conjunct2 [OF rest]] conjunct2 [OF conjunct2 [OF one]] by (simp add: ac_simps)
  qed
qed simp

section \<open>Percentiles\<close>

lemma percentile_index: "xs \<noteq> [] \<Longrightarrow> p \<le> 100 \<Longrightarrow> p * (length xs - 1) div 100 < length xs"
proof -
  assume "xs \<noteq> []" "p \<le> 100"
  then have "p * (length xs - 1) div 100 \<le> length xs - 1" using mult_le_mono1 [of p 100 "length xs - 1"] by linarith
  then show ?thesis using \<open>xs \<noteq> []\<close> by (cases xs) auto
qed

lemma percentile_mono:
  assumes "sorted xs" "p \<le> q" "q \<le> 100"
  shows "percentile xs p \<le> percentile xs q"
  using assms percentile_index [of xs q] div_le_mono [OF mult_le_mono1 [of p q "length xs - 1"], of 100]
  by (simp add: percentile_def sorted_nth_mono)

lemma percentile_mem: "xs \<noteq> [] \<Longrightarrow> p \<le> 100 \<Longrightarrow> percentile xs p \<in> set xs"
  using percentile_index [of xs p] by (simp add: percentile_def)

section \<open>The report\<close>


definition tiny_args :: Args where
  "tiny_args = \<lparr>a_direct = True, a_clients = 2, a_requests = 5, a_ratio = ''1:1'', a_keyspace = 3, a_prefix = ''/b'', a_warmup = False\<rparr>"


end
