(* ===== verification/Spec2Isabelle.thy ===== *)
theory Spec2Isabelle
  imports Txn_Theorems Query_Theorems Json_Theorems Lock Fuse_Theorems Direct_Race Threads_Properties Bench_Theorems
begin

text \<open>
  \<^bold>\<open>alefsdb\<close>, a typed hierarchical database in Rust (\<open>src/crates\<close>): values and their codec, paths, a
  storage layer with a write-ahead log, a namespace of directories and values with transactions, a
  query language and JSON export and import over it, a daemon on a Unix socket, a FUSE mount, a command
  line and a load generator.  This theory collects the development; every part of the program has its
  own theories, in the order of the crates.

  \<^bold>\<open>How the parts interact.\<close>  A command (\<open>alefsdb\<close>) becomes one request, which goes to the daemon
  through its socket or is served in the process.  The daemon has one thread per connection; a thread
  decodes a request, takes the lock of the shared database and calls the namespace.  The mount calls
  the namespace under the same lock.  The namespace keeps nodes, links between them, a type index and
  the next identifier as rows of a key-value store, and changes them by one atomic batch per operation.
  The store keeps the rows in memory and appends every batch to a log, which a checkpoint replaces from
  time to time and which is replayed when the directory is opened.

  \<^bold>\<open>Shared theories.\<close>
  \<^item> \<open>Prelude\<close>: machine integers as words, \<open>Result\<close> as a sum with \<open>and_then\<close> for the question mark,
    loops over a read cursor, byte order, UTF-8.
  \<^item> \<open>BTree_Map\<close>: \<open>std::collections::BTreeMap\<close> as an ordered association list; locale \<open>ordered_map\<close>.
  \<^item> \<open>Rust_Text\<close>, \<open>Rust_Float\<close>: what the sources use of \<open>str\<close>, \<open>char\<close> and the parsing and printing of
    integers and of \<open>f64\<close> (a float is its bit pattern).

  \<^bold>\<open>Values, codec, paths\<close> (\<open>alefs-types/src/{value,codec,path}.rs\<close>): \<open>Values\<close>, \<open>Codec\<close>, \<open>Db_Path\<close>.
  Encoding and decoding are inverse up to the canonical form of sets; whatever is decoded is canonical;
  every proper prefix of an encoding is rejected; the parser of paths accepts exactly the printed paths
  followed by slashes.  The recursion of the decoder has the length of its input as fuel, which is
  always enough.

  \<^bold>\<open>Storage\<close> (\<open>alefs-storage/src\<close>): \<open>Storage\<close> has batches, the trait as a record of methods, the locale
  \<open>storage\<close> with the contract of a lawful store and the in-memory backend as its first instance.
  \<open>Wal\<close> is \<open>wal.rs\<close> over an explicit directory (log, checkpoint, temporary file and the space left),
  \<open>Wal_Format\<close> shows that readers undo writers and that the checksum detects every single-byte change,
  and \<open>Wal_Recovery\<close> states durability: acknowledged batches survive reopening, a crash at any point of
  a commit or compaction leaves all of a batch or none, a failed commit leaves memory and disk equal.
  A crash cuts the bytes of the write it meets at any position; a write that finds no space is cut
  likewise and reported.  The log store is an instance of \<open>storage\<close> and of \<open>durable_storage\<close>.  Two
  theorems show what the missing truncation of a torn log costs.

  \<^bold>\<open>Namespace\<close> (\<open>alefs-namespace/src/{keys,error,db,txn}.rs\<close>): \<open>Ns_Keys\<close> (key layout), \<open>Namespace\<close>
  (\<open>Database\<close>), \<open>Ns_Spec\<close> (the abstract tree, a partial function from paths to nodes, and what it means
  for rows to store it), \<open>Ns_Refine\<close> (every operation implements its abstract one, inside the locale
  \<open>storage\<close>, so for both backends), \<open>Ns_Open\<close> (opening and the rebuilt index), \<open>Ns_Theorems\<close>,
  \<open>Ns_Walk\<close>.  \<open>Txn\<close>, \<open>Txn_Refine\<close>, \<open>Txn_Theorems\<close>: transactions over an overlay are all or nothing and
  equal to the sequence of their operations.  \<open>Json\<close>, \<open>Json_Text\<close>, \<open>Json_Theorems\<close>, \<open>Json_Bounds\<close>,
  \<open>Json_Import\<close>: export and import restore the same tree, and importing any document ends and keeps the
  database well-formed.  Walks, export and the rebuilding of the index have fuel; the number of rows of
  the store is enough, because stored trees are finite and have no cycles.  The parser of JSON has fuel;
  the length of the text is enough.

  \<^bold>\<open>Queries\<close> (\<open>alefs-query/src/{ast,parse,eval}.rs\<close>): \<open>Query_Parse\<close>, \<open>Query_Syntax\<close>, \<open>Query_Print\<close> (the
  parser ends, one unit of fuel per character being enough, and reads back a printed expression),
  \<open>Query_Eval\<close>, \<open>Query_Theorems\<close> (a query returns exactly the nodes that satisfy it, with and without the
  type index; globs match what their pattern says).

  \<^bold>\<open>Server\<close> (\<open>alefs-server/src/{protocol,handle,client,lock}.rs\<close>): \<open>Server\<close> (requests, dispatch, framing,
  the loop of one connection, the client), \<open>Server_Refine\<close> and \<open>Server_Theorems\<close> (the contract of every
  request on the abstract tree; \<open>request_fuel\<close> and the rows of the store are enough fuel),
  \<open>Server_Restart\<close> (acknowledged changes survive a restart), \<open>Lock\<close> (the lock file, whole calls and one
  system call at a time).  \<open>Threads\<close> is the running daemon: the accept loop, the connections one access
  to shared memory at a time, the callbacks of the mount, the shutdown flag and the release of socket
  and lock.  \<open>Threads_Theorems\<close> proves the invariant of its runs, with the locale \<open>ledger\<close> for the
  counters and its four instances; \<open>Threads_Properties\<close> states that every run is equivalent to a
  sequential history, that counters are exact, that received messages are answered, that a shutdown
  ends the daemon, and that it does not wait for the connections.

  \<^bold>\<open>Mount\<close> (\<open>alefs-fuse/src/lib.rs\<close>): \<open>Projection\<close>, \<open>Projection_Theorems\<close> (how values appear as files),
  \<open>Fuse\<close> (the inode table, unflushed writes and every callback), \<open>Fuse_Refine\<close>, \<open>Fuse_Theorems\<close> (each
  callback has the effect its arguments prescribe; what is written and flushed is read back).

  \<^bold>\<open>Command line\<close> (\<open>alefsdb/src/main.rs\<close>): \<open>Cli\<close>, \<open>Cli_Theorems\<close> (what \<open>set\<close> stored \<open>get\<close> prints; a command
  through the daemon shows what a direct one would), \<open>Direct_Race\<close> (a direct command beside a daemon
  corrupts the namespace); the command \<open>serve\<close> is in \<open>Threads\<close>.

  \<^bold>\<open>Load generator\<close> (\<open>alefs-bench/src/main.rs\<close>): \<open>Bench\<close>, \<open>Bench_Theorems\<close> (the report adds up).

  \<^bold>\<open>Parameters.\<close>  Code outside the sources is an argument of the definitions that use it: the JSON of
  \<open>serde_json\<close>, the text of derived \<open>Debug\<close> output, the clock, the hash of \<open>DefaultHasher\<close> (its algorithm
  is unspecified), when the buffer of a directory listing is full, the results of connecting, binding
  and of reading and writing files.  Theorems about them hold for every argument, or name what they
  need (encoders that do not fail, hashes without collision).

  \<^bold>\<open>Limits in hypotheses.\<close>  Strings and collections fit the 32-bit lengths of the codec, strings are
  UTF-8 (as Rust guarantees), and neither node identifiers nor inodes reach the end of 64 bits, where
  the code would wrap or panic.

  \<^bold>\<open>Not modelled.\<close>  The parsing of arguments (\<open>clap\<close>), logging (\<open>tracing\<close>), the registration of signal
  handlers (\<open>signal_hook\<close>; a signal is a step that sets the flag) and the session loop of \<open>fuser\<close> are
  libraries.  Times, user and group of a file are the clock's and the process's.  Failures of
  allocation, stack overflow in deep recursion, and errors of \<open>sync_data\<close> and of metadata calls other
  than those named above are not in the model.  The clients of the load generator are modelled one
  after another with the results of their calls as arguments, since only totals are reported; its
  floating-point output is a text.  Memory is sequentially consistent: the relaxed atomics of the
  counters are only added to and read.
\<close>

end
